(* ===== verification/Rs_Prelude.thy ===== *)
theory Rs_Prelude
  imports Main "HOL-Library.Word" "HOL-Library.Monad_Syntax"
begin

text \<open>
  The prelude of the development: the machine integers of the Rust sources, the panic monad
  in which slice writes and checked arithmetic run, big-endian byte order, and the lemmas on
  words, lists and buffers that the component theories share.

  \<^item> A Rust \<open>u8\<close>, \<open>u16\<close>, \<open>u32\<close>, \<open>u64\<close> is a word of that width. A \<open>usize\<close> that measures
    a slice is a \<open>nat\<close>: it is the length of a list.
  \<^item> A call that may panic has type \<open>'a run\<close>, an option in which \<open>None\<close> is the panic.
  \<^item> Integer overflow panics when the crate is built with overflow checks (the dev profile)
    and wraps without them (the release profile; the manifest overrides neither), so an
    operation whose overflow is reachable takes the flag \<open>ovf\<close> of its build.
\<close>

unbundle bit_operations_syntax

section \<open>Types\<close>

type_synonym u8 = "8 word"
type_synonym u16 = "16 word"
type_synonym u32 = "32 word"
type_synonym u64 = "64 word"
type_synonym bytes = "8 word list"
type_synonym 'a run = "'a option"

named_theorems wire_simps \<open>lengths and layouts of the wire formats\<close>
named_theorems word_bytes \<open>words taken apart into bytes and put together again\<close>

section \<open>Buffers, checked arithmetic, byte order\<close>

text \<open>\<open>buf[i..i + bs.len()].copy_from_slice(bs)\<close>: panics when the range leaves the buffer.\<close>

definition write_at :: "'a list \<Rightarrow> nat \<Rightarrow> 'a list \<Rightarrow> 'a list run" where
  "write_at buf i bs =
     (if i + length bs \<le> length buf
      then Some (take i buf @ bs @ drop (i + length bs) buf) else None)"

text \<open>\<open>&buf[i..j]\<close>: panics when the range is not inside the buffer.\<close>

definition subslice :: "'a list \<Rightarrow> nat \<Rightarrow> nat \<Rightarrow> 'a list run" where
  "subslice buf i j = (if i \<le> j \<and> j \<le> length buf then Some (drop i (take j buf)) else None)"

text \<open>\<open>buf[i]\<close>: panics out of range.\<close>

definition index :: "'a list \<Rightarrow> nat \<Rightarrow> 'a run" where
  "index buf i = (if i < length buf then Some (buf ! i) else None)"

text \<open>\<open>a + b\<close> on words: a panic on overflow in a build with overflow checks, else it wraps.\<close>

definition add_word :: "bool \<Rightarrow> 'a::len word \<Rightarrow> 'a word \<Rightarrow> 'a word run" where
  "add_word ovf a b =
     (if ovf \<and> 2 ^ LENGTH('a) \<le> unat a + unat b then None else Some (a + b))"

text \<open>\<open>usize::div_ceil\<close>.\<close>

definition div_ceil :: "nat \<Rightarrow> nat \<Rightarrow> nat" where
  "div_ceil a b = (if a mod b = 0 then a div b else a div b + 1)"

definition u16_to_be_bytes :: "u16 \<Rightarrow> bytes" where
  "u16_to_be_bytes w = [ucast (drop_bit 8 w), ucast w]"

definition u32_to_be_bytes :: "u32 \<Rightarrow> bytes" where
  "u32_to_be_bytes w =
     [ucast (drop_bit 24 w), ucast (drop_bit 16 w), ucast (drop_bit 8 w), ucast w]"

text \<open>\<open>from_be_bytes\<close>, and the accumulation \<open>val = (val << 8) | b\<close> of the varint decoder.\<close>

definition from_be :: "'a::len word \<Rightarrow> bytes \<Rightarrow> 'a word" where
  "from_be init bs = foldl (\<lambda>val b. push_bit 8 val OR ucast b) init bs"

section \<open>Buffers\<close>

lemma write_at_Some [simp]:
  "i + length bs \<le> length buf \<Longrightarrow>
     write_at buf i bs = Some (take i buf @ bs @ drop (i + length bs) buf)"
  by (simp add: write_at_def)

lemma write_at_None_iff: "write_at buf i bs = None \<longleftrightarrow> length buf < i + length bs"
  by (auto simp: write_at_def)

lemma write_at_single: "i < length buf \<Longrightarrow> write_at buf i [x] = Some (buf[i := x])"
  by (simp add: upd_conv_take_nth_drop)

lemma write_at_length: "write_at buf i bs = Some buf' \<Longrightarrow> length buf' = length buf"
  by (auto simp: write_at_def split: if_splits)

text \<open>
  Writing the next field right after what is already written: buffers are filled from the
  front, and the tail keeps its old contents.
\<close>

lemma write_at_append:
  assumes "i = length pre" and "length bs \<le> length rest"
  shows "write_at (pre @ rest) i bs = Some ((pre @ bs) @ drop (length bs) rest)"
  using assms by (simp add: write_at_def)

lemma subslice_Some [simp]: "i \<le> j \<Longrightarrow> j \<le> length buf \<Longrightarrow> subslice buf i j = Some (drop i (take j buf))"
  by (simp add: subslice_def)

lemma index_Some [simp]: "i < length buf \<Longrightarrow> index buf i = Some (buf ! i)"
  by (simp add: index_def)

lemma those_map_Some: "(\<And>x. x \<in> set xs \<Longrightarrow> f x = Some (g x)) \<Longrightarrow> those (map f xs) = Some (map g xs)"
  by (induction xs) auto

section \<open>Arithmetic\<close>

lemma add_word_release [simp]: "add_word False a b = Some (a + b)"
  by (simp add: add_word_def)

lemma add_word_no_overflow:
  fixes a b :: "'a::len word"
  shows "unat a + unat b < 2 ^ LENGTH('a) \<Longrightarrow> add_word ovf a b = Some (a + b)"
  by (simp add: add_word_def)

lemma add_word_None_iff:
  fixes a b :: "'a::len word"
  shows "add_word ovf a b = None \<longleftrightarrow> ovf \<and> 2 ^ LENGTH('a) \<le> unat a + unat b"
  by (simp add: add_word_def)

lemma div_ceil_le_iff:
  assumes "0 < b"
  shows "div_ceil a b \<le> n \<longleftrightarrow> a \<le> n * b"
proof (cases "a mod b = 0")
  case True
  then obtain q where "a = q * b" by (metis mod_eq_0_iff_dvd dvdE mult.commute)
  with assms show ?thesis by (simp add: div_ceil_def)
next
  case False
  have "a div b + 1 \<le> n \<longleftrightarrow> a < n * b"
    using assms by (metis Suc_eq_plus1 Suc_le_eq div_less_iff_less_mult)
  moreover have "a \<noteq> n * b" using False by auto
  ultimately show ?thesis using False by (auto simp: div_ceil_def)
qed

lemma div_ceil_gt_iff: "0 < b \<Longrightarrow> n < div_ceil a b \<longleftrightarrow> n * b < a"
  using div_ceil_le_iff [of b a n] by linarith

lemma mod_256_neq:
  fixes a b :: nat
  assumes "a < 256" and "0 < b" and "b < 256"
  shows "(a + b) mod 256 \<noteq> a"
  using assms by (cases "a + b < 256") (simp_all add: le_mod_geq)

section \<open>Words and their bytes\<close>

lemma drop_bit_eq_0_word:
  fixes w :: "'a::len word"
  shows "unat w < 2 ^ n \<Longrightarrow> drop_bit n w = 0"
  by (metis drop_bit_eq_div div_less unat_drop_bit_eq unat_eq_zero)

lemma take_bit_id_word:
  fixes w :: "'a::len word"
  shows "unat w < 2 ^ n \<Longrightarrow> take_bit n w = w"
  by (simp add: word_unat_eq_iff unsigned_take_bit_eq take_bit_nat_eq_self)

text \<open>Shifting one byte of \<open>v\<close> into the accumulator that holds the bits above it.\<close>

lemma shift_in_byte [word_bytes]:
  fixes v :: "'a::len word"
  assumes "m + 8 \<le> k"
  shows "push_bit 8 (drop_bit (m + 8) (take_bit k v)) OR ucast (ucast (drop_bit m v) :: u8)
           = drop_bit m (take_bit k v)"
proof (rule bit_word_eqI)
  fix n assume "n < LENGTH('a)"
  then show "bit (push_bit 8 (drop_bit (m + 8) (take_bit k v)) OR
      ucast (ucast (drop_bit m v) :: u8)) n = bit (drop_bit m (take_bit k v)) n"
    using assms
    by (cases "n < 8") (auto simp: bit_simps dest: bit_imp_le_length)
qed

lemma from_be_Nil [simp]: "from_be v [] = v"
  by (simp add: from_be_def)

lemma from_be_Cons [simp]: "from_be v (b # bs) = from_be (push_bit 8 v OR ucast b) bs"
  by (simp add: from_be_def)

lemma u16_be_roundtrip: "from_be 0 (u16_to_be_bytes w) = w"
proof -
  have "w = take_bit 16 w" by (rule take_bit_id_word [symmetric]) (use unsigned_less [of w] in simp)
  then show ?thesis
    using shift_in_byte [of 0 16 w] shift_in_byte [of 8 16 w]
    by (simp add: u16_to_be_bytes_def drop_bit_eq_0_word)
qed

lemma u32_be_roundtrip: "from_be 0 (u32_to_be_bytes w) = w"
proof -
  have "w = take_bit 32 w" by (rule take_bit_id_word [symmetric]) (use unsigned_less [of w] in simp)
  then show ?thesis
    using shift_in_byte [of 0 32 w] shift_in_byte [of 8 32 w] shift_in_byte [of 16 32 w]
      shift_in_byte [of 24 32 w]
    by (simp add: u32_to_be_bytes_def drop_bit_eq_0_word)
qed

lemma u16_be_bytes: "u16_to_be_bytes (from_be 0 [a, b]) = [a, b]"
  by (auto simp: u16_to_be_bytes_def bit_eq_iff bit_simps dest: bit_imp_le_length)

lemma u32_be_bytes: "u32_to_be_bytes (from_be 0 [a, b, c, d]) = [a, b, c, d]"
  by (auto simp: u32_to_be_bytes_def bit_eq_iff bit_simps dest: bit_imp_le_length)

lemma word_of_unat: "unat w = n \<Longrightarrow> w = of_nat n"
  by auto

end
