(* ===== verification/Field_Codec.thy ===== *)
theory Field_Codec
  imports Rs_Prelude
begin

text \<open>
  The interface between the integer coding and the frames built on it: a self-delimiting
  coding of values at the front of a byte buffer, and a length-counted field on top of it.
  The frame theories rely on these laws only; \<^verbatim>\<open>Varint\<close> discharges them for the
  QUIC variable-length integers of the sources.
\<close>

section \<open>Self-delimiting codings\<close>

text \<open>
  \<open>dec\<close> returns the value and the number of bytes it consumed, or \<open>None\<close> while the buffer
  is too short. More input never changes an answer, and the answer only depends on the bytes
  consumed.
\<close>

locale prefix_codec =
  fixes enc :: "'v \<Rightarrow> bytes"
    and dec :: "bytes \<Rightarrow> ('v \<times> nat) option"
    and fits :: "'v \<Rightarrow> bool"
  assumes dec_enc: "fits v \<Longrightarrow> dec (enc v @ rest) = Some (v, length (enc v))"
    and dec_more: "dec bs = Some (v, n) \<Longrightarrow> dec (bs @ rest) = Some (v, n)"
    and dec_consumed: "dec bs = Some (v, n) \<Longrightarrow> 0 < n \<and> n \<le> length bs"
    and dec_local: "dec bs = Some (v, n) \<Longrightarrow> dec (take n bs) = Some (v, n)"
    and dec_fits: "dec bs = Some (v, n) \<Longrightarrow> fits v"
begin

lemma dec_Nil: "dec [] = None"
  using dec_consumed [of "[]"] by (cases "dec []") auto

lemma dec_short: "dec (bs @ rest) = None \<Longrightarrow> dec bs = None"
  using dec_more [of bs] by (cases "dec bs") auto

lemma enc_nonempty: "fits v \<Longrightarrow> enc v \<noteq> []"
  using dec_enc [of v "[]"] dec_consumed by fastforce

text \<open>No encoding is a proper prefix of another, so a concatenation parses in one way only.\<close>

lemma enc_unique:
  assumes "fits v" and "fits w" and "enc v @ r = enc w @ s"
  shows "v = w \<and> r = s"
proof -
  have "Some (v, length (enc v)) = Some (w, length (enc w))"
    using assms dec_enc by metis
  with assms(3) show ?thesis by auto
qed

text \<open>On a buffer of which a prefix decodes, a longer prefix decodes to the same.\<close>

lemma dec_take_more:
  assumes "dec (take i bs) = Some (v, n)" and "i \<le> j"
  shows "dec (take j bs) = Some (v, n)"
proof -
  have "take j bs = take i bs @ drop i (take j bs)"
    using assms(2) by (metis append_take_drop_id min.absorb1 take_take)
  then show ?thesis using dec_more [OF assms(1)] by metis
qed

end

section \<open>Length-counted fields\<close>

text \<open>
  The frames carry a byte string as its encoded length followed by its bytes. A reader that
  decodes the length and then takes that many bytes gets the string back, and what follows
  the field is where the next read starts.
\<close>

locale counted_codec = prefix_codec enc dec fits
  for enc :: "u64 \<Rightarrow> bytes" and dec :: "bytes \<Rightarrow> (u64 \<times> nat) option" and fits :: "u64 \<Rightarrow> bool" +
  assumes fits_small: "n < 2 ^ 32 \<Longrightarrow> fits (of_nat n)"
begin

lemma unat_len: "n < 2 ^ 32 \<Longrightarrow> unat (of_nat n :: u64) = n"
  by (simp add: unsigned_of_nat take_bit_nat_eq_self)

lemma counted_length:
  "length xs < 2 ^ 32 \<Longrightarrow>
     dec (enc (of_nat (length xs)) @ xs @ rest)
       = Some (of_nat (length xs), length (enc (of_nat (length xs))))"
  by (rule dec_enc) (rule fits_small)

text \<open>The field as the reader cuts it out: length, consumed bytes, contents, and the rest.\<close>

lemma counted_field:
  assumes "length xs < 2 ^ 32"
  shows "\<exists>v n. dec (enc (of_nat (length xs)) @ xs @ rest) = Some (v, n) \<and> unat v = length xs \<and>
           n = length (enc (of_nat (length xs))) \<and>
           take (unat v) (drop n (enc (of_nat (length xs)) @ xs @ rest)) = xs \<and>
           drop (n + unat v) (enc (of_nat (length xs)) @ xs @ rest) = rest"
  using counted_length [OF assms, of rest] assms by (simp add: unat_len)

lemma counted_unique:
  assumes "length xs < 2 ^ 32" and "length ys < 2 ^ 32"
    and "enc (of_nat (length xs)) @ xs @ r = enc (of_nat (length ys)) @ ys @ s"
  shows "xs = ys \<and> r = s"
proof -
  have "(of_nat (length xs) :: u64) = of_nat (length ys)" and "xs @ r = ys @ s"
    using enc_unique [OF fits_small [OF assms(1)] fits_small [OF assms(2)] assms(3)] by auto
  moreover from this(1) have "length xs = length ys"
    using unat_len [OF assms(1)] unat_len [OF assms(2)] by metis
  ultimately show ?thesis by simp
qed

end

end
