(* ===== verification/Varint.thy ===== *)
theory Varint
  imports Field_Codec
begin

text \<open>
  QUIC variable-length integers, \<^verbatim>\<open>src/src/protocol.rs\<close>: the writer that appends to
  a growing buffer, the writer into a slice, the length function and the reader. The reader
  is a left inverse of both writers modulo \<open>2 ^ 62\<close>, the largest value the format can carry.
\<close>

section \<open>Definitions\<close>

definition put_varint :: "bytes \<Rightarrow> u64 \<Rightarrow> bytes" where
  "put_varint buf v =
     (if v \<le> 63 then buf @ [ucast v]
      else if v \<le> 16383 then buf @ [ucast (drop_bit 8 v) OR 0x40, ucast v]
      else if v \<le> 1073741823 then
        buf @ [ucast (drop_bit 24 v) OR 0x80, ucast (drop_bit 16 v),
               ucast (drop_bit 8 v), ucast v]
      else
        buf @ [ucast (drop_bit 56 v) OR 0xc0, ucast (drop_bit 48 v), ucast (drop_bit 40 v),
               ucast (drop_bit 32 v), ucast (drop_bit 24 v), ucast (drop_bit 16 v),
               ucast (drop_bit 8 v), ucast v])"

definition get_varint :: "bytes \<Rightarrow> (u64 \<times> nat) option" where
  "get_varint buf =
     (case buf of
        [] \<Rightarrow> None
      | first # _ \<Rightarrow>
          let len = push_bit (unat (drop_bit 6 first)) (1::nat) in
          if length buf < len then None
          else Some (from_be (ucast (first AND 0x3f)) (drop 1 (take len buf)), len))"

definition varint_len :: "u64 \<Rightarrow> nat" where
  "varint_len v =
     (if v \<le> 63 then 1 else if v \<le> 16383 then 2 else if v \<le> 1073741823 then 4 else 8)"

text \<open>The writer into a slice stores byte by byte and panics past the end of the slice.\<close>

fun store_bytes :: "bytes \<Rightarrow> nat \<Rightarrow> bytes \<Rightarrow> bytes run" where
  "store_bytes buf i [] = Some buf"
| "store_bytes buf i (b # bs) =
     (if i < length buf then store_bytes (buf[i := b]) (i + 1) bs else None)"

definition put_varint_slice :: "bytes \<Rightarrow> u64 \<Rightarrow> (bytes \<times> nat) run" where
  "put_varint_slice buf v =
     (if v \<le> 63 then do {
        buf \<leftarrow> store_bytes buf 0 [ucast v];
        Some (buf, 1) }
      else if v \<le> 16383 then do {
        buf \<leftarrow> store_bytes buf 0 [ucast (drop_bit 8 v) OR 0x40, ucast v];
        Some (buf, 2) }
      else if v \<le> 1073741823 then do {
        buf \<leftarrow> store_bytes buf 0 [ucast (drop_bit 24 v) OR 0x80, ucast (drop_bit 16 v),
                                   ucast (drop_bit 8 v), ucast v];
        Some (buf, 4) }
      else do {
        buf \<leftarrow> store_bytes buf 0 [ucast (drop_bit 56 v) OR 0xc0, ucast (drop_bit 48 v),
                                   ucast (drop_bit 40 v), ucast (drop_bit 32 v),
                                   ucast (drop_bit 24 v), ucast (drop_bit 16 v),
                                   ucast (drop_bit 8 v), ucast v];
        Some (buf, 8) })"

section \<open>Lengths\<close>

lemma put_varint_append: "put_varint buf v = buf @ put_varint [] v"
  by (simp add: put_varint_def)

lemma length_put_varint [wire_simps, simp]: "length (put_varint buf v) = length buf + varint_len v"
  by (simp add: put_varint_def varint_len_def)

lemma varint_len_range: "varint_len v \<in> {1, 2, 4, 8}"
  by (simp add: varint_len_def)

lemma varint_len_pos [simp]: "0 < varint_len v"
  by (simp add: varint_len_def)

section \<open>The tag bits of the first byte\<close>

lemma tag_bits:
  fixes b :: u8
  shows "drop_bit 6 (b OR 0x40) = drop_bit 6 b OR 1"
    and "drop_bit 6 (b OR 0x80) = drop_bit 6 b OR 2"
    and "drop_bit 6 b OR 3 = 3"
    and "(b OR 0x40) AND 0x3f = take_bit 6 b"
    and "(b OR 0x80) AND 0x3f = take_bit 6 b"
    and "(b OR 0xc0) AND 0x3f = take_bit 6 b"
    and "b AND 0x3f = take_bit 6 b"
proof -
  have n: "(0x40::u8) = push_bit 6 1" "(0x80::u8) = push_bit 7 1"
    "(0xc0::u8) = push_bit 6 (mask 2)" "(0x3f::u8) = mask 6"
    "(2::u8) = push_bit 1 1" "(3::u8) = mask 2"
    by (simp_all add: mask_eq_exp_minus_1)
  have "(64::int) = push_bit 6 1" "(128::int) = push_bit 6 2" "(192::int) = push_bit 6 3"
    by simp_all
  then have low: "\<not> bit (64::int) k" "\<not> bit (128::int) k" "\<not> bit (192::int) k" if "k < 6" for k
    using that by (simp_all only: bit_push_bit_iff) simp_all
  show "drop_bit 6 (b OR 0x40) = drop_bit 6 b OR 1"
    unfolding n by (rule bit_word_eqI) (auto simp: bit_simps)
  show "drop_bit 6 (b OR 0x80) = drop_bit 6 b OR 2"
    unfolding n by (rule bit_word_eqI) (auto simp: bit_simps)
  show "drop_bit 6 b OR 3 = 3"
    unfolding n by (rule bit_word_eqI) (auto simp: bit_simps dest: bit_imp_le_length)
  show "(b OR 0x40) AND 0x3f = take_bit 6 b"
    unfolding n(4) by (rule bit_word_eqI) (auto simp: bit_simps low)
  show "(b OR 0x80) AND 0x3f = take_bit 6 b"
    unfolding n(4) by (rule bit_word_eqI) (auto simp: bit_simps low)
  show "(b OR 0xc0) AND 0x3f = take_bit 6 b"
    unfolding n(4) by (rule bit_word_eqI) (auto simp: bit_simps low)
  show "b AND 0x3f = take_bit 6 b"
    unfolding n by (rule bit_word_eqI) (auto simp: bit_simps)
qed

section \<open>Decoding what was encoded\<close>

lemma varint_bound:
  fixes v :: u64
  shows "v \<le> 63 \<Longrightarrow> unat v < 2 ^ 6" and "v \<le> 16383 \<Longrightarrow> unat v < 2 ^ 14"
    and "v \<le> 1073741823 \<Longrightarrow> unat v < 2 ^ 30"
  by (simp_all add: word_le_nat_alt)

text \<open>The first byte carries the bits of \<open>v\<close> from position \<open>m\<close> up, six of them.\<close>

lemma first_byte:
  "ucast (take_bit 6 (ucast (drop_bit m v) :: u8)) = drop_bit m (take_bit (m + 6) (v :: u64))"
  by (rule bit_word_eqI) (auto simp: bit_simps)

lemma top_bits_clear:
  assumes "unat (v :: u64) < 2 ^ (m + 6)"
  shows "drop_bit 6 (ucast (drop_bit m v) :: u8) = 0"
proof (rule drop_bit_eq_0_word)
  have "unat (ucast (drop_bit m v) :: u8) \<le> unat (drop_bit m v)"
    by (simp add: unsigned_ucast_eq)
  also have "\<dots> = unat v div 2 ^ m" by (metis unat_drop_bit_eq drop_bit_eq_div)
  also have "\<dots> < 2 ^ 6" using assms by (simp add: div_less_iff_less_mult power_add mult.commute)
  finally show "unat (ucast (drop_bit m v) :: u8) < 2 ^ 6" .
qed

lemma get_put_varint: "get_varint (put_varint [] v @ rest) = Some (take_bit 62 v, varint_len v)"
proof -
  consider (b1) "v \<le> 63" | (b2) "\<not> v \<le> 63" "v \<le> 16383"
    | (b4) "\<not> v \<le> 16383" "v \<le> 1073741823" "\<not> v \<le> 63"
    | (b8) "\<not> v \<le> 1073741823" "\<not> v \<le> 16383" "\<not> v \<le> 63"
    by (cases "v \<le> 63"; cases "v \<le> 16383"; cases "v \<le> 1073741823") auto
  then show ?thesis
  proof cases
    case b1
    then have "unat v < 2 ^ 6" by (rule varint_bound)
    then have "drop_bit 6 (ucast v :: u8) = 0" and "take_bit 6 v = v" and "take_bit 62 v = v"
      using top_bits_clear [of v 0] by (auto intro!: take_bit_id_word)
    with b1 show ?thesis
      using first_byte [of 0 v] by (simp add: put_varint_def get_varint_def varint_len_def tag_bits)
  next
    case b2
    then have "unat v < 2 ^ 14" by (intro varint_bound)
    then have "drop_bit 6 (ucast (drop_bit 8 v) :: u8) = 0" and "take_bit 14 v = v"
        and "take_bit 62 v = v"
      using top_bits_clear [of v 8] by (auto intro!: take_bit_id_word)
    with b2 show ?thesis
      using first_byte [of 8 v] shift_in_byte [of 0 14 v]
      by (simp add: put_varint_def get_varint_def varint_len_def tag_bits)
  next
    case b4
    then have "unat v < 2 ^ 30" by (intro varint_bound)
    then have "drop_bit 6 (ucast (drop_bit 24 v) :: u8) = 0" and "take_bit 30 v = v"
        and "take_bit 62 v = v"
      using top_bits_clear [of v 24] by (auto intro!: take_bit_id_word)
    with b4 show ?thesis
      using first_byte [of 24 v] shift_in_byte [of 0 30 v] shift_in_byte [of 8 30 v]
        shift_in_byte [of 16 30 v]
      by (simp add: put_varint_def get_varint_def varint_len_def tag_bits)
  next
    case b8
    then show ?thesis
      using first_byte [of 56 v] shift_in_byte [of 0 62 v] shift_in_byte [of 8 62 v]
        shift_in_byte [of 16 62 v] shift_in_byte [of 24 62 v] shift_in_byte [of 32 62 v]
        shift_in_byte [of 40 62 v] shift_in_byte [of 48 62 v]
      by (simp add: put_varint_def get_varint_def varint_len_def tag_bits)
  qed
qed

section \<open>The reader on arbitrary input\<close>

lemma tag_range: "unat (drop_bit 6 (b :: u8)) \<in> {0, 1, 2, 3}"
proof -
  have "unat (drop_bit 6 b) = unat b div 2 ^ 6" by (metis unat_drop_bit_eq drop_bit_eq_div)
  moreover have "unat b < 256" using unsigned_less [of b] by simp
  ultimately have "unat (drop_bit 6 b) < 4" by simp
  then show ?thesis by auto
qed

lemma get_varint_Some_iff:
  "get_varint buf = Some (v, n) \<longleftrightarrow>
     buf \<noteq> [] \<and> n = 2 ^ unat (drop_bit 6 (hd buf)) \<and> n \<le> length buf \<and>
     v = from_be (ucast (hd buf AND 0x3f)) (drop 1 (take n buf))"
  by (auto simp: get_varint_def Let_def not_less split: list.splits)

lemma get_varint_len:
  assumes "get_varint buf = Some (v, n)"
  shows "n \<in> {1, 2, 4, 8}" and "n \<le> length buf"
proof -
  have "n = 2 ^ unat (drop_bit 6 (hd buf))" and le: "n \<le> length buf"
    using assms by (auto simp: get_varint_Some_iff)
  then show "n \<in> {1, 2, 4, 8}" using tag_range [of "hd buf"] by auto
  show "n \<le> length buf" by (rule le)
qed

lemma get_varint_more: "get_varint bs = Some (v, n) \<Longrightarrow> get_varint (bs @ rest) = Some (v, n)"
  by (auto simp: get_varint_Some_iff)

lemma get_varint_local: "get_varint bs = Some (v, n) \<Longrightarrow> get_varint (take n bs) = Some (v, n)"
  by (auto simp: get_varint_Some_iff)

lemma from_be_bound:
  fixes v :: "'a::len word"
  assumes "take_bit k v = v"
  shows "take_bit (k + 8 * length bs) (from_be v bs) = from_be v bs"
  using assms
proof (induction bs arbitrary: k v)
  case Nil
  then show ?case by simp
next
  case (Cons b bs)
  have "take_bit (k + 8) (push_bit 8 v) = push_bit 8 v"
    using Cons.prems by (simp add: take_bit_push_bit)
  moreover have "take_bit (k + 8) (ucast b :: 'a word) = ucast b"
    by (rule bit_word_eqI) (auto simp: bit_simps dest: bit_imp_le_length)
  ultimately have "take_bit (k + 8) (push_bit 8 v OR ucast b) = push_bit 8 v OR ucast b"
    by simp
  from Cons.IH [OF this] show ?case by (simp add: algebra_simps)
qed

lemma get_varint_bits:
  assumes "get_varint buf = Some (v, n)"
  shows "take_bit (8 * n - 2) v = v"
proof -
  have v: "v = from_be (ucast (hd buf AND 0x3f)) (drop 1 (take n buf))" and "n \<le> length buf"
    using assms by (auto simp: get_varint_Some_iff)
  have "0 < n" using get_varint_len [OF assms] by auto
  have "take_bit 6 (ucast (hd buf AND 0x3f) :: u64) = ucast (hd buf AND 0x3f)"
    unfolding tag_bits by (rule bit_word_eqI) (auto simp: bit_simps)
  from from_be_bound [OF this, of "drop 1 (take n buf)"]
  have "take_bit (6 + 8 * (n - 1)) v = v" using v \<open>n \<le> length buf\<close> by simp
  moreover have "6 + 8 * (n - 1) = 8 * n - 2" using \<open>0 < n\<close> by simp
  ultimately show ?thesis by simp
qed

lemma take_bit_unat_less:
  fixes v :: "'a::len word"
  shows "take_bit k v = v \<Longrightarrow> unat v < 2 ^ k"
  by (metis take_bit_nat_less_exp unsigned_take_bit_eq)

lemma get_varint_value:
  assumes "get_varint buf = Some (v, n)"
  shows "unat v < 2 ^ (8 * n - 2)"
  using get_varint_bits [OF assms] by (rule take_bit_unat_less)

section \<open>The interface towards the frames\<close>

definition varint_ok :: "u64 \<Rightarrow> bool" where
  "varint_ok v \<longleftrightarrow> unat v < 2 ^ 62"

interpretation vi: counted_codec "put_varint []" get_varint varint_ok
proof unfold_locales
  fix v rest
  assume "varint_ok v"
  then have "take_bit 62 v = v" by (intro take_bit_id_word) (simp add: varint_ok_def)
  then show "get_varint (put_varint [] v @ rest) = Some (v, length (put_varint [] v))"
    by (simp add: get_put_varint)
next
  fix bs v n
  assume dec: "get_varint bs = Some (v, n)"
  show "0 < n \<and> n \<le> length bs" using get_varint_len [OF dec] by auto
  have "(2::nat) ^ (8 * n - 2) \<le> 2 ^ 62"
    using get_varint_len(1) [OF dec] by (intro power_increasing) auto
  then show "varint_ok v" using get_varint_value [OF dec] by (simp add: varint_ok_def)
next
  fix n :: nat
  assume "n < 2 ^ 32"
  then show "varint_ok (of_nat n)"
    by (simp add: varint_ok_def unsigned_of_nat take_bit_nat_eq_self)
qed (auto intro: get_varint_more get_varint_local)

section \<open>The slice writer\<close>

lemma store_bytes_eq:
  "store_bytes buf i bs = (if i + length bs \<le> length buf \<or> bs = [] then
     Some (take i buf @ bs @ drop (i + length bs) buf) else None)"
proof (induction buf i bs rule: store_bytes.induct)
  case (1 buf i)
  then show ?case by simp
next
  case (2 buf i b bs)
  show ?case
  proof (cases "i < length buf")
    case True
    have "take (Suc i) (buf[i := b]) = take i buf @ [b]"
      using True by (simp add: take_Suc_conv_app_nth)
    moreover have "drop (Suc i + k) (buf[i := b]) = drop (Suc i + k) buf" for k
      by simp
    ultimately show ?thesis using True 2 by auto
  qed simp
qed

lemma put_varint_slice_eq:
  "put_varint_slice buf v = (if varint_len v \<le> length buf
     then Some (put_varint [] v @ drop (varint_len v) buf, varint_len v) else None)"
  by (simp add: put_varint_slice_def put_varint_def varint_len_def store_bytes_eq eval_nat_numeral)

section \<open>Properties\<close>

text \<open>
  C26. Appending a varint to any buffer and reading it back yields the value modulo \<open>2 ^ 62\<close>
  (the format has 62 value bits) and the advertised encoded length, whatever bytes follow.
\<close>

theorem varint_roundtrip:
  "get_varint (drop (length buf) (put_varint buf v) @ rest) = Some (take_bit 62 v, varint_len v)
   \<and> take (length buf) (put_varint buf v) = buf
   \<and> length (put_varint buf v) = length buf + varint_len v"
  by (simp add: put_varint_append [of buf] get_put_varint)

text \<open>
  The slice writer used by UDP messages is the buffer writer used by TCP requests: it
  overwrites exactly the first \<open>varint_len v\<close> bytes with the same encoding, and it panics
  exactly when the slice is shorter than that.
\<close>

theorem varint_writers_agree:
  "put_varint_slice buf v =
     (if length (put_varint [] v) \<le> length buf
      then Some (put_varint [] v @ drop (length (put_varint [] v)) buf, varint_len v)
      else None)"
  by (simp add: put_varint_slice_eq)

text \<open>
  On arbitrary input the reader consumes 1, 2, 4 or 8 bytes that are really there,
  returns a value below \<open>2 ^ 62\<close> that no shorter encoding was needed for, and depends on the
  consumed bytes only.
\<close>

theorem varint_reader_sound:
  assumes "get_varint buf = Some (v, n)"
  shows "n \<in> {1, 2, 4, 8} \<and> n \<le> length buf \<and> unat v < 2 ^ 62 \<and> varint_len v \<le> n
    \<and> get_varint (take n buf @ rest) = Some (v, n)"
proof (intro conjI)
  show n: "n \<in> {1, 2, 4, 8}" "n \<le> length buf" using get_varint_len [OF assms] by auto
  show "unat v < 2 ^ 62" using vi.dec_fits [OF assms] by (simp add: varint_ok_def)
  have "unat v < 2 ^ (8 * n - 2)" by (rule get_varint_value [OF assms])
  then show "varint_len v \<le> n" using n(1) by (auto simp: varint_len_def word_le_nat_alt)
  show "get_varint (take n buf @ rest) = Some (v, n)"
    using assms by (intro get_varint_more get_varint_local)
qed

theorem varint_reader_sound_witness:
  "get_varint [0x7b, 0xbd, 9] = Some (15293, 2) \<and> unat (15293 :: u64) < 2 ^ 62
   \<and> varint_len 15293 \<le> 2"
proof -
  have "get_varint [0x7b, 0xbd, 9] = Some (15293, 2)" by code_simp
  with varint_reader_sound [OF this, of "[]"] show ?thesis by blast
qed

end
