(* ===== verification/Tcp_Frame.thy ===== *)
theory Tcp_Frame
  imports Varint
begin

text \<open>
  The TCP request and response frames of \<^verbatim>\<open>src/src/protocol.rs\<close>: the limits, the
  random padding, the request writer and the incremental response parser. The random number
  generator is a parameter \<open>rng\<close>: \<open>rng i m\<close> is the \<open>i\<close>-th draw, from the range \<open>0..m\<close>.
\<close>

section \<open>Definitions\<close>

definition FRAME_TYPE_TCP_REQUEST :: u64 where "FRAME_TYPE_TCP_REQUEST = 0x401"
definition MAX_MESSAGE_LENGTH :: u64 where "MAX_MESSAGE_LENGTH = 2048"
definition MAX_PADDING_LENGTH :: u64 where "MAX_PADDING_LENGTH = 4096"
definition MAX_DATAGRAM_FRAME_SIZE :: u64 where "MAX_DATAGRAM_FRAME_SIZE = 1200"
definition MAX_UDP_SIZE :: nat where "MAX_UDP_SIZE = 4096"

lemmas protocol_limits = FRAME_TYPE_TCP_REQUEST_def MAX_MESSAGE_LENGTH_def
  MAX_PADDING_LENGTH_def MAX_DATAGRAM_FRAME_SIZE_def MAX_UDP_SIZE_def

definition PADDING_CHARS :: bytes where
  "PADDING_CHARS =
     map of_char ''abcdefghijklmnopqrstuvwxyzABCDEFGHIJKLMNOPQRSTUVWXYZ0123456789''"

type_synonym rng = "nat \<Rightarrow> nat \<Rightarrow> nat"

definition random_padding :: "rng \<Rightarrow> nat \<Rightarrow> nat \<Rightarrow> bytes run" where
  "random_padding rng lo hi =
     (let n = (if hi > lo then lo + rng 0 (hi - lo) else lo)
      in those (map (\<lambda>i. index PADDING_CHARS (rng (i + 1) (length PADDING_CHARS))) [0..<n]))"

definition auth_request_padding :: "rng \<Rightarrow> bytes run" where
  "auth_request_padding rng = random_padding rng 256 2048"

definition tcp_request_padding :: "rng \<Rightarrow> bytes run" where
  "tcp_request_padding rng = random_padding rng 64 512"

definition encode_tcp_request :: "rng \<Rightarrow> bytes \<Rightarrow> bytes run" where
  "encode_tcp_request rng address = do {
     pad \<leftarrow> tcp_request_padding rng;
     let buf = put_varint [] FRAME_TYPE_TCP_REQUEST;
     let buf = put_varint buf (of_nat (length address));
     let buf = buf @ address;
     let buf = put_varint buf (of_nat (length pad));
     let buf = buf @ pad;
     Some buf }"

datatype tcp_response_parse = NeedMore | Done bool nat | Invalid

text \<open>\<open>buf.get(pos..)\<close>: the tail of the buffer, \<open>None\<close> past its end.\<close>

definition get_from :: "bytes \<Rightarrow> nat \<Rightarrow> bytes option" where
  "get_from buf pos = (if pos \<le> length buf then Some (drop pos buf) else None)"

definition parse_tcp_response :: "bytes \<Rightarrow> tcp_response_parse" where
  "parse_tcp_response buf =
     (case (if 0 < length buf then Some (buf ! 0) else None) of
        None \<Rightarrow> NeedMore
      | Some status \<Rightarrow> let pos = 1 in
     (case Option.bind (get_from buf pos) get_varint of
        None \<Rightarrow> NeedMore
      | Some (msg_len, n) \<Rightarrow>
        if msg_len > MAX_MESSAGE_LENGTH then Invalid
        else let pos = pos + (n + unat msg_len) in
        if length buf < pos then NeedMore
        else
     (case Option.bind (get_from buf pos) get_varint of
        None \<Rightarrow> NeedMore
      | Some (pad_len, n) \<Rightarrow>
        if pad_len > MAX_PADDING_LENGTH then Invalid
        else let pos = pos + (n + unat pad_len) in
        if length buf < pos then NeedMore
        else Done (status = 0) pos)))"

section \<open>The formats the comments document\<close>

text \<open>
  A TCPResponse on the wire, \<open>status(1) | varint(msg_len) | msg | varint(pad_len) | pad\<close>, and
  the reader of a TCPRequest that a server following the documented layout would use.
\<close>

definition tcp_response_wire :: "u8 \<Rightarrow> bytes \<Rightarrow> bytes \<Rightarrow> bytes" where
  "tcp_response_wire status msg pad =
     status # put_varint [] (of_nat (length msg)) @ msg @ put_varint [] (of_nat (length pad)) @ pad"

definition read_tcp_request :: "bytes \<Rightarrow> (u64 \<times> bytes \<times> bytes \<times> bytes) option" where
  "read_tcp_request buf = do {
     (typ, n) \<leftarrow> get_varint buf;
     let buf = drop n buf;
     (alen, n) \<leftarrow> get_varint buf;
     let buf = drop n buf;
     let address = take (unat alen) buf;
     let buf = drop (unat alen) buf;
     (plen, n) \<leftarrow> get_varint buf;
     let buf = drop n buf;
     if length address < unat alen \<or> length buf < unat plen then None
     else Some (typ, address, take (unat plen) buf, drop (unat plen) buf) }"

text \<open>
  The parser in the two stages it runs through. \<open>counted_at\<close> skips one length-counted field
  under a guard: it is what both halves of the parser do.
\<close>

definition counted_at :: "u64 \<Rightarrow> bytes \<Rightarrow> nat \<Rightarrow> (nat \<Rightarrow> tcp_response_parse) \<Rightarrow> tcp_response_parse" where
  "counted_at limit buf pos k =
     (case (if pos \<le> length buf then get_varint (drop pos buf) else None) of
        None \<Rightarrow> NeedMore
      | Some (len, n) \<Rightarrow>
          if len > limit then Invalid
          else if length buf < pos + (n + unat len) then NeedMore
          else k (pos + (n + unat len)))"

text \<open>What the documentation of \<open>random_range(0..m)\<close> promises of a draw.\<close>

definition rng_ok :: "rng \<Rightarrow> bool" where
  "rng_ok rng \<longleftrightarrow> (\<forall>i m. 0 < m \<longrightarrow> rng i m < m)"

lemma unat_limits [simp]: "unat MAX_MESSAGE_LENGTH = 2048" "unat MAX_PADDING_LENGTH = 4096"
  by (simp_all add: protocol_limits)

section \<open>Padding and requests\<close>

lemma random_padding_eq:
  assumes "rng_ok rng"
  shows "\<exists>pad. random_padding rng lo hi = Some pad \<and> set pad \<subseteq> set PADDING_CHARS \<and>
     lo \<le> length pad \<and> length pad = (if lo < hi then lo + rng 0 (hi - lo) else lo)"
proof -
  let ?n = "if lo < hi then lo + rng 0 (hi - lo) else lo"
  let ?c = "\<lambda>i. PADDING_CHARS ! rng (i + 1) (length PADDING_CHARS)"
  have len: "0 < length PADDING_CHARS" by (simp add: PADDING_CHARS_def)
  then have lt: "rng (Suc i) (length PADDING_CHARS) < length PADDING_CHARS" for i
    using assms unfolding rng_ok_def by blast
  have "random_padding rng lo hi = Some (map ?c [0..<?n])"
    unfolding random_padding_def Let_def by (rule those_map_Some) (simp add: lt)
  moreover have "set (map ?c [0..<?n]) \<subseteq> set PADDING_CHARS"
    using lt by auto
  ultimately show ?thesis by auto
qed

lemma random_padding_range:
  assumes "rng_ok rng" and "lo < hi"
  shows "\<exists>pad. random_padding rng lo hi = Some pad \<and> set pad \<subseteq> set PADDING_CHARS \<and>
     lo \<le> length pad \<and> length pad < hi"
proof -
  have "rng 0 (hi - lo) < hi - lo" using assms unfolding rng_ok_def by simp
  then show ?thesis using random_padding_eq [OF assms(1), of lo hi] assms(2) by auto
qed

lemma read_tcp_request_wire:
  assumes "varint_ok typ" and "length address < 2 ^ 32" and "length pad < 2 ^ 32"
  shows "read_tcp_request (put_varint [] typ @ put_varint [] (of_nat (length address)) @ address @
           put_varint [] (of_nat (length pad)) @ pad @ rest) = Some (typ, address, pad, rest)"
  using assms
  by (simp add: read_tcp_request_def vi.dec_enc vi.counted_length vi.unat_len)

section \<open>The response parser\<close>

lemma get_from_bind:
  "Option.bind (get_from buf pos) get_varint =
     (if pos \<le> length buf then get_varint (drop pos buf) else None)"
  by (simp add: get_from_def)

lemma parse_tcp_response_eq:
  "parse_tcp_response buf =
     (if buf = [] then NeedMore
      else counted_at MAX_MESSAGE_LENGTH buf 1 (\<lambda>pos.
             counted_at MAX_PADDING_LENGTH buf pos (Done (buf ! 0 = 0))))"
  by (auto simp: parse_tcp_response_def counted_at_def get_from_bind Let_def split: option.splits)

lemma counted_at_NeedMore:
  assumes "counted_at limit buf pos k = NeedMore"
  shows "length buf < pos + 8 + unat limit \<or>
    (\<exists>pos'. pos < pos' \<and> pos' \<le> pos + 8 + unat limit \<and> pos' \<le> length buf \<and> k pos' = NeedMore)"
proof (cases "pos \<le> length buf")
  case True
  show ?thesis
  proof (cases "get_varint (drop pos buf)")
    case None
    have "length (drop pos buf) < 8"
    proof (rule ccontr)
      assume "\<not> length (drop pos buf) < 8"
      then have "2 ^ unat (drop_bit 6 (hd (drop pos buf))) \<le> length (drop pos buf)"
        using tag_range [of "hd (drop pos buf)"] by auto
      then show False
        using None \<open>\<not> length (drop pos buf) < 8\<close> get_varint_Some_iff [of "drop pos buf"] by fastforce
    qed
    then show ?thesis using True by (intro disjI1) simp
  next
    case (Some p)
    obtain len n where p: "p = (len, n)" by (cases p)
    have "n \<le> 8" "0 < n" using get_varint_len [of "drop pos buf" len n] Some p by auto
    then show ?thesis using assms True Some p
      by (auto simp: counted_at_def word_le_nat_alt not_less split: if_splits
        intro!: exI [of _ "pos + (n + unat len)"])
  qed
qed simp

lemma counted_at_Done:
  assumes "counted_at limit buf pos k = Done ok c"
  shows "\<exists>pos'. pos < pos' \<and> pos' \<le> pos + 8 + unat limit \<and> pos' \<le> length buf \<and> k pos' = Done ok c"
proof -
  obtain len n where g: "pos \<le> length buf" "get_varint (drop pos buf) = Some (len, n)"
    and *: "\<not> len > limit" "\<not> length buf < pos + (n + unat len)" "k (pos + (n + unat len)) = Done ok c"
    using assms by (auto simp: counted_at_def split: option.splits if_splits)
  have "n \<le> 8" "0 < n" using get_varint_len [OF g(2)] by auto
  then show ?thesis using *
    by (intro exI [of _ "pos + (n + unat len)"]) (auto simp: word_le_nat_alt not_less)
qed

text \<open>More input never changes an answer that was not \<open>NeedMore\<close>.\<close>

lemma counted_at_more:
  assumes "counted_at limit buf pos k \<noteq> NeedMore"
    and "\<And>pos. pos \<le> length buf \<Longrightarrow> k pos \<noteq> NeedMore \<Longrightarrow> k' pos = k pos"
  shows "counted_at limit (buf @ rest) pos k' = counted_at limit buf pos k"
proof -
  obtain len n where g: "pos \<le> length buf" "get_varint (drop pos buf) = Some (len, n)"
    using assms(1) by (auto simp: counted_at_def split: option.splits if_splits)
  then have "get_varint (drop pos (buf @ rest)) = Some (len, n)"
    by (simp add: get_varint_more)
  then show ?thesis using g assms by (auto simp: counted_at_def)
qed

lemma parse_tcp_response_more:
  assumes "parse_tcp_response buf \<noteq> NeedMore"
  shows "parse_tcp_response (buf @ rest) = parse_tcp_response buf"
proof -
  have ne: "buf \<noteq> []" using assms by (auto simp: parse_tcp_response_eq)
  then have st: "(buf @ rest) ! 0 = buf ! 0" by (simp add: nth_append)
  show ?thesis
    using assms ne unfolding parse_tcp_response_eq
    by (simp add: st, intro counted_at_more) auto
qed

lemma parse_tcp_response_NeedMore_bound:
  assumes "parse_tcp_response buf = NeedMore"
  shows "length buf < 6161"
proof (cases "buf = []")
  case False
  with assms have "counted_at MAX_MESSAGE_LENGTH buf 1 (\<lambda>pos.
      counted_at MAX_PADDING_LENGTH buf pos (Done (buf ! 0 = 0))) = NeedMore"
    by (simp add: parse_tcp_response_eq)
  from counted_at_NeedMore [OF this] show ?thesis
    using counted_at_NeedMore [of MAX_PADDING_LENGTH buf _ "Done (buf ! 0 = 0)"]
    by fastforce
qed simp

lemma parse_tcp_response_Done_bound:
  assumes "parse_tcp_response buf = Done ok consumed"
  shows "3 \<le> consumed \<and> consumed \<le> length buf \<and> consumed \<le> 6161 \<and> (ok \<longleftrightarrow> hd buf = 0)"
proof -
  have ne: "buf \<noteq> []" using assms by (auto simp: parse_tcp_response_eq)
  with assms have "counted_at MAX_MESSAGE_LENGTH buf 1 (\<lambda>pos.
      counted_at MAX_PADDING_LENGTH buf pos (Done (buf ! 0 = 0))) = Done ok consumed"
    by (simp add: parse_tcp_response_eq)
  from counted_at_Done [OF this] show ?thesis
    using counted_at_Done [of MAX_PADDING_LENGTH buf _ "Done (buf ! 0 = 0)" ok consumed] ne
    by (fastforce simp: hd_conv_nth)
qed

text \<open>One counted field of the documented layout, under its guard and over it.\<close>

lemma counted_at_wire:
  assumes "length xs < 2 ^ 32" and "buf = pre @ put_varint [] (of_nat (length xs)) @ xs @ rest"
  shows "counted_at limit buf (length pre) k =
    (if length xs > unat limit then Invalid
     else k (length pre + varint_len (of_nat (length xs)) + length xs))"
  using assms vi.counted_length [OF assms(1), of rest]
  by (simp add: counted_at_def word_less_nat_alt vi.unat_len ac_simps)

lemma parse_tcp_response_wire:
  assumes "length msg < 2 ^ 32" and "length pad < 2 ^ 32"
  shows "parse_tcp_response (tcp_response_wire status msg pad @ rest) =
    (if 2048 < length msg \<or> 4096 < length pad then Invalid
     else Done (status = 0) (length (tcp_response_wire status msg pad)))"
proof -
  let ?m = "put_varint [] (of_nat (length msg))" and ?p = "put_varint [] (of_nat (length pad))"
  let ?buf = "tcp_response_wire status msg pad @ rest"
  have m: "counted_at MAX_MESSAGE_LENGTH ?buf 1 k =
      (if length msg > 2048 then Invalid
       else k (length (status # ?m @ msg)))" for k
    using counted_at_wire [OF assms(1), of ?buf "[status]" "?p @ pad @ rest" MAX_MESSAGE_LENGTH k]
    by (simp add: tcp_response_wire_def add.commute)
  have p: "counted_at MAX_PADDING_LENGTH ?buf (length (status # ?m @ msg)) k =
      (if length pad > 4096 then Invalid
       else k (length (tcp_response_wire status msg pad)))" for k
    using counted_at_wire [OF assms(2), of ?buf "status # ?m @ msg" rest MAX_PADDING_LENGTH k]
    by (simp add: tcp_response_wire_def ac_simps)
  have ne: "?buf \<noteq> []" and hd0: "?buf ! 0 = status" by (simp_all add: tcp_response_wire_def)
  show ?thesis
    unfolding parse_tcp_response_eq using ne by (simp only: if_False hd0 m p) simp
qed

section \<open>Properties\<close>

text \<open>
  A TCP request is the documented frame: a reader of the layout recovers the frame type
  \<open>0x401\<close>, the address byte for byte, and an alphanumeric padding of 64 to 511 bytes, and what
  follows the frame on the stream is untouched. The encoder does not panic.
\<close>

theorem tcp_request_wire_format:
  assumes "rng_ok rng" and "length address < 2 ^ 32"
  shows "\<exists>frame pad. encode_tcp_request rng address = Some frame \<and>
     (\<forall>rest. read_tcp_request (frame @ rest) = Some (0x401, address, pad, rest)) \<and>
     64 \<le> length pad \<and> length pad < 512 \<and> set pad \<subseteq> set PADDING_CHARS"
proof -
  obtain pad where pad: "tcp_request_padding rng = Some pad" "set pad \<subseteq> set PADDING_CHARS"
      "64 \<le> length pad" "length pad < 512"
    using random_padding_range [OF assms(1), of 64 512] by (auto simp: tcp_request_padding_def)
  let ?frame = "put_varint [] 0x401 @ put_varint [] (of_nat (length address)) @ address @
    put_varint [] (of_nat (length pad)) @ pad"
  have "encode_tcp_request rng address = Some ?frame"
    by (simp add: encode_tcp_request_def pad(1) FRAME_TYPE_TCP_REQUEST_def
        put_varint_append [of "put_varint _ _"] put_varint_append [of "_ @ _"])
  moreover have "read_tcp_request (?frame @ rest) = Some (0x401, address, pad, rest)" for rest
    using read_tcp_request_wire [of "0x401" address pad rest] assms(2) pad(4)
    by (simp add: varint_ok_def)
  ultimately show ?thesis using pad by blast
qed

theorem tcp_request_wire_format_witness:
  "rng_ok (\<lambda>i m. i mod m) \<and> (\<exists>frame pad.
     encode_tcp_request (\<lambda>i m. i mod m) (map of_char ''a.b:80'') = Some frame \<and>
     read_tcp_request (frame @ [7]) = Some (0x401, map of_char ''a.b:80'', pad, [7]))"
proof -
  have "rng_ok (\<lambda>i m. i mod m)" by (simp add: rng_ok_def)
  moreover have "length (map of_char ''a.b:80'' :: bytes) < 2 ^ 32" by simp
  ultimately show ?thesis using tcp_request_wire_format [of "\<lambda>i m. i mod m" "map of_char ''a.b:80''"] by blast
qed

text \<open>
  C7. The response parser is incremental and exact: fed any prefix of a response in the
  documented layout (and whatever follows it), it asks for more until the last byte of the
  padding is there and from then on reports the status and exactly the header's length.
  A message or padding length over its guard is refused.
\<close>

theorem tcp_response_incremental:
  fixes status :: u8 and msg pad :: bytes
  assumes "length msg < 2 ^ 32" and "length pad < 2 ^ 32"
  defines "w \<equiv> tcp_response_wire status msg pad"
  shows "(length msg \<le> 2048 \<and> length pad \<le> 4096 \<longrightarrow>
      parse_tcp_response (take k (w @ rest)) =
        (if k < length w then NeedMore else Done (status = 0) (length w))) \<and>
    (2048 < length msg \<or> 4096 < length pad \<longrightarrow> parse_tcp_response (w @ rest) = Invalid)"
proof (intro conjI impI)
  assume small: "length msg \<le> 2048 \<and> length pad \<le> 4096"
  then have full: "parse_tcp_response (w @ r) = Done (status = 0) (length w)" for r
    using parse_tcp_response_wire [OF assms(1,2), of status] by (simp add: w_def)
  show "parse_tcp_response (take k (w @ rest)) =
      (if k < length w then NeedMore else Done (status = 0) (length w))"
  proof (cases "k < length w")
    case False
    then have "take k (w @ rest) = w @ take (k - length w) rest" by simp
    with False full show ?thesis by simp
  next
    case True
    have "parse_tcp_response (take k w) = NeedMore"
    proof (rule ccontr)
      assume nm: "parse_tcp_response (take k w) \<noteq> NeedMore"
      have "parse_tcp_response (take k w @ drop k w) = Done (status = 0) (length w)"
        using full [of "[]"] by simp
      then have "parse_tcp_response (take k w) = Done (status = 0) (length w)"
        using parse_tcp_response_more [OF nm] by metis
      then show False using parse_tcp_response_Done_bound [of "take k w"] True by fastforce
    qed
    with True show ?thesis by simp
  qed
next
  assume "2048 < length msg \<or> 4096 < length pad"
  then show "parse_tcp_response (w @ rest) = Invalid"
    using parse_tcp_response_wire [OF assms(1,2), of status] by (auto simp: w_def)
qed

theorem tcp_response_incremental_witness:
  "length [79, 75 :: u8] < 2 ^ 32 \<and> parse_tcp_response [0, 2, 79] = NeedMore \<and>
   parse_tcp_response [0, 2, 79, 75, 1, 120, 255] = Done True 6"
proof -
  have w: "tcp_response_wire 0 [79, 75] [120] = [0, 2, 79, 75, 1, 120]" by code_simp
  have "parse_tcp_response (take k (tcp_response_wire 0 [79, 75] [120] @ [255])) =
      (if k < 6 then NeedMore else Done True 6)" for k
    using tcp_response_incremental [of "[79, 75]" "[120]" k 0 "[255]"] by (simp add: w)
  from this [of 3] this [of 7] show ?thesis by (simp add: w)
qed

text \<open>
  The guards bound what a server can make the client buffer: whenever the parser asks for
  more it has seen fewer than 6161 bytes (status, two 8-byte lengths, 2048 and 4096 bytes), and
  a verdict it gives is never revised by later bytes.
\<close>

theorem tcp_response_bounded:
  "(parse_tcp_response buf = NeedMore \<longrightarrow> length buf < 6161) \<and>
   (parse_tcp_response buf \<noteq> NeedMore \<longrightarrow>
      parse_tcp_response (buf @ rest) = parse_tcp_response buf) \<and>
   (parse_tcp_response buf = Done ok consumed \<longrightarrow>
      3 \<le> consumed \<and> consumed \<le> length buf \<and> consumed \<le> 6161 \<and> (ok \<longleftrightarrow> hd buf = 0))"
  using parse_tcp_response_NeedMore_bound parse_tcp_response_more parse_tcp_response_Done_bound
  by blast

theorem tcp_response_bounded_witness:
  "parse_tcp_response [1, 0, 0] = Done False 3 \<and> parse_tcp_response ([1, 0, 0] @ [9, 9]) = Done False 3
   \<and> parse_tcp_response [1] = NeedMore \<and> length [1 :: u8] < 6161"
proof -
  have d: "parse_tcp_response [1, 0, 0] = Done False 3" "parse_tcp_response [1] = NeedMore" by code_simp+
  show ?thesis
    using tcp_response_bounded [of "[1, 0, 0]" "[9, 9]"] tcp_response_bounded [of "[1]"] d by simp
qed

end
