(* ===== verification/Rs_Str.thy ===== *)
theory Rs_Str
  imports Rs_Prelude
begin

text \<open>
  What the sources use of Rust's \<open>str\<close> and integer parsing. A string is its UTF-8 bytes, and
  \<open>utf8_chars\<close> reads them as Unicode scalar values (it is \<open>None\<close> on bytes that are not
  well-formed UTF-8, which \<open>String::from_utf8\<close> refuses). Splitting works on bytes, because
  every separator of the sources is ASCII; trimming and filtering work on characters; slicing
  panics off a character boundary.
\<close>

section \<open>UTF-8\<close>

definition is_scalar :: "nat \<Rightarrow> bool" where
  "is_scalar c \<longleftrightarrow> c < 0xD800 \<or> 0xE000 \<le> c \<and> c < 0x110000"

definition byte :: "nat \<Rightarrow> u8" where
  "byte n = of_nat n"

definition char_utf8 :: "nat \<Rightarrow> bytes" where
  "char_utf8 c =
     (if c < 0x80 then [byte c]
      else if c < 0x800 then [byte (0xC0 + c div 64), byte (0x80 + c mod 64)]
      else if c < 0x10000 then
        [byte (0xE0 + c div 4096), byte (0x80 + c div 64 mod 64), byte (0x80 + c mod 64)]
      else
        [byte (0xF0 + c div 262144), byte (0x80 + c div 4096 mod 64),
         byte (0x80 + c div 64 mod 64), byte (0x80 + c mod 64)])"

definition utf8_encode :: "nat list \<Rightarrow> bytes" where
  "utf8_encode cs = concat (map char_utf8 cs)"

definition is_cont :: "u8 \<Rightarrow> bool" where
  "is_cont b \<longleftrightarrow> 0x80 \<le> unat b \<and> unat b < 0xC0"

text \<open>\<open>(ch << 6) | (byte & 0x3f)\<close> for a continuation byte.\<close>

definition acc_cont :: "nat \<Rightarrow> u8 \<Rightarrow> nat" where
  "acc_cont ch b = ch * 64 + (unat b - 0x80)"

text \<open>The first character and the number of bytes it takes.\<close>

definition decode_char :: "bytes \<Rightarrow> (nat \<times> nat) option" where
  "decode_char bs =
     (case bs of
        [] \<Rightarrow> None
      | b0 # r \<Rightarrow>
         (if unat b0 < 0x80 then Some (unat b0, 1)
          else if unat b0 < 0xC0 then None
          else if unat b0 < 0xE0 then
            (case r of
               b1 # _ \<Rightarrow>
                 let c = acc_cont (unat b0 - 0xC0) b1
                 in if is_cont b1 \<and> 0x80 \<le> c then Some (c, 2) else None
             | _ \<Rightarrow> None)
          else if unat b0 < 0xF0 then
            (case r of
               b1 # b2 # _ \<Rightarrow>
                 let c = acc_cont (acc_cont (unat b0 - 0xE0) b1) b2
                 in if is_cont b1 \<and> is_cont b2 \<and> 0x800 \<le> c \<and> is_scalar c then Some (c, 3) else None
             | _ \<Rightarrow> None)
          else if unat b0 < 0xF8 then
            (case r of
               b1 # b2 # b3 # _ \<Rightarrow>
                 let c = acc_cont (acc_cont (acc_cont (unat b0 - 0xF0) b1) b2) b3
                 in if is_cont b1 \<and> is_cont b2 \<and> is_cont b3 \<and> 0x10000 \<le> c \<and> is_scalar c
                    then Some (c, 4) else None
             | _ \<Rightarrow> None)
          else None))"

lemma decode_char_width: "decode_char bs = Some (c, n) \<Longrightarrow> 0 < n \<and> n \<le> length bs"
  by (auto simp: decode_char_def Let_def split: list.splits if_splits)

function utf8_chars :: "bytes \<Rightarrow> nat list option" where
  "utf8_chars bs =
     (if bs = [] then Some []
      else case decode_char bs of
             None \<Rightarrow> None
           | Some (c, n) \<Rightarrow> map_option (Cons c) (utf8_chars (drop n bs)))"
  by pat_completeness auto
termination
  by (relation "measure length") (auto dest: decode_char_width)

declare utf8_chars.simps [simp del]

definition utf8_valid :: "bytes \<Rightarrow> bool" where
  "utf8_valid bs \<longleftrightarrow> utf8_chars bs \<noteq> None"

definition from_utf8 :: "bytes \<Rightarrow> bytes option" where
  "from_utf8 bs = (if utf8_valid bs then Some bs else None)"

definition chars :: "bytes \<Rightarrow> nat list" where
  "chars s = (case utf8_chars s of None \<Rightarrow> [] | Some cs \<Rightarrow> cs)"

abbreviation str :: "string \<Rightarrow> bytes" where
  "str s \<equiv> map of_char s"

section \<open>Characters, splitting, slicing\<close>

definition is_whitespace :: "nat \<Rightarrow> bool" where
  "is_whitespace c \<longleftrightarrow> 9 \<le> c \<and> c \<le> 13 \<or> c = 0x20 \<or> c = 0x85 \<or> c = 0xA0 \<or> c = 0x1680
     \<or> 0x2000 \<le> c \<and> c \<le> 0x200A \<or> c = 0x2028 \<or> c = 0x2029 \<or> c = 0x202F \<or> c = 0x205F \<or> c = 0x3000"

definition trim :: "bytes \<Rightarrow> bytes" where
  "trim s = utf8_encode (rev (dropWhile is_whitespace (rev (dropWhile is_whitespace (chars s)))))"

fun split_on :: "u8 \<Rightarrow> bytes \<Rightarrow> bytes list" where
  "split_on sep [] = [[]]"
| "split_on sep (b # bs) =
     (if b = sep then [] # split_on sep bs
      else case split_on sep bs of [] \<Rightarrow> [[b]] | p # ps \<Rightarrow> (b # p) # ps)"

fun split_once :: "u8 \<Rightarrow> bytes \<Rightarrow> (bytes \<times> bytes) option" where
  "split_once sep [] = None"
| "split_once sep (b # bs) =
     (if b = sep then Some ([], bs)
      else map_option (\<lambda>(p, q). (b # p, q)) (split_once sep bs))"

definition rsplit_once :: "u8 \<Rightarrow> bytes \<Rightarrow> (bytes \<times> bytes) option" where
  "rsplit_once sep s = map_option (\<lambda>(p, q). (rev q, rev p)) (split_once sep (rev s))"

definition is_char_boundary :: "bytes \<Rightarrow> nat \<Rightarrow> bool" where
  "is_char_boundary s i \<longleftrightarrow> i = 0 \<or> i = length s \<or> i < length s \<and> \<not> is_cont (s ! i)"

definition str_slice :: "bytes \<Rightarrow> nat \<Rightarrow> nat \<Rightarrow> bytes run" where
  "str_slice s i j =
     (if i \<le> j \<and> is_char_boundary s i \<and> is_char_boundary s j then subslice s i j else None)"

section \<open>Integers from and to strings\<close>

definition to_digit :: "nat \<Rightarrow> u8 \<Rightarrow> nat option" where
  "to_digit radix b =
     (let d = (if 48 \<le> b \<and> b \<le> 57 then Some (unat b - 48)
               else if 97 \<le> b \<and> b \<le> 122 then Some (unat b - 87)
               else if 65 \<le> b \<and> b \<le> 90 then Some (unat b - 55) else None)
      in case d of None \<Rightarrow> None | Some d \<Rightarrow> if d < radix then Some d else None)"

fun parse_digits :: "nat \<Rightarrow> nat \<Rightarrow> nat \<Rightarrow> bytes \<Rightarrow> nat option" where
  "parse_digits radix bound acc [] = Some acc"
| "parse_digits radix bound acc (b # bs) =
     (case to_digit radix b of
        None \<Rightarrow> None
      | Some d \<Rightarrow>
          if acc * radix + d < bound then parse_digits radix bound (acc * radix + d) bs else None)"

text \<open>
  \<open>uN::from_str_radix\<close> for a type with \<open>bound\<close> values: empty input and a lone sign are
  errors, one leading \<open>+\<close> is skipped, a value that does not fit is an error.
\<close>

definition from_str_radix :: "nat \<Rightarrow> nat \<Rightarrow> bytes \<Rightarrow> nat option" where
  "from_str_radix radix bound s =
     (case s of
        [] \<Rightarrow> None
      | b # r \<Rightarrow>
          if b = 43 \<and> r \<noteq> [] then parse_digits radix bound 0 r
          else if (b = 43 \<or> b = 45) \<and> r = [] then None
          else parse_digits radix bound 0 s)"

definition parse_u16 :: "bytes \<Rightarrow> u16 option" where
  "parse_u16 s = map_option of_nat (from_str_radix 10 (2 ^ 16) s)"

definition parse_u64 :: "bytes \<Rightarrow> u64 option" where
  "parse_u64 s = map_option of_nat (from_str_radix 10 (2 ^ 64) s)"

fun dec_string :: "nat \<Rightarrow> bytes" where
  "dec_string n = (if n < 10 then [byte (48 + n)] else dec_string (n div 10) @ [byte (48 + n mod 10)])"

declare dec_string.simps [simp del]

section \<open>UTF-8 decoding inverts encoding\<close>

lemma unat_byte [simp]: "n < 256 \<Longrightarrow> unat (byte n) = n"
  by (simp add: byte_def unsigned_of_nat take_bit_nat_eq_self)

lemma byte_unat [simp]: "byte (unat b) = b"
  by (simp add: byte_def)

lemma unat_lt_256 [simp]: "unat (b :: u8) < 256"
  using unsigned_less [of b] by simp

lemma unat_le_255: "unat (b :: u8) \<le> 255"
  using unat_lt_256 [of b] by linarith

lemma base64:
  fixes c :: nat
  shows "c div 4096 = c div 64 div 64" and "c div 262144 = c div 64 div 64 div 64"
  by (simp_all flip: div_mult2_eq)

lemma acc_cont_enc [simp]:
  "is_cont (byte (0x80 + c mod 64))" "acc_cont (c div 64) (byte (0x80 + c mod 64)) = c"
  by (simp_all add: is_cont_def acc_cont_def)

lemma acc_cont_dec [simp]:
  assumes "is_cont b"
  shows "acc_cont p b div 64 = p" and "byte (0x80 + acc_cont p b mod 64) = b"
proof -
  have b: "0x80 \<le> unat b" "unat b - 0x80 < 64" using assms by (auto simp: is_cont_def)
  then have d: "acc_cont p b mod 64 = unat b - 0x80"
    unfolding acc_cont_def by (metis mod_less mod_mult_self3)
  show "acc_cont p b div 64 = p"
    using b unfolding acc_cont_def by (metis add.right_neutral div_less div_mult_self3 zero_neq_numeral)
  show "byte (0x80 + acc_cont p b mod 64) = b" using b by (simp add: d)
qed

lemma acc_cont_less: "is_cont b \<Longrightarrow> p < k \<Longrightarrow> acc_cont p b < k * 64"
  by (auto simp: is_cont_def acc_cont_def)

lemma decode_char_utf8:
  assumes "is_scalar c"
  shows "decode_char (char_utf8 c @ rest) = Some (c, length (char_utf8 c))"
proof -
  have "c < 0x110000" using assms by (auto simp: is_scalar_def)
  consider "c < 0x80" | "\<not> c < 0x80" "c < 0x800" | "\<not> c < 0x800" "c < 0x10000" | "\<not> c < 0x10000"
    by linarith
  then show ?thesis
  proof cases
    case 1
    then show ?thesis by (simp add: char_utf8_def decode_char_def Let_def)
  next
    case 2
    then have "c div 64 < 32" by auto
    with 2 show ?thesis by (simp add: char_utf8_def decode_char_def Let_def)
  next
    case 3
    then have "c div 64 div 64 < 16" by auto
    with 3 assms show ?thesis by (simp add: char_utf8_def decode_char_def base64 Let_def)
  next
    case 4
    then have "c div 64 div 64 div 64 < 8" using \<open>c < 0x110000\<close> by auto
    with 4 assms show ?thesis by (simp add: char_utf8_def decode_char_def base64 Let_def)
  qed
qed

lemma utf8_chars_Nil [simp]: "utf8_chars [] = Some []"
  by (simp add: utf8_chars.simps)

lemma char_utf8_nonempty: "char_utf8 c \<noteq> []"
  by (simp add: char_utf8_def)

lemma utf8_chars_Cons:
  "is_scalar c \<Longrightarrow> utf8_chars (char_utf8 c @ rest) = map_option (Cons c) (utf8_chars rest)"
  by (simp add: utf8_chars.simps [of "char_utf8 c @ rest"] decode_char_utf8 char_utf8_nonempty)

lemma utf8_chars_encode: "list_all is_scalar cs \<Longrightarrow> utf8_chars (utf8_encode cs) = Some cs"
  by (induction cs) (auto simp: utf8_encode_def utf8_chars_Cons)

lemma decode_char_sound:
  assumes "decode_char bs = Some (c, n)"
  shows "is_scalar c \<and> char_utf8 c = take n bs"
proof -
  obtain b0 r where bs: "bs = b0 # r"
    using assms by (cases bs) (auto simp: decode_char_def)
  consider "unat b0 < 0x80" | "0xC0 \<le> unat b0" "unat b0 < 0xE0" | "0xE0 \<le> unat b0" "unat b0 < 0xF0"
    | "0xF0 \<le> unat b0" "unat b0 < 0xF8"
    using assms bs by (auto simp: decode_char_def split: if_splits)
  then show ?thesis
  proof cases
    case 1
    then show ?thesis using assms bs by (auto simp: decode_char_def char_utf8_def is_scalar_def)
  next
    case 2
    then obtain b1 r' where r: "r = b1 # r'" and c: "c = acc_cont (unat b0 - 0xC0) b1"
      "is_cont b1" "0x80 \<le> c" "n = 2"
      using assms bs by (auto simp: decode_char_def Let_def split: list.splits if_splits)
    have "c < 32 * 64" unfolding c(1) using 2 c by (intro acc_cont_less) auto
    then show ?thesis using 2 c bs r by (simp add: char_utf8_def is_scalar_def)
  next
    case 3
    then obtain b1 b2 r' where r: "r = b1 # b2 # r'"
      and c: "c = acc_cont (acc_cont (unat b0 - 0xE0) b1) b2"
      "is_cont b1" "is_cont b2" "0x800 \<le> c" "is_scalar c" "n = 3"
      using assms bs by (auto simp: decode_char_def Let_def split: list.splits if_splits)
    have "c < 16 * 64 * 64" unfolding c(1) using 3 c by (intro acc_cont_less) auto
    then show ?thesis using 3 c bs r by (simp add: char_utf8_def base64)
  next
    case 4
    then obtain b1 b2 b3 r' where r: "r = b1 # b2 # b3 # r'"
      and c: "c = acc_cont (acc_cont (acc_cont (unat b0 - 0xF0) b1) b2) b3"
      "is_cont b1" "is_cont b2" "is_cont b3" "0x10000 \<le> c" "is_scalar c" "n = 4"
      using assms bs by (auto simp: decode_char_def Let_def split: list.splits if_splits)
    then show ?thesis using 4 bs r by (simp add: char_utf8_def base64)
  qed
qed

lemma utf8_chars_sound:
  "utf8_chars bs = Some cs \<Longrightarrow> list_all is_scalar cs \<and> utf8_encode cs = bs"
proof (induction bs arbitrary: cs rule: utf8_chars.induct)
  case (1 bs)
  show ?case
  proof (cases "bs = []")
    case True
    with 1 show ?thesis by (simp add: utf8_encode_def)
  next
    case False
    then obtain c n cs' where d: "decode_char bs = Some (c, n)" "utf8_chars (drop n bs) = Some cs'"
      "cs = c # cs'"
      using 1 by (auto simp: utf8_chars.simps [of bs] split: option.splits)
    then have "list_all is_scalar cs' \<and> utf8_encode cs' = drop n bs" using 1 False by blast
    then show ?thesis using d(3) decode_char_sound [OF d(1)]
      by (simp add: utf8_encode_def)
  qed
qed

lemma utf8_chars_ascii: "list_all (\<lambda>b. unat b < 128) bs \<Longrightarrow> utf8_chars bs = Some (map unat bs)"
proof (induction bs)
  case (Cons b bs)
  then show ?case by (subst utf8_chars.simps) (simp add: decode_char_def)
qed simp

lemma utf8_valid_ascii: "list_all (\<lambda>b. unat b < 128) bs \<Longrightarrow> utf8_valid bs"
  by (simp add: utf8_valid_def utf8_chars_ascii)

lemma utf8_valid_encode: "list_all is_scalar cs \<Longrightarrow> utf8_valid (utf8_encode cs)"
  by (simp add: utf8_valid_def utf8_chars_encode)

lemma chars_encode [simp]: "list_all is_scalar cs \<Longrightarrow> chars (utf8_encode cs) = cs"
  by (simp add: chars_def utf8_chars_encode)

lemma encode_chars [simp]: "utf8_valid s \<Longrightarrow> utf8_encode (chars s) = s"
  using utf8_chars_sound by (auto simp: utf8_valid_def chars_def)

lemma chars_scalar: "list_all is_scalar (chars s)"
  using utf8_chars_sound [of s] by (auto simp: chars_def split: option.splits)

lemma chars_ascii: "list_all (\<lambda>b. unat b < 128) s \<Longrightarrow> chars s = map unat s"
  by (simp add: chars_def utf8_chars_ascii)

section \<open>Splitting and decimal numbers\<close>

lemma split_once_notin [simp]: "sep \<notin> set s \<Longrightarrow> split_once sep s = None"
  by (induction s) auto

lemma split_once_append [simp]: "sep \<notin> set a \<Longrightarrow> split_once sep (a @ sep # b) = Some (a, b)"
  by (induction a) auto

lemma rsplit_once_append [simp]: "sep \<notin> set b \<Longrightarrow> rsplit_once sep (a @ sep # b) = Some (a, b)"
  by (simp add: rsplit_once_def)

lemma rsplit_once_notin [simp]: "sep \<notin> set s \<Longrightarrow> rsplit_once sep s = None"
  by (simp add: rsplit_once_def)

lemma split_on_notin [simp]: "sep \<notin> set s \<Longrightarrow> split_on sep s = [s]"
  by (induction s) auto

lemma split_on_append [simp]: "sep \<notin> set a \<Longrightarrow> split_on sep (a @ sep # b) = a # split_on sep b"
  by (induction a) auto

lemma split_on_nonempty [simp]: "split_on sep s \<noteq> []"
  by (induction s) (auto split: list.splits)

lemma trim_ascii:
  assumes "list_all (\<lambda>b. unat b < 128 \<and> \<not> is_whitespace (unat b)) s"
  shows "trim s = s"
proof -
  have a: "list_all (\<lambda>b. unat b < 128) s" using assms by (auto simp: list_all_iff)
  have d: "dropWhile is_whitespace xs = xs" if "\<forall>c\<in>set xs. \<not> is_whitespace c" for xs
    using that by (cases xs) auto
  have "\<forall>c\<in>set (chars s). \<not> is_whitespace c" using assms a by (auto simp: chars_ascii list_all_iff)
  then have "trim s = utf8_encode (chars s)" using d [of "rev (chars s)"] d [of "chars s"] by (simp add: trim_def)
  then show ?thesis using utf8_valid_ascii [OF a] by simp
qed

definition is_digit :: "u8 \<Rightarrow> bool" where
  "is_digit b \<longleftrightarrow> 48 \<le> unat b \<and> unat b \<le> 57"

lemma dec_string_digits: "b \<in> set (dec_string n) \<Longrightarrow> is_digit b"
proof (induction n arbitrary: b rule: dec_string.induct)
  case (1 n)
  then show ?case by (subst (asm) (2) dec_string.simps) (auto simp: is_digit_def split: if_splits)
qed

lemma dec_string_nonempty [simp]: "dec_string n \<noteq> []"
  by (subst dec_string.simps) simp

lemma digit_byte [simp]: "\<not> is_digit 43" "\<not> is_digit 44" "\<not> is_digit 45" "\<not> is_digit 42" "\<not> is_digit 97"
  by (simp_all add: is_digit_def)

lemma trim_dec [simp]: "trim (dec_string n) = dec_string n"
  by (rule trim_ascii) (auto simp: list_all_iff is_digit_def is_whitespace_def dest!: dec_string_digits)

lemma parse_digits_append:
  "parse_digits r k acc (xs @ ys) = Option.bind (parse_digits r k acc xs) (\<lambda>a. parse_digits r k a ys)"
  by (induction xs arbitrary: acc) (auto split: option.splits)

lemma to_digit_dec [simp]: "d < 10 \<Longrightarrow> to_digit 10 (byte (48 + d)) = Some d"
  by (simp add: to_digit_def word_le_nat_alt)

lemma parse_digits_dec: "n < k \<Longrightarrow> parse_digits 10 k 0 (dec_string n) = Some n"
proof (induction n rule: dec_string.induct)
  case (1 n)
  show ?case
  proof (cases "n < 10")
    case True
    then show ?thesis using 1(2) by (subst dec_string.simps) simp
  next
    case False
    then have "parse_digits 10 k 0 (dec_string (n div 10)) = Some (n div 10)" using 1 by simp
    then show ?thesis using False 1(2)
      by (subst dec_string.simps) (simp add: parse_digits_append)
  qed
qed

lemma from_str_radix_dec: "n < k \<Longrightarrow> from_str_radix 10 k (dec_string n) = Some n"
proof -
  assume n: "n < k"
  obtain b r where s: "dec_string n = b # r" using dec_string_nonempty [of n] by (cases "dec_string n") auto
  then have "is_digit b" using dec_string_digits [of b n] by simp
  then have "b \<noteq> 43" "b \<noteq> 45" by auto
  then show ?thesis using s parse_digits_dec [OF n] by (simp add: from_str_radix_def)
qed

lemma parse_u16_dec [simp]: "parse_u16 (dec_string (unat w)) = Some w"
  using unsigned_less [of w, where 'a = nat] from_str_radix_dec [of "unat w" "2 ^ 16"] by (simp add: parse_u16_def)

lemma parse_u64_dec [simp]: "parse_u64 (dec_string (unat w)) = Some w"
  using unsigned_less [of w, where 'a = nat] from_str_radix_dec [of "unat w" "2 ^ 64"] by (simp add: parse_u64_def)

end
