(* ===== verification/Udp_Message.thy ===== *)
theory Udp_Message
  imports Tcp_Frame Rs_Str
begin

text \<open>
  The relayed UDP datagram of \<^verbatim>\<open>src/src/protocol.rs\<close>: the message record, its size,
  its serialisation into a caller's buffer and its parser. \<open>udp_wire\<close> is the layout the source
  documents; \<open>serialize\<close> refines it, and \<open>parse\<close> inverts it on exactly the messages it accepts.
\<close>

section \<open>Definitions\<close>

record udp_message =
  session_id :: u32
  packet_id :: u16
  frag_id :: u8
  frag_count :: u8
  addr :: bytes
  data :: bytes

definition header_size :: "udp_message \<Rightarrow> nat" where
  "header_size m = 4 + 2 + 1 + 1 + varint_len (of_nat (length (addr m))) + length (addr m)"

definition msg_size :: "udp_message \<Rightarrow> nat" where
  "msg_size m = header_size m + length (data m)"

definition serialize :: "udp_message \<Rightarrow> bytes \<Rightarrow> (bytes \<times> nat option) run" where
  "serialize m buf =
     (let total = msg_size m in
      if length buf < total then Some (buf, None)
      else do {
        buf \<leftarrow> write_at buf 0 (u32_to_be_bytes (session_id m));
        buf \<leftarrow> write_at buf 4 (u16_to_be_bytes (packet_id m));
        buf \<leftarrow> write_at buf 6 [frag_id m];
        buf \<leftarrow> write_at buf 7 [frag_count m];
        let i = 8;
        tail \<leftarrow> subslice buf i (length buf);
        (tail, n) \<leftarrow> put_varint_slice tail (of_nat (length (addr m)));
        let buf = take i buf @ tail;
        let i = i + n;
        buf \<leftarrow> write_at buf i (addr m);
        let i = i + length (addr m);
        buf \<leftarrow> write_at buf i (data m);
        let i = i + length (data m);
        Some (buf, Some i) })"

definition parse :: "bytes \<Rightarrow> udp_message option" where
  "parse msg =
     (if length msg < 8 then None
      else do {
        let session_id = from_be 0 [msg ! 0, msg ! 1, msg ! 2, msg ! 3];
        let packet_id = from_be 0 [msg ! 4, msg ! 5];
        let frag_id = msg ! 6;
        let frag_count = msg ! 7;
        (addr_len, n) \<leftarrow> get_varint (drop 8 msg);
        if addr_len = 0 \<or> addr_len > MAX_MESSAGE_LENGTH then None
        else do {
          let addr_start = 8 + n;
          let addr_end = addr_start + unat addr_len;
          if length msg \<le> addr_end then None
          else do {
            a \<leftarrow> from_utf8 (drop addr_start (take addr_end msg));
            let d = drop addr_end msg;
            Some \<lparr>session_id = session_id, packet_id = packet_id, frag_id = frag_id,
                  frag_count = frag_count, addr = a, data = d\<rparr> } } })"

section \<open>The documented layout\<close>

definition udp_header :: "udp_message \<Rightarrow> bytes" where
  "udp_header m = u32_to_be_bytes (session_id m) @ u16_to_be_bytes (packet_id m) @
     [frag_id m, frag_count m]"

definition udp_wire :: "udp_message \<Rightarrow> bytes" where
  "udp_wire m = udp_header m @ put_varint [] (of_nat (length (addr m))) @ addr m @ data m"

text \<open>A Rust \<open>UdpMessage\<close> holds a \<open>String\<close>, whose bytes are valid UTF-8.\<close>

definition wf_msg :: "udp_message \<Rightarrow> bool" where
  "wf_msg m \<longleftrightarrow> utf8_valid (addr m) \<and> length (addr m) < 2 ^ 32"

text \<open>The messages a peer accepts: an address of 1 to 2048 bytes and a payload.\<close>

definition relayable :: "udp_message \<Rightarrow> bool" where
  "relayable m \<longleftrightarrow> 0 < length (addr m) \<and> length (addr m) \<le> 2048 \<and> data m \<noteq> []"

section \<open>Serialisation\<close>

lemma length_u32_be [wire_simps, simp]: "length (u32_to_be_bytes w) = 4"
  by (simp add: u32_to_be_bytes_def)

lemma length_u16_be [wire_simps, simp]: "length (u16_to_be_bytes w) = 2"
  by (simp add: u16_to_be_bytes_def)

lemma length_udp_header [wire_simps, simp]: "length (udp_header m) = 8"
  by (simp add: udp_header_def)

lemma length_udp_wire [wire_simps, simp]: "length (udp_wire m) = msg_size m"
  by (simp add: udp_wire_def msg_size_def header_size_def)

text \<open>The four fixed fields, written one after the other.\<close>

lemma write_header:
  assumes "8 \<le> length buf"
  shows "do {
      buf \<leftarrow> write_at buf 0 (u32_to_be_bytes (session_id m));
      buf \<leftarrow> write_at buf 4 (u16_to_be_bytes (packet_id m));
      buf \<leftarrow> write_at buf 6 [frag_id m];
      buf \<leftarrow> write_at buf 7 [frag_count m];
      f buf } = f (udp_header m @ drop 8 buf)"
proof -
  let ?s = "u32_to_be_bytes (session_id m)" and ?p = "u16_to_be_bytes (packet_id m)"
  have 1: "write_at buf 0 ?s = Some (?s @ drop 4 buf)"
    using assms by simp
  have 2: "write_at (?s @ drop 4 buf) 4 ?p = Some ((?s @ ?p) @ drop 6 buf)"
    using write_at_append [of 4 ?s ?p "drop 4 buf"] assms by simp
  have 3: "write_at ((?s @ ?p) @ drop 6 buf) 6 [frag_id m] = Some ((?s @ ?p @ [frag_id m]) @ drop 7 buf)"
    using write_at_append [of 6 "?s @ ?p" "[frag_id m]" "drop 6 buf"] assms by simp
  have 4: "write_at ((?s @ ?p @ [frag_id m]) @ drop 7 buf) 7 [frag_count m] =
      Some (udp_header m @ drop 8 buf)"
    using write_at_append [of 7 "?s @ ?p @ [frag_id m]" "[frag_count m]" "drop 7 buf"] assms
    by (simp add: udp_header_def)
  show ?thesis by (simp add: 1 2 3 4 del: write_at_Some append_assoc)
qed

lemma serialize_eq:
  "serialize m buf =
     (if length buf < msg_size m then Some (buf, None)
      else Some (udp_wire m @ drop (msg_size m) buf, Some (msg_size m)))"
proof (cases "length buf < msg_size m")
  case True
  then show ?thesis by (simp add: serialize_def)
next
  case False
  let ?v = "of_nat (length (addr m)) :: u64"
  let ?h = "udp_header m" and ?e = "put_varint [] ?v"
  have len: "8 + varint_len ?v + length (addr m) + length (data m) \<le> length buf"
    using False by (simp add: msg_size_def header_size_def)
  have sub: "subslice (?h @ drop 8 buf) 8 (length (?h @ drop 8 buf)) = Some (drop 8 buf)"
    using len by simp
  have pv: "put_varint_slice (drop 8 buf) ?v = Some (?e @ drop (8 + varint_len ?v) buf, varint_len ?v)"
    using len by (simp add: put_varint_slice_eq add.commute)
  have a: "write_at (take 8 (?h @ drop 8 buf) @ ?e @ drop (8 + varint_len ?v) buf)
      (8 + varint_len ?v) (addr m) =
      Some ((?h @ ?e @ addr m) @ drop (8 + varint_len ?v + length (addr m)) buf)"
    using write_at_append [of "8 + varint_len ?v" "?h @ ?e" "addr m" "drop (8 + varint_len ?v) buf"] len
    by (simp add: ac_simps)
  have d: "write_at ((?h @ ?e @ addr m) @ drop (8 + varint_len ?v + length (addr m)) buf)
      (8 + varint_len ?v + length (addr m)) (data m) =
      Some (udp_wire m @ drop (msg_size m) buf)"
    using write_at_append [of "8 + varint_len ?v + length (addr m)" "?h @ ?e @ addr m" "data m"
        "drop (8 + varint_len ?v + length (addr m)) buf"] len
    by (simp add: udp_wire_def msg_size_def header_size_def ac_simps)
  have h: "8 \<le> length buf" using len by simp
  show ?thesis
    using False unfolding serialize_def Let_def
    by (simp only: if_False write_header [OF h] sub pv a d prod.case Option.bind.simps)
       (simp add: msg_size_def header_size_def)
qed

section \<open>Parsing\<close>

text \<open>
  A datagram with the fields of \<open>m\<close>: the length of the address may be written in any of the
  varint's lengths.
\<close>

definition lays_out :: "bytes \<Rightarrow> udp_message \<Rightarrow> bool" where
  "lays_out bs m \<longleftrightarrow> (\<exists>v. bs = udp_header m @ v @ addr m @ data m \<and>
     get_varint v = Some (of_nat (length (addr m)), length v))"

lemma lays_out_wire:
  assumes "length (addr m) < 2 ^ 32"
  shows "lays_out (udp_wire m) m"
proof -
  let ?v = "of_nat (length (addr m)) :: u64"
  have "get_varint (put_varint [] ?v @ addr m @ []) = Some (?v, varint_len ?v)"
    using vi.counted_length [OF assms, of "[]"] by simp
  from get_varint_local [OF this] have "get_varint (put_varint [] ?v) = Some (?v, varint_len ?v)" by simp
  then show ?thesis unfolding lays_out_def udp_wire_def by (intro exI [of _ "put_varint [] ?v"]) simp
qed

lemma parse_layout:
  assumes "wf_msg m" and "lays_out bs m"
  shows "parse bs = (if relayable m then Some m else None)"
proof -
  let ?a = "addr m"
  let ?v = "of_nat (length ?a) :: u64"
  obtain v where bs: "bs = udp_header m @ v @ ?a @ data m" and v: "get_varint v = Some (?v, length v)"
    using assms(2) by (auto simp: lays_out_def)
  have len: "length ?a < 2 ^ 32" and utf: "utf8_valid ?a" using assms(1) by (auto simp: wf_msg_def)
  have sid: "from_be 0 [bs ! 0, bs ! 1, bs ! 2, bs ! 3] = session_id m"
    using u32_be_roundtrip [of "session_id m"] by (simp add: bs udp_header_def u32_to_be_bytes_def nth_append)
  have pid: "from_be 0 [bs ! 4, bs ! 5] = packet_id m"
    using u16_be_roundtrip [of "packet_id m"]
    by (simp add: bs udp_header_def u32_to_be_bytes_def u16_to_be_bytes_def nth_append)
  have fid: "bs ! 6 = frag_id m" "bs ! 7 = frag_count m"
    by (simp_all add: bs udp_header_def u32_to_be_bytes_def u16_to_be_bytes_def nth_append)
  have g: "get_varint (drop 8 bs) = Some (?v, length v)" using get_varint_more [OF v] by (simp add: bs)
  have a: "drop (8 + length v) (take (8 + length v + length ?a) bs) = ?a" by (simp add: bs)
  have d: "drop (8 + length v + length ?a) bs = data m" by (simp add: bs)
  have z: "?v = 0 \<longleftrightarrow> ?a = []" "?v > MAX_MESSAGE_LENGTH \<longleftrightarrow> 2048 < length ?a"
    using vi.unat_len [OF len] by (auto simp: word_less_nat_alt simp flip: unat_eq_zero)
  have l: "length bs = 8 + length v + length ?a + length (data m)" by (simp add: bs)
  show ?thesis
    unfolding parse_def relayable_def Let_def sid pid fid
    by (simp add: g a d z l utf from_utf8_def vi.unat_len [OF len])
qed

lemma parse_wire:
  assumes "wf_msg m"
  shows "parse (udp_wire m) = (if relayable m then Some m else None)"
  using parse_layout [OF assms lays_out_wire] assms by (simp add: wf_msg_def)

lemma parse_sound:
  assumes "parse bs = Some m"
  shows "wf_msg m \<and> relayable m \<and> lays_out bs m"
proof -
  from assms obtain v n where g: "get_varint (drop 8 bs) = Some (v, n)" and l8: "8 \<le> length bs"
    and v: "v \<noteq> 0" "\<not> v > MAX_MESSAGE_LENGTH" and lt: "8 + n + unat v < length bs"
    and h: "session_id m = from_be 0 [bs ! 0, bs ! 1, bs ! 2, bs ! 3]" "packet_id m = from_be 0 [bs ! 4, bs ! 5]"
      "frag_id m = bs ! 6" "frag_count m = bs ! 7"
    and a: "addr m = drop (8 + n) (take (8 + n + unat v) bs)" "utf8_valid (addr m)"
    and d: "data m = drop (8 + n + unat v) bs"
    by (auto simp: parse_def Let_def from_utf8_def not_less not_le split: if_splits Option.bind_splits)
  have v': "0 < unat v" "unat v \<le> 2048" using v by (auto simp: word_less_nat_alt unat_gt_0)
  have la: "length (addr m) = unat v" using lt by (simp add: a(1))
  have "udp_header m = take 8 bs"
    unfolding udp_header_def h u32_be_bytes u16_be_bytes
    by (rule nth_equalityI) (use l8 in \<open>auto simp: less_Suc_eq numeral_eq_Suc\<close>)
  moreover have "bs = take 8 bs @ take n (drop 8 bs) @ addr m @ data m"
  proof -
    have "addr m @ data m = drop (8 + n) bs"
      unfolding a(1) d using append_take_drop_id [of "unat v" "drop (8 + n) bs"] by (simp add: take_drop ac_simps)
    then have "take n (drop 8 bs) @ addr m @ data m = drop 8 bs"
      using append_take_drop_id [of n "drop 8 bs"] by (simp add: add.commute)
    then show ?thesis by simp
  qed
  moreover have "get_varint (take n (drop 8 bs)) = Some (of_nat (length (addr m)), length (take n (drop 8 bs)))"
    using get_varint_local [OF g] get_varint_len(2) [OF g] la by simp
  ultimately have "lays_out bs m" unfolding lays_out_def by metis
  then show ?thesis using la v' lt a(2) d by (auto simp: wf_msg_def relayable_def)
qed

section \<open>Properties\<close>

text \<open>
  C28. Serialising a UDP message never panics; it fails exactly when the buffer is too small,
  leaving the buffer alone, and otherwise writes exactly the documented layout
  \<open>SessionID | PacketID | FragID | FragCount | varint(addr_len) | addr | data\<close> at the front,
  reports its size and leaves the rest of the buffer as it was.
\<close>

theorem serialize_refines_wire:
  "serialize m buf =
     (if length buf < length (udp_wire m) then Some (buf, None)
      else Some (udp_wire m @ drop (length (udp_wire m)) buf, Some (msg_size m)))"
  by (simp add: serialize_eq)

text \<open>
  C13. Parsing the bytes a serialised message occupies gives the message back, field for field,
  exactly when the message has an address of 1 to 2048 bytes and a non-empty payload; every
  other message is rejected by the peer's parser.
\<close>

theorem udp_message_roundtrip:
  assumes "wf_msg m" and "msg_size m \<le> length buf"
  shows "\<exists>buf' n. serialize m buf = Some (buf', Some n) \<and>
     parse (take n buf') = (if relayable m then Some m else None)"
  using assms by (simp add: serialize_eq parse_wire)

theorem udp_message_roundtrip_witness:
  "\<exists>buf' n. serialize \<lparr>session_id = 0xDEADBEEF, packet_id = 7, frag_id = 0, frag_count = 1,
       addr = str ''a:53'', data = [104, 105]\<rparr> (replicate 20 0) = Some (buf', Some n) \<and>
     parse (take n buf') = Some \<lparr>session_id = 0xDEADBEEF, packet_id = 7, frag_id = 0,
       frag_count = 1, addr = str ''a:53'', data = [104, 105]\<rparr>"
proof -
  let ?m = "\<lparr>session_id = 0xDEADBEEF, packet_id = 7, frag_id = 0, frag_count = 1,
       addr = str ''a:53'', data = [104, 105]\<rparr>"
  have "utf8_valid (str ''a:53'')" by (rule utf8_valid_ascii) code_simp
  then have "wf_msg ?m" by (simp add: wf_msg_def)
  moreover have "msg_size ?m \<le> length (replicate 20 (0 :: u8))" by code_simp
  moreover have "relayable ?m" by (simp add: relayable_def)
  ultimately show ?thesis using udp_message_roundtrip [of ?m "replicate 20 0"] by simp
qed

text \<open>
  C29. Exactly which datagrams the parser accepts, and as what. A datagram is accepted as \<open>m\<close> if
  and only if the address of \<open>m\<close> is valid UTF-8 of 1 to 2048 bytes, \<open>m\<close> has a payload, and the
  datagram is the header of \<open>m\<close>, a varint of the address length, the address and the payload, with
  nothing before, between or after. The varint may be any of the encodings of that length, also
  one longer than needed: an accepted datagram need not be the one \<open>serialize\<close> writes.
\<close>

theorem parse_accepts_exactly:
  "parse bs = Some m \<longleftrightarrow> utf8_valid (addr m) \<and> 1 \<le> length (addr m) \<and> length (addr m) \<le> 2048 \<and> data m \<noteq> [] \<and>
     (\<exists>v. bs = udp_header m @ v @ addr m @ data m \<and> get_varint v = Some (of_nat (length (addr m)), length v))"
proof -
  have "parse bs = Some m \<longleftrightarrow> wf_msg m \<and> relayable m \<and> lays_out bs m"
    using parse_sound [of bs m] parse_layout [of m bs] by auto
  then show ?thesis by (auto simp: wf_msg_def relayable_def lays_out_def Suc_le_eq)
qed

end
