(* ===== verification/Step_Machine.thy ===== *)
theory Step_Machine
  imports Main "HOL-Library.Monad_Syntax"
begin

text \<open>
  Components that keep state between calls share one contract: an operation takes the state
  and an input to a new state and an output, or panics (\<open>None\<close>), and keeps an invariant. A run
  applies a sequence of inputs. The locales state the contract; the lemmas on runs are proved
  here once and reach every component through its interpretation.
\<close>

fun run_steps :: "('s \<Rightarrow> 'i \<Rightarrow> ('s \<times> 'o) option) \<Rightarrow> 's \<Rightarrow> 'i list \<Rightarrow> ('s \<times> 'o list) option" where
  "run_steps step s [] = Some (s, [])"
| "run_steps step s (i # is) = do {
     (s, r) \<leftarrow> step s i;
     (s, rs) \<leftarrow> run_steps step s is;
     Some (s, r # rs) }"

lemma run_steps_append:
  "run_steps step s (xs @ ys) = do {
     (s, rs) \<leftarrow> run_steps step s xs;
     (s, ss) \<leftarrow> run_steps step s ys;
     Some (s, rs @ ss) }"
proof (induction xs arbitrary: s)
  case Nil
  show ?case by (cases "run_steps step s ys") auto
next
  case (Cons x xs)
  show ?case by (cases "step s x") (auto simp: Cons.IH split: prod.splits Option.bind_splits)
qed

lemma run_steps_length: "run_steps step s is = Some (s', rs) \<Longrightarrow> length rs = length is"
  by (induction "is" arbitrary: s rs) (auto split: Option.bind_splits)

text \<open>
  An operation that keeps \<open>inv\<close>, and whose outputs satisfy \<open>good\<close> in a state with \<open>inv\<close>. Both may
  speak of the history \<open>H\<close> of the inputs given so far.
\<close>

locale step_machine =
  fixes step :: "'s \<Rightarrow> 'i \<Rightarrow> ('s \<times> 'o) option"
    and inv :: "'i list \<Rightarrow> 's \<Rightarrow> bool"
    and good :: "'i list \<Rightarrow> 'i \<Rightarrow> 'o \<Rightarrow> bool"
  assumes step_inv: "inv H s \<Longrightarrow> step s i = Some (s', r) \<Longrightarrow> inv (H @ [i]) s'"
    and step_good: "inv H s \<Longrightarrow> step s i = Some (s', r) \<Longrightarrow> good H i r"
begin

lemma run_invariant:
  assumes "inv H s" and "run_steps step s is = Some (s', rs)"
  shows "inv (H @ is) s' \<and> (\<forall>k < length is. good (H @ take k is) (is ! k) (rs ! k))"
  using assms
proof (induction "is" arbitrary: H s rs)
  case Nil
  then show ?case by simp
next
  case (Cons i "is")
  then obtain t r qs where t: "step s i = Some (t, r)" "run_steps step t is = Some (s', qs)" "rs = r # qs"
    by (auto split: Option.bind_splits)
  note g = step_good [OF Cons.prems(1) t(1)]
  from Cons.IH [OF step_inv [OF Cons.prems(1) t(1)] t(2)]
  have IH: "inv (H @ i # is) s'" "\<forall>k < length is. good (H @ i # take k is) (is ! k) (qs ! k)" by simp_all
  have "good (H @ take k (i # is)) ((i # is) ! k) (rs ! k)" if "k < length (i # is)" for k
    using that g IH(2) t(3) by (cases k) simp_all
  with IH(1) show ?case by simp
qed

end

text \<open>An operation that moreover never panics in a state with the invariant.\<close>

locale total_machine = step_machine +
  assumes step_total: "inv H s \<Longrightarrow> step s i \<noteq> None"
begin

lemma run_total: "inv H s \<Longrightarrow> \<exists>s' rs. run_steps step s is = Some (s', rs)"
proof (induction "is" arbitrary: H s)
  case Nil
  then show ?case by simp
next
  case (Cons i "is")
  then obtain t r where t: "step s i = Some (t, r)" using step_total by fastforce
  from Cons.IH [OF step_inv [OF Cons.prems t]] t show ?case by auto
qed

end

end
