(* ===== verification/Udp_Frag.thy ===== *)
theory Udp_Frag
  imports Udp_Message Step_Machine
begin

text \<open>
  Fragmentation and reassembly of UDP messages, \<^verbatim>\<open>src/src/protocol.rs\<close>:
  \<open>frag_udp_message\<close> with its loop and its 8-bit fragment counter, and the \<open>Defragger\<close> with its
  single-packet state. The flag \<open>ovf\<close> says whether the build checks integer overflow.
\<close>

section \<open>Fragmentation\<close>

text \<open>
  The loop \<open>while off < m.data.len()\<close>. It is only entered with a positive \<open>max_payload\<close>, which
  is what makes it terminate; the guard here repeats that.
\<close>

function frag_loop ::
    "bool \<Rightarrow> udp_message \<Rightarrow> nat \<Rightarrow> nat \<Rightarrow> nat \<Rightarrow> u8 \<Rightarrow> udp_message list \<Rightarrow> udp_message list run" where
  "frag_loop ovf m max_payload frag_cnt off fid frags =
     (if off < length (data m) \<and> 0 < max_payload then do {
        let fin = min (off + max_payload) (length (data m));
        let frags = frags @ [\<lparr>session_id = session_id m, packet_id = packet_id m, frag_id = fid,
                              frag_count = of_nat frag_cnt, addr = addr m,
                              data = drop off (take fin (data m))\<rparr>];
        let off = fin;
        fid \<leftarrow> add_word ovf fid 1;
        frag_loop ovf m max_payload frag_cnt off fid frags }
      else Some frags)"
  by pat_completeness auto
termination
  by (relation "measure (\<lambda>(ovf, m, max_payload, frag_cnt, off, fid, frags). length (data m) - off)") auto

declare frag_loop.simps [simp del]

definition frag_udp_message :: "bool \<Rightarrow> udp_message \<Rightarrow> nat \<Rightarrow> udp_message list run" where
  "frag_udp_message ovf m max_size =
     (if msg_size m \<le> max_size then Some [m]
      else let max_payload = max_size - header_size m in
      if max_payload = 0 then Some []
      else let frag_cnt = div_ceil (length (data m)) max_payload in
      frag_loop ovf m max_payload frag_cnt 0 0 [])"

section \<open>Reassembly\<close>

record defragger =
  pkt_id :: u16
  frags :: "udp_message option list"
  df_count :: u8
  df_size :: nat

definition defragger_default :: defragger where
  "defragger_default = \<lparr>pkt_id = 0, frags = [], df_count = 0, df_size = 0\<rparr>"

text \<open>The assembly loop over the slots; every slot is left empty (\<open>take\<close>).\<close>

fun assemble :: "udp_message option list \<Rightarrow> bytes \<Rightarrow> udp_message option \<Rightarrow> bytes \<times> udp_message option" where
  "assemble [] d first = (d, first)"
| "assemble (None # slots) d first = assemble slots d first"
| "assemble (Some frag # slots) d first =
     assemble slots (d @ data frag) (if first = None then Some frag else first)"

definition feed :: "bool \<Rightarrow> defragger \<Rightarrow> udp_message \<Rightarrow> (defragger \<times> udp_message option) run" where
  "feed ovf self m =
     (if frag_count m \<le> 1 then Some (self, Some m)
      else if frag_id m \<ge> frag_count m then Some (self, None)
      else if packet_id m \<noteq> pkt_id self \<or> unat (frag_count m) \<noteq> length (frags self) then do {
        let self = self\<lparr>pkt_id := packet_id m, frags := replicate (unat (frag_count m)) None,
                        df_size := length (data m), df_count := 1\<rparr>;
        let fid = unat (frag_id m);
        slots \<leftarrow> write_at (frags self) fid [Some m];
        Some (self\<lparr>frags := slots\<rparr>, None) }
      else do {
        slot \<leftarrow> index (frags self) (unat (frag_id m));
        if slot = None then do {
          let self = self\<lparr>df_size := df_size self + length (data m)\<rparr>;
          cnt \<leftarrow> add_word ovf (df_count self) 1;
          let self = self\<lparr>df_count := cnt\<rparr>;
          let fid = unat (frag_id m);
          slots \<leftarrow> write_at (frags self) fid [Some m];
          let self = self\<lparr>frags := slots\<rparr>;
          if unat (df_count self) = length (frags self) then do {
            let (d, first) = assemble (frags self) [] None;
            let self = self\<lparr>frags := map (\<lambda>_. None) (frags self)\<rparr>;
            (case first of
               None \<Rightarrow> Some (self, None)
             | Some out \<Rightarrow> Some (self, Some (out\<lparr>data := d, frag_id := 0, frag_count := 1\<rparr>))) }
          else Some (self, None) }
        else Some (self, None) })"

text \<open>A sequence of messages fed one after the other, with what each call returned.\<close>

abbreviation feed_all :: "bool \<Rightarrow> defragger \<Rightarrow> udp_message list \<Rightarrow> (defragger \<times> udp_message option list) run" where
  "feed_all ovf \<equiv> run_steps (feed ovf)"

section \<open>What fragments are\<close>

text \<open>The \<open>k\<close>-th fragment of \<open>m\<close> with payloads of \<open>p\<close> bytes, out of \<open>n\<close>.\<close>

definition fragment :: "udp_message \<Rightarrow> nat \<Rightarrow> nat \<Rightarrow> nat \<Rightarrow> udp_message" where
  "fragment m p n k =
     m\<lparr>frag_id := of_nat k, frag_count := of_nat n, data := take p (drop (k * p) (data m))\<rparr>"

text \<open>A family \<open>g\<close> of \<open>n\<close> fragments of one packet.\<close>

definition frag_family :: "(nat \<Rightarrow> udp_message) \<Rightarrow> nat \<Rightarrow> u16 \<Rightarrow> bool" where
  "frag_family g n p \<longleftrightarrow> 2 \<le> n \<and> n \<le> 255 \<and>
     (\<forall>i < n. frag_id (g i) = of_nat i \<and> frag_count (g i) = of_nat n \<and> packet_id (g i) = p)"

text \<open>The defragger once the fragments with indices in \<open>K\<close> have arrived.\<close>

definition holding :: "(nat \<Rightarrow> udp_message) \<Rightarrow> nat \<Rightarrow> u16 \<Rightarrow> nat set \<Rightarrow> defragger" where
  "holding g n p K =
     \<lparr>pkt_id = p, frags = map (\<lambda>i. if i \<in> K then Some (g i) else None) [0..<n],
      df_count = of_nat (card K), df_size = (\<Sum>i\<in>K. length (data (g i)))\<rparr>"

definition joined :: "(nat \<Rightarrow> udp_message) \<Rightarrow> nat \<Rightarrow> udp_message" where
  "joined g n = (g 0)\<lparr>data := concat (map (\<lambda>i. data (g i)) [0..<n]), frag_id := 0, frag_count := 1\<rparr>"

text \<open>
  What holds of a defragger between calls: a stored fragment sits in the slot of its id and
  belongs to the packet, and the counter is the number of occupied slots (fewer than all), or
  that number plus the length once the packet has been completed and the slots emptied.
\<close>

definition occupied :: "defragger \<Rightarrow> nat set" where
  "occupied d = {i. i < length (frags d) \<and> frags d ! i \<noteq> None}"

definition slots_ok :: "defragger \<Rightarrow> bool" where
  "slots_ok d \<longleftrightarrow> (\<forall>i < length (frags d). \<forall>f. frags d ! i = Some f \<longrightarrow>
     unat (frag_id f) = i \<and> unat (frag_count f) = length (frags d) \<and> packet_id f = pkt_id d)"

definition df_inv :: "defragger \<Rightarrow> bool" where
  "df_inv d \<longleftrightarrow> length (frags d) \<le> 255 \<and> length (frags d) \<noteq> 1 \<and> slots_ok d \<and>
     (frags d \<noteq> [] \<longrightarrow>
        df_count d = of_nat (card (occupied d)) \<and> card (occupied d) < length (frags d) \<or>
        df_count d = of_nat (length (frags d) + card (occupied d)))"

text \<open>The state after storing \<open>m\<close> in its slot, and after a reset by \<open>m\<close>.\<close>

definition stored :: "defragger \<Rightarrow> udp_message \<Rightarrow> defragger" where
  "stored d m = d\<lparr>df_size := df_size d + length (data m), df_count := df_count d + 1,
     frags := (frags d)[unat (frag_id m) := Some m]\<rparr>"

definition fresh :: "udp_message \<Rightarrow> defragger" where
  "fresh m = \<lparr>pkt_id = packet_id m,
     frags = (replicate (unat (frag_count m)) None)[unat (frag_id m) := Some m],
     df_count = 1, df_size = length (data m)\<rparr>"

section \<open>The fragmentation loop\<close>

lemma frag_loop_eq:
  assumes "0 < p" and "n = div_ceil (length (data m)) p" and "\<not> ovf \<or> n \<le> 255" and "k \<le> n"
  shows "frag_loop ovf m p n (min (k * p) (length (data m))) (of_nat k) acc
           = Some (acc @ map (fragment m p n) [k..<n])"
  using assms(4)
proof (induction "n - k" arbitrary: k acc)
  case 0
  then have "k = n" by simp
  moreover have "length (data m) \<le> n * p" using div_ceil_le_iff [OF assms(1)] assms(2) by blast
  ultimately show ?case by (subst frag_loop.simps) simp
next
  case (Suc j)
  then have kn: "k < n" and j: "j = n - Suc k" by auto
  then have off: "k * p < length (data m)"
    using div_ceil_gt_iff [OF assms(1)] assms(2) by blast
  have "unat (of_nat k :: u8) + unat (1 :: u8) < 2 ^ LENGTH(8) \<or> \<not> ovf"
  proof -
    have "unat (of_nat k :: u8) \<le> k" by (simp add: unsigned_of_nat)
    then show ?thesis using assms(3) kn by auto
  qed
  then have inc: "add_word ovf (of_nat k :: u8) 1 = Some (of_nat (Suc k))"
    by (auto simp: add_word_no_overflow add.commute)
  have fin: "min (k * p + p) (length (data m)) = min (Suc k * p) (length (data m))"
    by (simp add: add.commute)
  have frag: "\<lparr>session_id = session_id m, packet_id = packet_id m, frag_id = of_nat k,
      frag_count = of_nat n, addr = addr m,
      data = drop (k * p) (take (min (Suc k * p) (length (data m))) (data m))\<rparr> = fragment m p n k"
  proof -
    have "take (min (Suc k * p) (length (data m))) (data m) = take (k * p + p) (data m)"
      by (cases "Suc k * p \<le> length (data m)") (simp_all add: add.commute)
    then show ?thesis by (simp add: fragment_def drop_take del: mult_Suc)
  qed
  have "[k..<n] = k # [Suc k..<n]" using kn by (simp add: upt_conv_Cons)
  then show ?case
    using Suc.hyps(1) [OF j, of "acc @ [fragment m p n k]"] kn off assms(1)
    by (subst frag_loop.simps) (simp add: Let_def inc fin frag del: mult_Suc of_nat_Suc)
qed

lemma frag_loop_overflow:
  assumes "0 < p" and "n = div_ceil (length (data m)) p" and "255 < n" and "k \<le> 255"
  shows "frag_loop True m p n (min (k * p) (length (data m))) (of_nat k) acc = None"
  using assms(4)
proof (induction "255 - k" arbitrary: k acc)
  case (Suc j)
  then have k: "k < 255" and j: "j = 255 - Suc k" by auto
  have off: "k * p < length (data m)"
    using div_ceil_gt_iff [OF assms(1), of k "length (data m)"] assms(2,3) k by simp
  have "unat (of_nat k :: u8) = k" using k by (simp add: unsigned_of_nat take_bit_nat_eq_self)
  then have inc: "add_word True (of_nat k :: u8) 1 = Some (of_nat (Suc k))"
    using k by (subst add_word_no_overflow) (simp_all add: add.commute)
  have fin: "min (k * p + p) (length (data m)) = min (Suc k * p) (length (data m))"
    by (simp add: add.commute)
  show ?case
    using Suc.hyps(1) [OF j] k off assms(1)
    by (subst frag_loop.simps) (simp add: Let_def inc fin del: mult_Suc of_nat_Suc)
next
  case 0
  then have k: "k = 255" by simp
  have off: "255 * p < length (data m)"
    using div_ceil_gt_iff [OF assms(1), of 255 "length (data m)"] assms(2,3) by simp
  have "add_word True (255 :: u8) 1 = None" by (simp add: add_word_None_iff)
  then show ?case using off assms(1) by (subst frag_loop.simps) (simp add: k Let_def)
qed

lemma frag_udp_message_eq:
  assumes "max_size < msg_size m" and "header_size m < max_size"
  defines "p \<equiv> max_size - header_size m"
  defines "n \<equiv> div_ceil (length (data m)) p"
  shows "frag_udp_message ovf m max_size =
    (if ovf \<and> 255 < n then None else Some (map (fragment m p n) [0..<n]))"
proof -
  have p: "0 < p" using assms(2) by (simp add: p_def)
  have "frag_udp_message ovf m max_size = frag_loop ovf m p n 0 0 []"
    using assms(1) p by (simp add: frag_udp_message_def p_def n_def Let_def)
  then show ?thesis
    using frag_loop_eq [OF p n_def [THEN meta_eq_to_obj_eq], of ovf 0 "[]"]
      frag_loop_overflow [OF p n_def [THEN meta_eq_to_obj_eq], of 0 "[]"]
    by auto
qed

text \<open>How many fragments there are, and that they tile the payload.\<close>

lemma concat_chunks:
  "length xs \<le> n * p \<Longrightarrow> concat (map (\<lambda>k. take p (drop (k * p) xs)) [0..<n]) = xs"
proof (induction n arbitrary: xs)
  case 0
  then show ?case by simp
next
  case (Suc n)
  have "map (\<lambda>k. take p (drop (k * p) xs)) [0..<Suc n] =
      take p xs # map (\<lambda>k. take p (drop (k * p) (drop p xs))) [0..<n]"
    by (simp add: upt_conv_Cons map_Suc_upt [symmetric] add.commute del: upt_Suc)
  moreover have "length (drop p xs) \<le> n * p" using Suc.prems by simp
  ultimately show ?case using Suc.IH [of "drop p xs"] by simp
qed

lemma fragment_size: "msg_size (fragment m p n k) \<le> header_size m + p"
  by (simp add: msg_size_def header_size_def fragment_def)

lemma fragment_nonempty: "0 < p \<Longrightarrow> k < div_ceil (length (data m)) p \<Longrightarrow> data (fragment m p n k) \<noteq> []"
  by (simp add: fragment_def div_ceil_gt_iff)

lemma fragment_count_range:
  assumes "max_size < msg_size m" and "header_size m < max_size"
  shows "2 \<le> div_ceil (length (data m)) (max_size - header_size m)"
  using div_ceil_gt_iff [of "max_size - header_size m" 1 "length (data m)"] assms
  by (auto simp: msg_size_def)

section \<open>The defragger on one packet\<close>

lemma holding_simps [simp]:
  "pkt_id (holding g n p K) = p" "length (frags (holding g n p K)) = n"
  "df_count (holding g n p K) = of_nat (card K)"
  by (simp_all add: holding_def)

lemma family_unat:
  assumes "frag_family g n p" and "i < n"
  shows "unat (frag_id (g i)) = i" and "unat (frag_count (g i)) = n" and "packet_id (g i) = p"
    and "\<not> frag_count (g i) \<le> 1" and "\<not> frag_id (g i) \<ge> frag_count (g i)"
proof -
  show u: "unat (frag_id (g i)) = i" "unat (frag_count (g i)) = n" "packet_id (g i) = p"
    using assms by (auto simp: frag_family_def unsigned_of_nat take_bit_nat_eq_self)
  show "\<not> frag_count (g i) \<le> 1" "\<not> frag_id (g i) \<ge> frag_count (g i)"
    using u assms by (auto simp: frag_family_def word_le_nat_alt)
qed

lemma slot_write:
  "i < n \<Longrightarrow> write_at (map (\<lambda>j. if j \<in> K then Some (g j) else None) [0..<n]) i [Some (g i)]
     = Some (map (\<lambda>j. if j \<in> insert i K then Some (g j) else None) [0..<n])"
  by (auto simp: list_eq_iff_nth_eq nth_append nth_Cons' min_def)

text \<open>The first fragment of a packet the defragger is not working on resets it.\<close>

lemma feed_first:
  assumes "frag_family g n p" and "i < n" and "pkt_id d \<noteq> p \<or> length (frags d) \<noteq> n"
  shows "feed ovf d (g i) = Some (holding g n p {i}, None)"
proof -
  note u = family_unat [OF assms(1,2)]
  have r: "replicate n None = map (\<lambda>j. if j \<in> {} then Some (g j) else None) [0..<n]"
    by (simp add: list_eq_iff_nth_eq)
  show ?thesis
    using assms(3) u(4,5) slot_write [OF assms(2), of "{}" g]
    by (auto simp: feed_def u(1-3) r holding_def Let_def)
qed

text \<open>A fragment that is already there changes nothing.\<close>

lemma feed_duplicate:
  assumes "frag_family g n p" and "i \<in> K" and "i < n"
  shows "feed ovf (holding g n p K) (g i) = Some (holding g n p K, None)"
proof -
  note u = family_unat [OF assms(1,3)]
  have "index (frags (holding g n p K)) i = Some (Some (g i))"
    using assms(2,3) by (simp add: holding_def)
  then show ?thesis using u(4,5) by (simp add: feed_def u(1-3))
qed

lemma assemble_slots:
  "assemble (map (\<lambda>i. Some (g i)) ks) d first =
     (d @ concat (map (\<lambda>i. data (g i)) ks),
      if first = None then (case ks of [] \<Rightarrow> None | k # _ \<Rightarrow> Some (g k)) else first)"
  by (induction ks arbitrary: d first) (auto split: list.splits)

lemma assemble_full:
  assumes "0 < n"
  shows "assemble (frags (holding g n p {..<n})) [] None
      = (concat (map (\<lambda>i. data (g i)) [0..<n]), Some (g 0))"
    and "map (\<lambda>_. None) (frags (holding g n p {..<n})) = replicate n None"
proof -
  have "frags (holding g n p {..<n}) = map (\<lambda>i. Some (g i)) [0..<n]" by (simp add: holding_def)
  moreover have "[0..<n] = 0 # [1..<n]" using assms by (simp add: upt_conv_Cons)
  ultimately show "assemble (frags (holding g n p {..<n})) [] None
      = (concat (map (\<lambda>i. data (g i)) [0..<n]), Some (g 0))"
    using assemble_slots [of g "[0..<n]" "[]" None] by simp
  show "map (\<lambda>_. None) (frags (holding g n p {..<n})) = replicate n None"
    by (simp add: holding_def map_replicate_const)
qed

text \<open>Storing a new fragment field by field is holding one more index.\<close>

lemma holding_insert:
  assumes "i \<notin> K" and "i < n" and "finite K"
  shows "index (frags (holding g n p K)) i = Some None"
    and "write_at (frags (holding g n p K)) i [Some (g i)] = Some (frags (holding g n p (insert i K)))"
    and "holding g n p K\<lparr>df_size := df_size (holding g n p K) + length (data (g i)),
      df_count := of_nat (card (insert i K)), frags := frags (holding g n p (insert i K))\<rparr>
      = holding g n p (insert i K)"
proof -
  show "index (frags (holding g n p K)) i = Some None"
    using assms by (simp add: holding_def)
  show "write_at (frags (holding g n p K)) i [Some (g i)] = Some (frags (holding g n p (insert i K)))"
    using slot_write [OF assms(2), of K g] by (simp add: holding_def)
  have "(\<Sum>j\<in>insert i K. length (data (g j))) = (\<Sum>j\<in>K. length (data (g j))) + length (data (g i))"
    using assms by simp
  then show "holding g n p K\<lparr>df_size := df_size (holding g n p K) + length (data (g i)),
      df_count := of_nat (card (insert i K)), frags := frags (holding g n p (insert i K))\<rparr>
      = holding g n p (insert i K)"
    by (simp add: holding_def del: sum.insert card.insert)
qed

text \<open>A new fragment is stored; the last one completes the packet and empties the slots.\<close>

lemma feed_new:
  assumes "frag_family g n p" and "i \<notin> K" and "i < n" and "K \<subseteq> {..<n}"
  shows "feed ovf (holding g n p K) (g i) =
    (if insert i K = {..<n}
     then Some ((holding g n p {..<n})\<lparr>frags := replicate n None\<rparr>, Some (joined g n))
     else Some (holding g n p (insert i K), None))"
proof -
  note u = family_unat [OF assms(1,3)]
  have n: "2 \<le> n" "n \<le> 255" using assms(1) by (auto simp: frag_family_def)
  have fin: "finite K" using assms(4) finite_subset by blast
  have card: "card (insert i K) = Suc (card K)" using fin assms(2) by simp
  have le: "card (insert i K) \<le> n" using card_mono [of "{..<n}" "insert i K"] assms(3,4) by simp
  have uc: "unat (of_nat c :: u8) = c" if "c \<le> n" for c
    using that n by (simp add: unsigned_of_nat take_bit_nat_eq_self)
  have full: "insert i K = {..<n} \<longleftrightarrow> unat (of_nat (card (insert i K)) :: u8) = n"
    using card_subset_eq [of "{..<n}" "insert i K"] assms(3,4) uc [OF le] by auto
  have inc: "add_word ovf (of_nat (card K) :: u8) 1 = Some (of_nat (card (insert i K)))"
    using le n card uc [of "card K"] by (subst add_word_no_overflow) (auto simp: add.commute)
  note ins = holding_insert [OF assms(2,3) fin]
  have "feed ovf (holding g n p K) (g i) =
    (let self = holding g n p (insert i K) in
     if insert i K = {..<n} then
       (case assemble (frags self) [] None of (d, first) \<Rightarrow>
         let self = self\<lparr>frags := map (\<lambda>_. None) (frags self)\<rparr> in
         (case first of
               None \<Rightarrow> Some (self, None)
             | Some out \<Rightarrow> Some (self, Some (out\<lparr>data := d, frag_id := 0, frag_count := 1\<rparr>))))
     else Some (self, None))"
    using u(4,5) by (simp add: feed_def u(1-3) ins inc full Let_def del: card.insert)
  then show ?thesis using n by (auto simp: Let_def assemble_full joined_def)
qed

section \<open>Sequences of fragments\<close>

lemma feed_all_partial:
  assumes "frag_family g n p" and "pkt_id d \<noteq> p \<or> length (frags d) \<noteq> n"
    and "js \<noteq> []" and "set js \<subset> {..<n}"
  shows "feed_all ovf d (map g js) = Some (holding g n p (set js), replicate (length js) None)"
  using assms(3,4)
proof (induction js rule: rev_induct)
  case (snoc j js)
  then have jn: "j < n" by auto
  show ?case
  proof (cases "js = []")
    case True
    then show ?thesis using feed_first [OF assms(1) jn assms(2)] by simp
  next
    case False
    with snoc have IH: "feed_all ovf d (map g js) = Some (holding g n p (set js), replicate (length js) None)"
      by auto
    have "feed ovf (holding g n p (set js)) (g j) = Some (holding g n p (set (js @ [j])), None)"
    proof (cases "j \<in> set js")
      case True
      then show ?thesis using feed_duplicate [OF assms(1) True jn] by (simp add: insert_absorb)
    next
      case False
      have "insert j (set js) \<noteq> {..<n}" "set js \<subseteq> {..<n}" using snoc.prems(2) by auto
      then show ?thesis using feed_new [OF assms(1) False jn] by simp
    qed
    then show ?thesis by (simp add: run_steps_append IH replicate_append_same)
  qed
qed simp

text \<open>
  Fragments in any order, with repetitions: nothing comes out until the last missing one
  arrives, which yields the joined message.
\<close>

lemma feed_all_complete:
  assumes "frag_family g n p" and "pkt_id d \<noteq> p \<or> length (frags d) \<noteq> n"
    and "set js \<subset> {..<n}" and "insert j (set js) = {..<n}"
  shows "feed_all ovf d (map g (js @ [j])) =
    Some ((holding g n p {..<n})\<lparr>frags := replicate n None\<rparr>,
          replicate (length js) None @ [Some (joined g n)])"
proof -
  have n: "2 \<le> n" using assms(1) by (simp add: frag_family_def)
  have j: "j < n" "j \<notin> set js" using assms(3,4) by auto
  have "js \<noteq> []"
  proof
    assume "js = []"
    with assms(4) have "card {j} = n" by (metis card_lessThan empty_set)
    with n show False by simp
  qed
  from feed_all_partial [OF assms(1,2) this assms(3)]
  have "feed_all ovf d (map g js) = Some (holding g n p (set js), replicate (length js) None)" .
  moreover have "feed ovf (holding g n p (set js)) (g j) =
      Some ((holding g n p {..<n})\<lparr>frags := replicate n None\<rparr>, Some (joined g n))"
    using feed_new [OF assms(1) j(2,1)] assms(3,4) by auto
  ultimately show ?thesis by (simp add: run_steps_append)
qed

text \<open>In particular in the order in which they were made.\<close>

lemma feed_all_in_order:
  assumes "frag_family g n p" and "pkt_id d \<noteq> p \<or> length (frags d) \<noteq> n"
  shows "feed_all ovf d (map g [0..<n]) =
    Some ((holding g n p {..<n})\<lparr>frags := replicate n None\<rparr>, replicate (n - 1) None @ [Some (joined g n)])"
proof -
  have n: "2 \<le> n" using assms(1) by (simp add: frag_family_def)
  then have up: "[0..<n] = [0..<n - 1] @ [n - 1]" using upt_Suc_append [of 0 "n - 1"] by simp
  have s: "insert (n - 1) (set [0..<n - 1]) = {..<n}" using n by auto
  have "n - 1 \<in> {..<n}" "n - 1 \<notin> set [0..<n - 1]" "set [0..<n - 1] \<subseteq> {..<n}" using n by auto
  then have s': "set [0..<n - 1] \<subset> {..<n}" by blast
  show ?thesis
    using feed_all_complete [OF assms s' s, of ovf] by (simp only: length_upt diff_zero up [symmetric])
qed

section \<open>The fragments of a message\<close>

lemma fragment_family:
  assumes "2 \<le> n" and "n \<le> 255"
  shows "frag_family (fragment m q n) n (packet_id m)"
  using assms by (simp add: frag_family_def fragment_def)

lemma fragment_joined:
  assumes "length (data m) \<le> n * q"
  shows "joined (fragment m q n) n = m\<lparr>frag_id := 0, frag_count := 1\<rparr>"
  using concat_chunks [OF assms] by (simp add: joined_def fragment_def)

lemma fragments_any_order:
  assumes "header_size m < max_size" and "max_size < msg_size m"
    and "frag_udp_message ovf m max_size = Some fs" and "length fs \<le> 255"
    and "pkt_id d \<noteq> packet_id m \<or> length (frags d) \<noteq> length fs"
    and "set js \<subset> {..<length fs}" and "insert j (set js) = {..<length fs}"
  shows "\<exists>d'. feed_all ovf d (map (nth fs) (js @ [j])) =
    Some (d', replicate (length js) None @ [Some (m\<lparr>frag_id := 0, frag_count := 1\<rparr>)])"
proof -
  let ?p = "max_size - header_size m"
  let ?n = "div_ceil (length (data m)) ?p"
  have fs: "fs = map (fragment m ?p ?n) [0..<?n]"
    using frag_udp_message_eq [OF assms(2,1), of ovf] assms(3) by (auto split: if_splits)
  then have n: "length fs = ?n" by simp
  have fam: "frag_family (fragment m ?p ?n) ?n (packet_id m)"
    using fragment_family [OF fragment_count_range [OF assms(2,1)]] assms(4) n by simp
  have le: "length (data m) \<le> ?n * ?p" using div_ceil_le_iff [of ?p] assms(1) by auto
  have "set (js @ [j]) \<subseteq> {..<?n}" using assms(6,7) n by auto
  then have eq: "map (nth fs) (js @ [j]) = map (fragment m ?p ?n) (js @ [j])"
    by (intro map_cong) (auto simp: fs)
  have "pkt_id d \<noteq> packet_id m \<or> length (frags d) \<noteq> ?n" using assms(5) by (simp only: n)
  from feed_all_complete [OF fam this assms(6,7) [unfolded n], of ovf]
  show ?thesis unfolding eq fragment_joined [OF le] by blast
qed

section \<open>The defragger on arbitrary input\<close>

lemma occupied_finite [simp]: "finite (occupied d)"
  by (simp add: occupied_def)

lemma occupied_le: "card (occupied d) \<le> length (frags d)"
  using card_mono [of "{..<length (frags d)}" "occupied d"] by (force simp: occupied_def)

text \<open>A message stored in its slot of a matching defragger.\<close>

lemma store_slot:
  assumes "i < length (frags d)" and "frags d ! i = None" and "frags d' = (frags d)[i := Some m]"
  shows "card (occupied d') = Suc (card (occupied d))" and "length (frags d') = length (frags d)"
proof -
  have "occupied d' = insert i (occupied d)" and "i \<notin> occupied d"
    using assms by (auto simp: occupied_def nth_list_update split: if_splits)
  then show "card (occupied d') = Suc (card (occupied d))" by simp
  show "length (frags d') = length (frags d)" using assms(3) by simp
qed

lemma store_slots_ok:
  assumes "slots_ok d" and "unat (frag_count m) = length (frags d)" and "packet_id m = pkt_id d"
    and "frags d' = (frags d)[unat (frag_id m) := Some m]" and "pkt_id d' = pkt_id d"
  shows "slots_ok d'"
  unfolding slots_ok_def
proof (intro allI impI)
  fix i f assume i: "i < length (frags d')" and f: "frags d' ! i = Some f"
  show "unat (frag_id f) = i \<and> unat (frag_count f) = length (frags d') \<and> packet_id f = pkt_id d'"
    using assms i f by (cases "i = unat (frag_id m)") (auto simp: slots_ok_def)
qed

lemma add_count:
  "add_word ovf (c :: u8) 1 = (if ovf \<and> c = 255 then None else Some (c + 1))"
proof -
  have "256 \<le> unat c + 1 \<longleftrightarrow> c = 255"
    using unat_le_255 [of c] by (auto simp: word_unat_eq_iff)
  then show ?thesis by (simp add: add_word_def)
qed

lemma feed_reset_eq:
  assumes "1 < frag_count m" and "frag_id m < frag_count m"
    and "packet_id m \<noteq> pkt_id d \<or> unat (frag_count m) \<noteq> length (frags d)"
  shows "feed ovf d m = Some (fresh m, None)"
proof -
  have "unat (frag_id m) < unat (frag_count m)" using assms(2) by (simp add: word_less_nat_alt)
  with assms show ?thesis
    by (cases d) (auto simp: feed_def fresh_def Let_def write_at_single simp del: write_at_Some)
qed

lemma feed_store_eq:
  assumes "1 < frag_count m" and "frag_id m < frag_count m" and "packet_id m = pkt_id d"
    and "unat (frag_count m) = length (frags d)" and "frags d ! unat (frag_id m) = None"
  shows "feed ovf d m = (if ovf \<and> df_count d = 255 then None
     else if unat (df_count (stored d m)) = length (frags d) then
       (case assemble (frags (stored d m)) [] None of (b, first) \<Rightarrow>
         Some ((stored d m)\<lparr>frags := replicate (length (frags d)) None\<rparr>,
               map_option (\<lambda>out. out\<lparr>data := b, frag_id := 0, frag_count := 1\<rparr>) first))
     else Some (stored d m, None))"
proof -
  have "unat (frag_id m) < length (frags d)" using assms(2,4) by (simp add: word_less_nat_alt)
  moreover have "map (\<lambda>_. None) ((frags d)[unat (frag_id m) := Some m]) = replicate (length (frags d)) None"
    by (simp add: map_replicate_const)
  ultimately show ?thesis
    using assms by (cases d) (auto simp: feed_def stored_def Let_def add_count write_at_single
        simp del: write_at_Some split: option.splits prod.splits)
qed

text \<open>The five ways a call can go.\<close>

lemma feed_cases:
  obtains (single) "frag_count m \<le> 1" "feed ovf d m = Some (d, Some m)"
  | (bad_id) "1 < frag_count m" "frag_count m \<le> frag_id m" "feed ovf d m = Some (d, None)"
  | (reset) "1 < frag_count m" "frag_id m < frag_count m" "feed ovf d m = Some (fresh m, None)"
  | (dup) f where "1 < frag_count m" "frags d ! unat (frag_id m) = Some f" "feed ovf d m = Some (d, None)"
  | (store) "1 < frag_count m" "frag_id m < frag_count m" "packet_id m = pkt_id d"
      "unat (frag_count m) = length (frags d)" "frags d ! unat (frag_id m) = None"
proof (cases "frag_count m \<le> 1 \<or> frag_count m \<le> frag_id m")
  case True
  then show ?thesis
    using single bad_id by (cases "frag_count m \<le> 1") (auto simp: feed_def)
next
  case False
  then have g: "1 < frag_count m" "frag_id m < frag_count m" by auto
  show ?thesis
  proof (cases "packet_id m \<noteq> pkt_id d \<or> unat (frag_count m) \<noteq> length (frags d)")
    case True
    with g show ?thesis using reset feed_reset_eq by blast
  next
    case same: False
    then have "unat (frag_id m) < length (frags d)" using g(2) by (simp add: word_less_nat_alt)
    with g same show ?thesis
      using store dup by (cases "frags d ! unat (frag_id m)") (auto simp: feed_def)
  qed
qed

lemma df_inv_fresh:
  assumes "1 < frag_count m" and "frag_id m < frag_count m"
  shows "df_inv (fresh m)"
proof -
  have lt: "unat (frag_id m) < unat (frag_count m)" "1 < unat (frag_count m)" "unat (frag_count m) \<le> 255"
    using assms unat_le_255 by (simp_all add: word_less_nat_alt)
  then have "occupied (fresh m) = {unat (frag_id m)}"
    by (auto simp: occupied_def fresh_def nth_list_update split: if_splits)
  moreover have "slots_ok (fresh m)"
    using lt by (auto simp: slots_ok_def fresh_def nth_list_update split: if_splits)
  ultimately show ?thesis using lt by (simp add: df_inv_def) (simp add: fresh_def)
qed

text \<open>
  The counter after a store. While the packet is incomplete it reaches the number of slots
  exactly when all are occupied; after a completed packet it never does.
\<close>

lemma stored_count:
  assumes "df_inv d" and "i = unat (frag_id m)" and "i < length (frags d)" and "frags d ! i = None"
  shows "unat (df_count (stored d m)) = length (frags d) \<longleftrightarrow>
    df_count d = of_nat (card (occupied d)) \<and> card (occupied (stored d m)) = length (frags d)"
proof -
  let ?n = "length (frags d)" and ?k = "card (occupied d)"
  have n: "?n \<le> 255" "frags d \<noteq> []" using assms by (auto simp: df_inv_def)
  have k: "card (occupied (stored d m)) = Suc ?k" "Suc ?k \<le> ?n"
    using store_slot [of i d "stored d m" m] assms(2-4) occupied_le [of "stored d m"]
    by (auto simp: stored_def)
  have c: "df_count (stored d m) = df_count d + 1" by (simp add: stored_def)
  consider (A) "df_count d = of_nat ?k" | (B) "df_count d = of_nat (?n + ?k)"
    using assms(1) n(2) by (auto simp: df_inv_def)
  then show ?thesis
  proof cases
    case A
    then have "df_count (stored d m) = of_nat (Suc ?k)" using c by (simp add: add.commute)
    then have "unat (df_count (stored d m)) = Suc ?k"
      using k n by (simp only: unsigned_of_nat) (simp add: take_bit_nat_eq_self)
    with A k show ?thesis by simp
  next
    case B
    then have "df_count (stored d m) = of_nat (?n + Suc ?k)" using c by (simp add: ac_simps)
    then have "unat (df_count (stored d m)) = (?n + Suc ?k) mod 256"
      by (simp only: unsigned_of_nat) (simp add: take_bit_eq_mod)
    moreover have "(?n + Suc ?k) mod 256 \<noteq> ?n" using k n by (intro mod_256_neq) auto
    moreover have "df_count d \<noteq> of_nat ?k"
    proof
      assume "df_count d = of_nat ?k"
      with B have "unat (of_nat (?n + ?k) :: u8) = unat (of_nat ?k :: u8)" by simp
      then have "(?k + ?n) mod 256 = ?k"
        using k n by (simp only: unsigned_of_nat) (simp add: take_bit_eq_mod add.commute)
      then show False using mod_256_neq [of ?k ?n] k n by simp
    qed
    ultimately show ?thesis by simp
  qed
qed

lemma stored_slots_ok:
  assumes "df_inv d" and "unat (frag_count m) = length (frags d)" and "packet_id m = pkt_id d"
  shows "slots_ok (stored d m)"
proof (rule store_slots_ok [OF _ assms(2,3)])
  show "slots_ok d" using assms(1) by (simp add: df_inv_def)
qed (simp_all add: stored_def)

lemma df_inv_stored:
  assumes "df_inv d" and "unat (frag_count m) = length (frags d)" and "packet_id m = pkt_id d"
    and "unat (frag_id m) < length (frags d)" and "frags d ! unat (frag_id m) = None"
    and "unat (df_count (stored d m)) \<noteq> length (frags d)"
  shows "df_inv (stored d m)"
proof -
  let ?n = "length (frags d)" and ?k = "card (occupied d)"
  have k: "card (occupied (stored d m)) = Suc ?k" "Suc ?k \<le> ?n"
    using store_slot [of _ d "stored d m" m] assms(4,5) occupied_le [of "stored d m"]
    by (auto simp: stored_def)
  have c: "df_count (stored d m) = df_count d + 1" and l: "length (frags (stored d m)) = ?n"
    by (simp_all add: stored_def)
  have ne: "frags d \<noteq> []" using assms(4) by auto
  then consider (A) "df_count d = of_nat ?k" | (B) "df_count d = of_nat (?n + ?k)"
    using assms(1) by (auto simp: df_inv_def)
  then have "df_count (stored d m) = of_nat (card (occupied (stored d m))) \<and>
      card (occupied (stored d m)) < ?n \<or> df_count (stored d m) = of_nat (?n + card (occupied (stored d m)))"
  proof cases
    case A
    then have "Suc ?k \<noteq> ?n" using stored_count [OF assms(1) refl assms(4,5)] assms(6) k(1) by simp
    with A k c show ?thesis by (simp add: add.commute)
  next
    case B
    with k c show ?thesis by (simp add: ac_simps)
  qed
  with stored_slots_ok [OF assms(1-3)] assms(1) show ?thesis by (simp add: df_inv_def l)
qed

lemma df_inv_drained:
  assumes "df_inv d" and "unat (df_count d') = length (frags d)"
    and "frags d' = replicate (length (frags d)) None"
  shows "df_inv d'"
proof -
  have "occupied d' = {}" using assms(3) by (auto simp: occupied_def)
  moreover have "df_count d' = of_nat (length (frags d))" by (simp flip: assms(2))
  moreover have "slots_ok d'" using assms(3) by (simp add: slots_ok_def)
  ultimately show ?thesis using assms(1,3) by (simp add: df_inv_def)
qed

lemma feed_inv:
  assumes "df_inv d" and "feed ovf d m = Some (d', r)"
  shows "df_inv d'"
  using feed_cases [of m ovf d]
proof cases
  case store
  have idx: "unat (frag_id m) < length (frags d)" using store(2,4) by (simp add: word_less_nat_alt)
  note eq = feed_store_eq [OF store, of ovf]
  show ?thesis
  proof (cases "unat (df_count (stored d m)) = length (frags d)")
    case True
    with assms(2) eq have "d' = (stored d m)\<lparr>frags := replicate (length (frags d)) None\<rparr>"
      by (auto split: if_splits prod.splits)
    with True show ?thesis by (intro df_inv_drained [OF assms(1)]) simp_all
  next
    case False
    with assms(2) eq have "d' = stored d m" by (auto split: if_splits)
    with df_inv_stored [OF assms(1) store(4,3) idx store(5) False] show ?thesis by simp
  qed
qed (use assms df_inv_fresh in auto)

text \<open>What comes out of a fragmented message is a complete family, joined in order.\<close>

lemma feed_out:
  assumes "df_inv d" and "feed ovf d m = Some (d', Some out)" and "1 < frag_count m"
  shows "\<exists>g. frag_family g (unat (frag_count m)) (packet_id m) \<and> out = joined g (unat (frag_count m)) \<and>
    (\<forall>i < unat (frag_count m). g i = m \<or> frags d ! i = Some (g i))"
  using feed_cases [of m ovf d]
proof cases
  case store
  let ?n = "length (frags d)" and ?s = "stored d m"
  have idx: "unat (frag_id m) < ?n" using store(2,4) by (simp add: word_less_nat_alt)
  have n: "2 \<le> ?n" "?n \<le> 255" using assms(1,3) store(4) by (auto simp: df_inv_def word_less_nat_alt)
  note eq = feed_store_eq [OF store, of ovf]
  have cnt: "unat (df_count ?s) = ?n" using assms(2) eq by (auto split: if_splits)
  then have "card (occupied ?s) = ?n" using stored_count [OF assms(1) refl idx store(5)] by simp
  moreover have "occupied ?s \<subseteq> {..<?n}" by (auto simp: occupied_def stored_def)
  ultimately have full: "occupied ?s = {..<?n}" using card_subset_eq [of "{..<?n}" "occupied ?s"] by simp
  define g where "g i = the (frags ?s ! i)" for i
  have gi: "frags ?s ! i = Some (g i)" if "i < ?n" for i
  proof -
    have "i \<in> occupied ?s" using full that by simp
    then have "frags ?s ! i \<noteq> None" by (simp add: occupied_def)
    then show ?thesis by (simp add: g_def)
  qed
  have len: "length (frags ?s) = ?n" by (simp add: stored_def)
  have "frags ?s = map (\<lambda>i. Some (g i)) [0..<?n]"
    using gi len by (intro nth_equalityI) simp_all
  moreover have "[0..<?n] = 0 # [1..<?n]" using n by (subst upt_rec) auto
  ultimately have "assemble (frags ?s) [] None = (concat (map (\<lambda>i. data (g i)) [0..<?n]), Some (g 0))"
    using assemble_slots [of g "[0..<?n]" "[]" None] by simp
  with assms(2) eq cnt have "out = joined g ?n" by (auto simp: joined_def split: if_splits)
  moreover have "frag_family g ?n (packet_id m)"
    unfolding frag_family_def
  proof (intro conjI allI impI)
    fix i assume i: "i < ?n"
    then have "unat (frag_id (g i)) = i \<and> unat (frag_count (g i)) = ?n \<and> packet_id (g i) = pkt_id ?s"
      using stored_slots_ok [OF assms(1) store(4,3)] gi [OF i] len by (simp add: slots_ok_def)
    then show "frag_id (g i) = of_nat i" "frag_count (g i) = of_nat ?n" "packet_id (g i) = packet_id m"
      using store(3) by (auto simp: stored_def intro: word_of_unat)
  qed (use n in auto)
  moreover have "g i = m \<or> frags d ! i = Some (g i)" if "i < ?n" for i
    using gi [OF that] that by (cases "unat (frag_id m) = i") (simp_all add: stored_def)
  ultimately show ?thesis using store(4) by auto
qed (use assms in auto)

text \<open>Stored fragments are messages fed before.\<close>

definition slots_from :: "udp_message list \<Rightarrow> defragger \<Rightarrow> bool" where
  "slots_from H d \<longleftrightarrow> (\<forall>f. Some f \<in> set (frags d) \<longrightarrow> f \<in> set H)"

lemma feed_slots_from:
  assumes "slots_from H d" and "feed ovf d m = Some (d', r)"
  shows "slots_from (H @ [m]) d'"
  using feed_cases [of m ovf d]
proof cases
  case reset
  then have "d' = fresh m" using assms(2) by simp
  then show ?thesis by (auto simp: slots_from_def fresh_def dest: set_update_subset_insert [THEN subsetD])
next
  case store
  have "slots_from (H @ [m]) (stored d m)"
    using assms(1) by (auto simp: slots_from_def stored_def dest!: set_update_subset_insert [THEN subsetD])
  moreover have "slots_from (H @ [m]) ((stored d m)\<lparr>frags := replicate (length (frags d)) None\<rparr>)"
    by (simp add: slots_from_def)
  ultimately show ?thesis
    using assms(2) feed_store_eq [OF store, of ovf] by (auto split: if_splits prod.splits)
qed (use assms in \<open>auto simp: slots_from_def\<close>)

text \<open>
  A delivered message is the input itself, unfragmented, or the join of a complete family of
  fragments of the input's packet, all of them fed so far, the input included.
\<close>

definition delivery_ok :: "udp_message list \<Rightarrow> udp_message \<Rightarrow> udp_message option \<Rightarrow> bool" where
  "delivery_ok H m r \<longleftrightarrow> (\<forall>out. r = Some out \<longrightarrow>
     (if frag_count m \<le> 1 then out = m
      else \<exists>g. frag_family g (unat (frag_count m)) (packet_id m) \<and>
        out = joined g (unat (frag_count m)) \<and> g (unat (frag_id m)) = m \<and>
        (\<forall>i < unat (frag_count m). g i \<in> set (H @ [m]))))"

lemma feed_out_history:
  assumes "df_inv d" and "slots_from H d" and "feed ovf d m = Some (d', Some out)" and "1 < frag_count m"
  shows "\<exists>g. frag_family g (unat (frag_count m)) (packet_id m) \<and>
        out = joined g (unat (frag_count m)) \<and> g (unat (frag_id m)) = m \<and>
        (\<forall>i < unat (frag_count m). g i \<in> set (H @ [m]))"
proof -
  from feed_out [OF assms(1,3,4)] obtain g where g: "frag_family g (unat (frag_count m)) (packet_id m)"
    "out = joined g (unat (frag_count m))"
    "\<forall>i < unat (frag_count m). g i = m \<or> frags d ! i = Some (g i)" by auto
  have slot: "frag_id m < frag_count m" "frags d ! unat (frag_id m) = None"
    "unat (frag_count m) = length (frags d)"
    using feed_cases [of m ovf d] assms(3,4) by (cases; auto)+
  then have "g (unat (frag_id m)) = m" using g(3) by (auto simp: word_less_nat_alt)
  moreover have "g i \<in> set (H @ [m])" if "i < unat (frag_count m)" for i
  proof (cases "g i = m")
    case False
    with g(3) that have "frags d ! i = Some (g i)" by auto
    then have "Some (g i) \<in> set (frags d)" using that slot(3) by (metis nth_mem)
    with assms(2) show ?thesis by (simp add: slots_from_def)
  qed simp
  ultimately show ?thesis using g by blast
qed

lemma feed_delivery:
  assumes "df_inv d" and "slots_from H d" and "feed ovf d m = Some (d', r)"
  shows "delivery_ok H m r"
proof (cases "1 < frag_count m")
  case False
  then have "frag_count m \<le> 1" by (simp add: not_less)
  then show ?thesis using assms(3) by (auto simp: delivery_ok_def feed_def)
next
  case True
  then have "\<not> frag_count m \<le> 1" by (simp add: not_le)
  with feed_out_history [OF assms(1,2) _ True, of ovf d'] assms(3) show ?thesis
    by (auto simp: delivery_ok_def)
qed

definition df_ok :: "udp_message list \<Rightarrow> defragger \<Rightarrow> bool" where
  "df_ok H d \<longleftrightarrow> df_inv d \<and> slots_from H d"

interpretation df: step_machine "feed ovf" df_ok delivery_ok for ovf
  by unfold_locales (auto simp: df_ok_def intro: feed_inv feed_slots_from feed_delivery)

interpretation df_release: total_machine "feed False" df_ok delivery_ok
proof unfold_locales
  fix H d m assume "df_ok H d"
  show "feed False d m \<noteq> None"
    using feed_cases [of m False d] by cases (auto simp: feed_store_eq split: prod.splits)
qed

lemma df_ok_default: "df_ok [] defragger_default"
  by (simp add: df_ok_def df_inv_def defragger_default_def slots_ok_def slots_from_def)

section \<open>After a completed packet\<close>

text \<open>
  A defragger that has delivered a packet of \<open>n\<close> fragments with id \<open>p\<close> and then stored the first
  \<open>k\<close> fragments of another one with the same id and count.
\<close>

definition blocked :: "nat \<Rightarrow> u16 \<Rightarrow> nat \<Rightarrow> defragger \<Rightarrow> bool" where
  "blocked n p k d \<longleftrightarrow> pkt_id d = p \<and> length (frags d) = n \<and>
     (\<forall>i < n. k \<le> i \<longrightarrow> frags d ! i = None) \<and> df_count d = of_nat (n + k)"

lemma feed_blocked:
  assumes "frag_family h n p" and "blocked n p k d" and "k < n"
  shows "feed ovf d (h k) = (if ovf \<and> n + k = 255 then None else Some (stored d (h k), None))"
    and "blocked n p (Suc k) (stored d (h k))"
proof -
  note u = family_unat [OF assms(1,3)]
  have n: "n \<le> 255" using assms(1) by (simp add: frag_family_def)
  have b: "packet_id (h k) = pkt_id d" "unat (frag_count (h k)) = length (frags d)"
    "frags d ! unat (frag_id (h k)) = None" "df_count d = of_nat (n + k)" "length (frags d) = n"
    using assms(2,3) u by (auto simp: blocked_def)
  have "df_count d = 255 \<longleftrightarrow> (n + k) mod 256 = 255"
    by (simp only: b(4) word_unat_eq_iff unsigned_of_nat) (simp add: take_bit_eq_mod)
  then have c: "df_count d = 255 \<longleftrightarrow> n + k = 255" using n assms(3) mod_add_self2 [of "n + k - 256" 256]
    by (cases "n + k < 256") auto
  have "df_count (stored d (h k)) = of_nat (n + Suc k)" by (simp add: stored_def b(4))
  then have s: "unat (df_count (stored d (h k))) \<noteq> n"
    using mod_256_neq [of n "Suc k"] n assms(3)
    by (simp only: unsigned_of_nat) (simp add: take_bit_eq_mod)
  show "feed ovf d (h k) = (if ovf \<and> n + k = 255 then None else Some (stored d (h k), None))"
    using feed_store_eq [OF _ _ b(1-3), of ovf] u(4,5) s c by (simp add: b(5) not_le)
  show "blocked n p (Suc k) (stored d (h k))"
    using assms(2) u(1) by (auto simp: blocked_def stored_def)
qed

lemma feed_all_blocked:
  assumes "frag_family h n p" and "blocked n p 0 d" and "k \<le> n" and "\<not> ovf \<or> n + k \<le> 255"
  shows "\<exists>d'. feed_all ovf d (map h [0..<k]) = Some (d', replicate k None) \<and> blocked n p k d'"
  using assms(3,4)
proof (induction k)
  case 0
  then show ?case using assms(2) by simp
next
  case (Suc k)
  then obtain d' where d': "feed_all ovf d (map h [0..<k]) = Some (d', replicate k None)" "blocked n p k d'"
    by auto
  with feed_blocked [OF assms(1) d'(2)] Suc.prems show ?case
    by (auto simp: run_steps_append replicate_append_same)
qed

lemma feed_all_blocked_panic:
  assumes "frag_family h n p" and "blocked n p 0 d" and "128 \<le> n"
  shows "feed_all True d (map h [0..<n]) = None"
proof -
  let ?k = "255 - n"
  have n: "n \<le> 255" "?k < n" using assms(1,3) by (auto simp: frag_family_def)
  then obtain d' where d': "feed_all True d (map h [0..<?k]) = Some (d', replicate ?k None)" "blocked n p ?k d'"
    using feed_all_blocked [OF assms(1,2), of ?k True] by auto
  have "feed True d' (h ?k) = None" using feed_blocked(1) [OF assms(1) d'(2) n(2), of True] n by simp
  moreover have "[0..<n] = [0..<?k] @ ?k # [Suc ?k..<n]"
    using n upt_add_eq_append [of 0 ?k "n - ?k"] by (simp add: upt_conv_Cons)
  ultimately show ?thesis by (simp add: run_steps_append d'(1))
qed

section \<open>Properties\<close>

text \<open>
  C27. When a message needs at most 255 fragments, fragmentation returns exactly the fragments
  it announces: numbered from 0 in order, each with the total, none empty and none larger than
  the limit on the wire, with the session, packet and address of the message, and their
  payloads concatenate to its payload.
\<close>

theorem frag_respects_limit:
  assumes "header_size m < max_size" and "max_size < msg_size m"
    and "div_ceil (length (data m)) (max_size - header_size m) \<le> 255"
  shows "\<exists>fs. frag_udp_message ovf m max_size = Some fs \<and>
    2 \<le> length fs \<and> length fs \<le> 255 \<and> map (unat \<circ> frag_id) fs = [0..<length fs] \<and>
    (\<forall>f\<in>set fs. msg_size f \<le> max_size \<and> data f \<noteq> [] \<and> unat (frag_count f) = length fs \<and>
       session_id f = session_id m \<and> packet_id f = packet_id m \<and> addr f = addr m) \<and>
    concat (map data fs) = data m"
proof -
  let ?p = "max_size - header_size m"
  let ?n = "div_ceil (length (data m)) ?p"
  let ?fs = "map (fragment m ?p ?n) [0..<?n]"
  have p: "0 < ?p" using assms(1) by simp
  have "length (data m) \<le> ?n * ?p" using div_ceil_le_iff [OF p] by blast
  then have "concat (map data ?fs) = data m"
    using concat_chunks [of "data m" ?n ?p] by (simp add: fragment_def comp_def)
  moreover have "map (unat \<circ> frag_id) ?fs = [0..<?n]"
    using assms(3) by (intro nth_equalityI) (simp_all add: fragment_def unsigned_of_nat take_bit_nat_eq_self)
  moreover have "\<forall>f\<in>set ?fs. msg_size f \<le> max_size \<and> data f \<noteq> [] \<and> unat (frag_count f) = ?n \<and>
       session_id f = session_id m \<and> packet_id f = packet_id m \<and> addr f = addr m"
    using fragment_size [of m ?p ?n] fragment_nonempty [OF p, of _ m ?n] assms(1,3)
    by (auto simp: fragment_def unsigned_of_nat take_bit_nat_eq_self)
  moreover have "frag_udp_message ovf m max_size = Some ?fs"
    using frag_udp_message_eq [OF assms(2,1), of ovf] assms(3) by auto
  ultimately show ?thesis
    using fragment_count_range [OF assms(2,1)] assms(3) by (intro exI [of _ ?fs]) simp
qed

theorem frag_respects_limit_witness:
  "\<exists>fs. frag_udp_message True \<lparr>session_id = 1, packet_id = 9, frag_id = 0, frag_count = 1,
       addr = str ''a:1'', data = [1, 2, 3, 4, 5]\<rparr> 14 = Some fs \<and> length fs = 3 \<and>
     concat (map data fs) = [1, 2, 3, 4, 5]"
proof -
  let ?m = "\<lparr>session_id = 1, packet_id = 9, frag_id = 0, frag_count = 1,
       addr = str ''a:1'', data = [1, 2, 3, 4, 5]\<rparr>"
  have h: "header_size ?m < 14" "14 < msg_size ?m"
    "div_ceil (length (data ?m)) (14 - header_size ?m) \<le> 255" by code_simp+
  obtain fs where fs: "frag_udp_message True ?m 14 = Some fs" "concat (map data fs) = [1, 2, 3, 4, 5]"
    using frag_respects_limit [OF h, of True] by auto
  moreover have "map_option length (frag_udp_message True ?m 14) = Some 3" by code_simp
  ultimately show ?thesis by auto
qed

text \<open>
  C1. Fragments of one message reassemble in any order and with any repetitions: fed to a
  defragger that is not already on a packet of that id and count, nothing is returned until
  every fragment has arrived at least once, and the call that brings in the last missing one
  returns the original message, marked unfragmented.
\<close>

theorem frag_defrag_roundtrip:
  assumes "header_size m < max_size" and "max_size < msg_size m"
    and "frag_udp_message ovf m max_size = Some fs" and "length fs \<le> 255"
    and "pkt_id d \<noteq> packet_id m \<or> length (frags d) \<noteq> length fs"
    and "set js \<subset> {..<length fs}" and "insert j (set js) = {..<length fs}"
  shows "\<exists>d'. feed_all ovf d (map (nth fs) (js @ [j])) =
    Some (d', replicate (length js) None @ [Some (m\<lparr>frag_id := 0, frag_count := 1\<rparr>)])"
  by (rule fragments_any_order [OF assms])

theorem frag_defrag_roundtrip_witness:
  "\<exists>fs d'. frag_udp_message False \<lparr>session_id = 1, packet_id = 9, frag_id = 0, frag_count = 1,
       addr = str ''a:1'', data = [1, 2, 3, 4, 5]\<rparr> 14 = Some fs \<and>
     feed_all False defragger_default (map (nth fs) [2, 0, 2, 1]) =
       Some (d', [None, None, None, Some \<lparr>session_id = 1, packet_id = 9, frag_id = 0,
         frag_count = 1, addr = str ''a:1'', data = [1, 2, 3, 4, 5]\<rparr>])"
proof -
  let ?m = "\<lparr>session_id = 1, packet_id = 9, frag_id = 0, frag_count = 1,
       addr = str ''a:1'', data = [1, 2, 3, 4, 5]\<rparr>"
  have h: "header_size ?m < 14" "14 < msg_size ?m" by code_simp+
  have "map_option length (frag_udp_message False ?m 14) = Some 3" by code_simp
  then obtain fs where fs: "frag_udp_message False ?m 14 = Some fs" "length fs = 3" by auto
  have "\<exists>d'. feed_all False defragger_default (map (nth fs) ([2, 0, 2] @ [1])) =
      Some (d', replicate (length [2, 0, 2 :: nat]) None @ [Some (?m\<lparr>frag_id := 0, frag_count := 1\<rparr>)])"
  proof (rule frag_defrag_roundtrip [OF h fs(1)])
    show "length fs \<le> 255" using fs(2) by simp
    show "pkt_id defragger_default \<noteq> packet_id ?m \<or> length (frags defragger_default) \<noteq> length fs"
      by (simp add: defragger_default_def)
    have "{..<length fs} = {0, 1, 2}" using fs(2) by (auto simp: less_Suc_eq numeral_3_eq_3)
    moreover have "set [2, 0, 2 :: nat] = {0, 2}" "(1 :: nat) \<notin> {0, 2}" by auto
    ultimately show "set [2, 0, 2] \<subset> {..<length fs}" "insert 1 (set [2, 0, 2]) = {..<length fs}"
      by (blast, simp only:, blast)
  qed
  then show ?thesis using fs by simp
qed

text \<open>
  The fragment counter is 8 bits wide. A message that needs more than 255 fragments makes
  a build with overflow checks panic; without them the fragments are sent with a truncated
  total, and at 256 fragments that total is 0, so that a receiver hands each fragment on as if
  it were a whole datagram.
\<close>

theorem frag_counter_overflow:
  assumes "header_size m < max_size" and "max_size < msg_size m"
    and "255 < div_ceil (length (data m)) (max_size - header_size m)"
  shows "frag_udp_message True m max_size = None \<and>
    (\<exists>fs. frag_udp_message False m max_size = Some fs \<and>
       length fs = div_ceil (length (data m)) (max_size - header_size m) \<and>
       (\<forall>f\<in>set fs. frag_count f = of_nat (length fs)) \<and>
       (length fs = 256 \<longrightarrow> (\<forall>f\<in>set fs. \<forall>ovf d. feed ovf d f = Some (d, Some f))))"
proof -
  let ?p = "max_size - header_size m"
  let ?n = "div_ceil (length (data m)) ?p"
  let ?fs = "map (fragment m ?p ?n) [0..<?n]"
  have "frag_udp_message True m max_size = None" "frag_udp_message False m max_size = Some ?fs"
    using frag_udp_message_eq [OF assms(2,1)] assms(3) by auto
  moreover have "\<forall>f\<in>set ?fs. frag_count f = of_nat ?n" by (auto simp: fragment_def)
  moreover have "feed ovf d f = Some (d, Some f)" if "?n = 256" "f \<in> set ?fs" for ovf d f
  proof -
    have "frag_count f = of_nat 256" using that by (auto simp: fragment_def)
    moreover have "(of_nat 256 :: u8) = 0" by code_simp
    ultimately have "frag_count f = 0" by metis
    then show ?thesis by (simp add: feed_def)
  qed
  ultimately show ?thesis by (intro conjI exI [of _ ?fs]) auto
qed

theorem frag_counter_overflow_witness:
  "frag_udp_message True \<lparr>session_id = 1, packet_id = 9, frag_id = 0, frag_count = 1,
       addr = str ''a:1'', data = replicate 256 7\<rparr> 13 = None"
proof -
  let ?m = "\<lparr>session_id = 1, packet_id = 9, frag_id = 0, frag_count = 1,
       addr = str ''a:1'', data = replicate 256 7\<rparr>"
  have h: "header_size ?m = 12" by code_simp
  have "header_size ?m < 13" "13 < msg_size ?m" "255 < div_ceil (length (data ?m)) (13 - header_size ?m)"
    using h by (simp_all add: msg_size_def div_ceil_def)
  from frag_counter_overflow [OF this] show ?thesis by blast
qed

text \<open>
  C4. The defragger is safe on any sequence of messages a server may send. In any build its
  invariant holds throughout and whatever it delivers is either the message just fed, which
  was not fragmented, or the join, in order, of a complete set of fragments of the packet just
  fed, all of them messages fed so far and the last one among them. Without overflow checks
  no call panics.
\<close>

theorem defragger_safe:
  "(\<exists>d' rs. feed_all False defragger_default ms = Some (d', rs)) \<and>
   (\<forall>ovf d' rs. feed_all ovf defragger_default ms = Some (d', rs) \<longrightarrow>
      length rs = length ms \<and> df_inv d' \<and>
      (\<forall>k < length ms. delivery_ok (take k ms) (ms ! k) (rs ! k)))"
proof (intro conjI allI impI)
  show "\<exists>d' rs. feed_all False defragger_default ms = Some (d', rs)"
    by (rule df_release.run_total [OF df_ok_default])
next
  fix ovf d' rs assume r: "feed_all ovf defragger_default ms = Some (d', rs)"
  note inv = df.run_invariant [OF df_ok_default r]
  show "length rs = length ms" by (rule run_steps_length [OF r])
  show "df_inv d'" using inv by (simp add: df_ok_def)
  show "delivery_ok (take k ms) (ms ! k) (rs ! k)" if "k < length ms" for k using inv that by simp
qed

theorem defragger_safe_witness:
  "\<exists>d'. feed_all True defragger_default
      [\<lparr>session_id = 1, packet_id = 9, frag_id = 1, frag_count = 2, addr = [], data = [5]\<rparr>,
       \<lparr>session_id = 1, packet_id = 9, frag_id = 0, frag_count = 2, addr = [], data = [4]\<rparr>] =
      Some (d', [None, Some \<lparr>session_id = 1, packet_id = 9, frag_id = 0, frag_count = 1,
        addr = [], data = [4, 5]\<rparr>]) \<and> df_inv d'"
proof -
  let ?ms = "[\<lparr>session_id = 1, packet_id = 9, frag_id = 1, frag_count = 2, addr = [], data = [5]\<rparr>,
       \<lparr>session_id = 1, packet_id = 9, frag_id = 0, frag_count = 2, addr = [], data = [4]\<rparr>]"
  have "map_option snd (feed_all True defragger_default ?ms) =
      Some [None, Some \<lparr>session_id = 1, packet_id = 9, frag_id = 0, frag_count = 1,
        addr = [], data = [4, 5]\<rparr>]" by code_simp
  then obtain d' rs where r: "feed_all True defragger_default ?ms = Some (d', rs)"
    "rs = [None, Some \<lparr>session_id = 1, packet_id = 9, frag_id = 0, frag_count = 1,
        addr = [], data = [4, 5]\<rparr>]" by auto
  moreover have "df_inv d'" using defragger_safe [of ?ms] r(1) by blast
  ultimately show ?thesis by blast
qed

text \<open>
  C40. Completing a packet empties the slots but keeps the packet id, the slot count and the
  fragment counter. A second packet with the same id and fragment count is therefore not seen
  as new: its first \<open>n - 1\<close> fragments are stored, and the last one does not deliver it either;
  where the counter passes 255 on the way, a build with overflow checks panics.
\<close>

theorem completed_packet_blocks_its_id:
  assumes "frag_family g n p" and "frag_family h n p" and "pkt_id d \<noteq> p \<or> length (frags d) \<noteq> n"
  shows "(\<exists>d'. feed_all False d (map g [0..<n] @ map h [0..<n]) =
      Some (d', replicate (n - 1) None @ [Some (joined g n)] @ replicate n None)) \<and>
    (128 \<le> n \<longrightarrow> feed_all True d (map g [0..<n] @ map h [0..<n]) = None)"
proof -
  let ?d = "(holding g n p {..<n})\<lparr>frags := replicate n None\<rparr>"
  have g: "feed_all ovf d (map g [0..<n]) = Some (?d, replicate (n - 1) None @ [Some (joined g n)])" for ovf
    by (rule feed_all_in_order [OF assms(1,3)])
  have b: "blocked n p 0 ?d" by (simp add: blocked_def)
  show ?thesis
    using feed_all_blocked [OF assms(2) b, of n False] feed_all_blocked_panic [OF assms(2) b]
    by (auto simp: run_steps_append g)
qed

theorem completed_packet_blocks_its_id_witness:
  "\<exists>d'. feed_all False defragger_default
     (map (\<lambda>i. \<lparr>session_id = 1, packet_id = 9, frag_id = of_nat i, frag_count = 2, addr = [], data = [4]\<rparr>) [0..<2] @
      map (\<lambda>i. \<lparr>session_id = 1, packet_id = 9, frag_id = of_nat i, frag_count = 2, addr = [], data = [5]\<rparr>) [0..<2]) =
     Some (d', [None, Some \<lparr>session_id = 1, packet_id = 9, frag_id = 0, frag_count = 1, addr = [], data = [4, 4]\<rparr>,
       None, None])"
proof -
  let ?f = "\<lambda>b :: u8. \<lambda>i. \<lparr>session_id = 1, packet_id = 9, frag_id = of_nat i, frag_count = 2, addr = [], data = [b]\<rparr>"
  have "frag_family (?f 4) 2 9" "frag_family (?f 5) 2 9" by (auto simp: frag_family_def)
  from completed_packet_blocks_its_id [OF this, of defragger_default]
  obtain d' where "feed_all False defragger_default (map (?f 4) [0..<2] @ map (?f 5) [0..<2]) =
      Some (d', replicate (2 - 1) None @ [Some (joined (?f 4) 2)] @ replicate 2 None)"
    by (auto simp: defragger_default_def)
  moreover have "joined (?f 4) 2 = \<lparr>session_id = 1, packet_id = 9, frag_id = 0, frag_count = 1, addr = [], data = [4, 4]\<rparr>"
    by (simp add: joined_def upt_rec)
  ultimately show ?thesis by (simp add: numeral_2_eq_2)
qed

end
