(* ===== verification/Rs_Io.thy ===== *)
theory Rs_Io
  imports Rs_Str
begin

text \<open>
  The vocabulary of the asynchronous code: polls, I/O errors and the crate's error type
  (\<^verbatim>\<open>src/src/error.rs\<close>).

  An error of another crate (rustls, quinn, h3) is carried along, never inspected: its payload
  here is the text it prints as. The \<open>io::ErrorKind\<close> values are the ones the sources
  construct or test; any other kind, which only the operating system or another crate
  produces, is \<open>OtherKind\<close> with its number.
\<close>

datatype 'a poll = Pending | Ready 'a

datatype error_kind =
    ConnectionRefused | InvalidData | UnexpectedEof | InvalidInput | WouldBlock | Other
  | OtherKind nat

datatype io_error = io_error_new (io_kind: error_kind) (io_message: bytes)

type_synonym 'a io_result = "io_error + 'a"

datatype error =
    Io io_error
  | Config bytes
  | Tls bytes
  | Connect bytes
  | Connection bytes
  | H3Connection bytes
  | H3Stream bytes
  | AuthFailed u16
  | TcpRejected bytes
  | Protocol bytes

type_synonym 'a rs_result = "error + 'a"

text \<open>\<open>Result::map_err\<close>, the \<open>?\<close> operator's chaining, and \<open>Poll::map_err\<close>.\<close>

definition map_err :: "('e \<Rightarrow> 'f) \<Rightarrow> 'e + 'a \<Rightarrow> 'f + 'a" where
  "map_err f r = (case r of Inl e \<Rightarrow> Inl (f e) | Inr a \<Rightarrow> Inr a)"

definition poll_map_err :: "('e \<Rightarrow> 'f) \<Rightarrow> ('e + 'a) poll \<Rightarrow> ('f + 'a) poll" where
  "poll_map_err f p = (case p of Pending \<Rightarrow> Pending | Ready r \<Rightarrow> Ready (map_err f r))"

definition and_then :: "'e + 'a \<Rightarrow> ('a \<Rightarrow> 'e + 'b) \<Rightarrow> 'e + 'b" where
  "and_then r f = (case r of Inl e \<Rightarrow> Inl e | Inr a \<Rightarrow> f a)"

text \<open>\<open>Option::ok_or_else\<close>.\<close>

definition ok_or :: "'e \<Rightarrow> 'a option \<Rightarrow> 'e + 'a" where
  "ok_or e r = (case r of None \<Rightarrow> Inl e | Some a \<Rightarrow> Inr a)"

lemma map_err_simps [simp]: "map_err f (Inl e) = Inl (f e)" "map_err f (Inr a) = Inr a"
  by (simp_all add: map_err_def)

lemma poll_map_err_simps [simp]:
  "poll_map_err f Pending = Pending" "poll_map_err f (Ready r) = Ready (map_err f r)"
  by (simp_all add: poll_map_err_def)

lemma and_then_simps [simp]: "and_then (Inl e) f = Inl e" "and_then (Inr a) f = f a"
  by (simp_all add: and_then_def)

lemma and_then_Inr_iff: "and_then r f = Inr b \<longleftrightarrow> (\<exists>a. r = Inr a \<and> f a = Inr b)"
  by (cases r) auto

lemma ok_or_simps [simp]: "ok_or e None = Inl e" "ok_or e (Some a) = Inr a"
  by (simp_all add: ok_or_def)

lemma ok_or_Inr_iff: "ok_or e r = Inr a \<longleftrightarrow> r = Some a"
  by (cases r) auto

lemma map_err_Inr_iff: "map_err f r = Inr a \<longleftrightarrow> r = Inr a"
  by (cases r) auto

section \<open>Actions\<close>

text \<open>
  An asynchronous function that changes the world outside is a function on its state \<open>'n\<close>. The
  result is \<open>None\<close> when it panics or an \<open>await\<close> never completes. \<open>act_bind\<close> is \<open>let x = m.await?\<close>.
\<close>

type_synonym ('n, 'a) act = "'n \<Rightarrow> ('n \<times> 'a rs_result) run"

definition act_bind :: "('n, 'a) act \<Rightarrow> ('a \<Rightarrow> ('n, 'b) act) \<Rightarrow> ('n, 'b) act" where
  "act_bind m f = (\<lambda>n. case m n of
     None \<Rightarrow> None
   | Some (n, Inl e) \<Rightarrow> Some (n, Inl e)
   | Some (n, Inr a) \<Rightarrow> f a n)"

text \<open>A pure result, a pure computation that may panic, and a call into another crate.\<close>

definition act_of :: "'a rs_result \<Rightarrow> ('n, 'a) act" where
  "act_of r = (\<lambda>n. Some (n, r))"

definition act_run :: "'a rs_result run \<Rightarrow> ('n, 'a) act" where
  "act_run r = (\<lambda>n. case r of None \<Rightarrow> None | Some r \<Rightarrow> Some (n, r))"

definition act_call :: "('e \<Rightarrow> error) \<Rightarrow> ('n \<Rightarrow> 'n \<times> ('e + 'a)) \<Rightarrow> ('n, 'a) act" where
  "act_call conv c = (\<lambda>n. case c n of (n, r) \<Rightarrow> Some (n, map_err conv r))"

lemma act_bind_Inr_iff:
  "act_bind m f n = Some (n', Inr b) \<longleftrightarrow> (\<exists>n1 a. m n = Some (n1, Inr a) \<and> f a n1 = Some (n', Inr b))"
  by (auto simp: act_bind_def split: option.splits sum.splits prod.splits)

lemma act_bind_Inr: "m n = Some (n1, Inr a) \<Longrightarrow> act_bind m f n = f a n1"
  by (simp add: act_bind_def)

lemma act_bind_Inl: "m n = Some (n1, Inl e) \<Longrightarrow> act_bind m f n = Some (n1, Inl e)"
  by (simp add: act_bind_def)

lemma act_of_simps [simp]:
  "act_bind (act_of (Inr a)) f = f a" "act_bind (act_of (Inl e)) f = act_of (Inl e)" "act_of r n = Some (n, r)"
  by (simp_all add: act_bind_def act_of_def fun_eq_iff)

lemma act_run_simps [simp]: "act_run (Some r) = act_of r" "act_run None n = None"
  by (simp_all add: act_run_def act_of_def fun_eq_iff)

lemma act_run_Inr_iff: "act_run r n = Some (n', Inr a) \<longleftrightarrow> n' = n \<and> r = Some (Inr a)"
  by (auto simp: act_run_def split: option.splits)

lemma act_of_Inr_iff: "act_of r n = Some (n', Inr a) \<longleftrightarrow> n' = n \<and> r = Inr a"
  by auto

lemma act_call_Inr_iff: "act_call conv c n = Some (n', Inr a) \<longleftrightarrow> c n = (n', Inr a)"
  by (cases "c n") (auto simp: act_call_def map_err_Inr_iff)

text \<open>Actions that return from every state.\<close>

definition act_total :: "('n, 'a) act \<Rightarrow> bool" where
  "act_total m \<longleftrightarrow> (\<forall>n. m n \<noteq> None)"

lemma act_total_bind: "act_total m \<Longrightarrow> (\<And>a. act_total (f a)) \<Longrightarrow> act_total (act_bind m f)"
  by (fastforce simp: act_total_def act_bind_def split: option.splits sum.splits)

lemma act_total_simps [simp]:
  "act_total (\<lambda>n. Some (g n))" "act_total (act_of r)" "act_total (act_call conv c)" "act_total (act_run p) \<longleftrightarrow> p \<noteq> None"
  by (auto simp: act_total_def act_of_def act_call_def act_run_def split: prod.splits option.splits)

lemmas act_Inr_iff = act_bind_Inr_iff act_run_Inr_iff act_of_Inr_iff act_call_Inr_iff

end
