(* ===== verification/Duplex_Stream.thy ===== *)
theory Duplex_Stream
  imports Tcp_Frame Rs_Io Step_Machine
begin

text \<open>
  A proxied TCP connection, \<^verbatim>\<open>src/src/stream.rs\<close>: the lazily parsed response
  header (\<open>poll_establish\<close>), the three phases of \<open>poll_read\<close>, and the write side.

  The two halves of the QUIC stream belong to quinn. They are parameters: \<open>rd r cap\<close> is
  \<open>RecvStream::poll_read\<close> on the stream state \<open>r\<close> into a buffer with \<open>cap\<close> free bytes, with the
  bytes it put there; the locale \<open>recv_stream\<close> says what is relied on.
\<close>

section \<open>The code\<close>

record ('s, 'r) duplex_stream =
  send :: 's
  recv :: 'r
  response_done :: bool
  scratch :: bytes
  leftover :: bytes
  leftover_pos :: nat

type_synonym 'r reader = "'r \<Rightarrow> nat \<Rightarrow> 'r \<times> bytes io_result poll"

definition duplex_new :: "'s \<Rightarrow> 'r \<Rightarrow> ('s, 'r) duplex_stream" where
  "duplex_new s r =
     \<lparr>send = s, recv = r, response_done = False, scratch = [], leftover = [], leftover_pos = 0\<rparr>"

definition err_rejected :: io_error where
  "err_rejected = io_error_new ConnectionRefused (str ''hysteria2: server rejected tcp_connect'')"

definition err_malformed :: io_error where
  "err_malformed =
     io_error_new InvalidData (str ''hysteria2: malformed TCPResponse (length guard exceeded)'')"

definition err_closed :: io_error where
  "err_closed = io_error_new UnexpectedEof (str ''hysteria2: stream closed before TCPResponse'')"

text \<open>\<open>Vec::split_off\<close>: the tail; panics past the end.\<close>

definition split_off :: "'a list \<Rightarrow> nat \<Rightarrow> 'a list run" where
  "split_off xs n = (if n \<le> length xs then Some (drop n xs) else None)"

function poll_establish ::
    "'r reader \<Rightarrow> ('s, 'r) duplex_stream \<Rightarrow> (('s, 'r) duplex_stream \<times> unit io_result poll) run" where
  "poll_establish rd me =
     (if response_done me then Some (me, Ready (Inr ()))
      else (case parse_tcp_response (scratch me) of
        Done ok consumed \<Rightarrow>
          if \<not> ok then Some (me, Ready (Inl err_rejected))
          else do {
            tail \<leftarrow> split_off (scratch me) consumed;
            let me = me\<lparr>leftover := tail\<rparr>;
            let me = me\<lparr>scratch := []\<rparr>;
            let me = me\<lparr>response_done := True\<rparr>;
            Some (me, Ready (Inr ())) }
      | Invalid \<Rightarrow> Some (me, Ready (Inl err_malformed))
      | NeedMore \<Rightarrow>
          (case rd (recv me) 512 of
             (r, Ready (Inr filled)) \<Rightarrow>
               if filled = [] then Some (me\<lparr>recv := r\<rparr>, Ready (Inl err_closed))
               else poll_establish rd (me\<lparr>recv := r, scratch := scratch me @ filled\<rparr>)
           | (r, Ready (Inl e)) \<Rightarrow> Some (me\<lparr>recv := r\<rparr>, Ready (Inl e))
           | (r, Pending) \<Rightarrow> Some (me\<lparr>recv := r\<rparr>, Pending))))"
  by pat_completeness auto
termination
proof (relation "measure (\<lambda>(rd, me). 6161 - length (scratch me))", goal_cases)
  case (2 rd me r p a filled)
  then have "length (scratch me) < 6161" using parse_tcp_response_NeedMore_bound by auto
  with 2 show ?case by (cases filled) auto
qed simp

declare poll_establish.simps [simp del]

text \<open>\<open>establish\<close> awaits the poll function: it is polled again after every \<open>Pending\<close>.\<close>

partial_function (option) establish ::
    "'r reader \<Rightarrow> ('s, 'r) duplex_stream \<Rightarrow> (('s, 'r) duplex_stream \<times> unit io_result) option" where
  "establish rd me = do {
     (me, p) \<leftarrow> poll_establish rd me;
     (case p of Pending \<Rightarrow> establish rd me | Ready r \<Rightarrow> Some (me, r)) }"

text \<open>\<open>poll_read\<close> into a buffer with \<open>cap\<close> free bytes; the result carries the bytes put there.\<close>

definition poll_read ::
    "'r reader \<Rightarrow> ('s, 'r) duplex_stream \<Rightarrow> nat \<Rightarrow> (('s, 'r) duplex_stream \<times> bytes io_result poll) run" where
  "poll_read rd me cap = do {
     (me, p) \<leftarrow> (if \<not> response_done me then poll_establish rd me else Some (me, Ready (Inr ())));
     (case p of
        Ready (Inl e) \<Rightarrow> Some (me, Ready (Inl e))
      | Pending \<Rightarrow> Some (me, Pending)
      | Ready (Inr _) \<Rightarrow>
          if leftover_pos me < length (leftover me) then do {
            rest \<leftarrow> subslice (leftover me) (leftover_pos me) (length (leftover me));
            let n = min (length rest) cap;
            out \<leftarrow> subslice rest 0 n;
            Some (me\<lparr>leftover_pos := leftover_pos me + n\<rparr>, Ready (Inr out)) }
          else (case rd (recv me) cap of (r, q) \<Rightarrow> Some (me\<lparr>recv := r\<rparr>, q))) }"

text \<open>The write side passes through; write errors are wrapped by \<open>io::Error::other\<close>.\<close>

definition poll_write ::
    "('s \<Rightarrow> bytes \<Rightarrow> 's \<times> (bytes + nat) poll) \<Rightarrow> ('s, 'r) duplex_stream \<Rightarrow> bytes \<Rightarrow>
     ('s, 'r) duplex_stream \<times> nat io_result poll" where
  "poll_write wr me buf =
     (case wr (send me) buf of (s, p) \<Rightarrow> (me\<lparr>send := s\<rparr>, poll_map_err (io_error_new Other) p))"

definition poll_flush ::
    "('s \<Rightarrow> 's \<times> unit io_result poll) \<Rightarrow> ('s, 'r) duplex_stream \<Rightarrow>
     ('s, 'r) duplex_stream \<times> unit io_result poll" where
  "poll_flush fl me = (case fl (send me) of (s, p) \<Rightarrow> (me\<lparr>send := s\<rparr>, p))"

definition poll_shutdown ::
    "('s \<Rightarrow> 's \<times> unit io_result poll) \<Rightarrow> ('s, 'r) duplex_stream \<Rightarrow>
     ('s, 'r) duplex_stream \<times> unit io_result poll" where
  "poll_shutdown sh me = (case sh (send me) of (s, p) \<Rightarrow> (me\<lparr>send := s\<rparr>, p))"

section \<open>What the stream is about\<close>

text \<open>The application bytes a sequence of reads returned.\<close>

definition read_bytes :: "bytes io_result poll \<Rightarrow> bytes" where
  "read_bytes p = (case p of Ready (Inr bs) \<Rightarrow> bs | _ \<Rightarrow> [])"

definition delivered :: "bytes io_result poll list \<Rightarrow> bytes" where
  "delivered ps = concat (map read_bytes ps)"

text \<open>
  With \<open>rest r\<close> the bytes the peer has sent or will send and \<open>r\<close> has not handed out yet:
  everything the stream still holds before the header is stripped, and the application bytes
  it still owes.
\<close>

definition whole :: "('r \<Rightarrow> bytes) \<Rightarrow> ('s, 'r) duplex_stream \<Rightarrow> bytes" where
  "whole rest me = scratch me @ rest (recv me)"

definition app_left :: "('r \<Rightarrow> bytes) \<Rightarrow> ('s, 'r) duplex_stream \<Rightarrow> bytes" where
  "app_left rest me =
     (if response_done me then drop (leftover_pos me) (leftover me) @ rest (recv me)
      else (case parse_tcp_response (whole rest me) of
              Done ok h \<Rightarrow> drop h (whole rest me) | _ \<Rightarrow> []))"

text \<open>A stream whose header has been accepted, or will be once it has arrived.\<close>

definition ds_ok :: "('r \<Rightarrow> bytes) \<Rightarrow> ('s, 'r) duplex_stream \<Rightarrow> bool" where
  "ds_ok rest me \<longleftrightarrow>
     (if response_done me then leftover_pos me \<le> length (leftover me)
      else leftover_pos me = 0 \<and> (\<exists>h. parse_tcp_response (whole rest me) = Done True h))"

text \<open>The stream states that reads lead to, and the errors met on the way.\<close>

definition reads_to :: "'r reader \<Rightarrow> 'r \<Rightarrow> 'r \<Rightarrow> bool" where
  "reads_to rd = rtranclp (\<lambda>a b. \<exists>cap. b = fst (rd a cap))"

definition fails_with :: "'r reader \<Rightarrow> 'r \<Rightarrow> io_error \<Rightarrow> bool" where
  "fails_with rd r e \<longleftrightarrow> (\<exists>r1 cap r2. reads_to rd r r1 \<and> rd r1 cap = (r2, Ready (Inl e)))"

text \<open>
  How a poll of the header can end: established with the header cut off, or still waiting with
  nothing lost, each answer being the parser's answer on the whole stream.
\<close>

definition establish_ends ::
    "'r reader \<Rightarrow> ('r \<Rightarrow> bytes) \<Rightarrow> ('s, 'r) duplex_stream \<Rightarrow> ('s, 'r) duplex_stream \<Rightarrow>
     unit io_result poll \<Rightarrow> bool" where
  "establish_ends rd rest me me' p \<longleftrightarrow>
     leftover_pos me' = leftover_pos me \<and> send me' = send me \<and> reads_to rd (recv me) (recv me') \<and>
     (case p of
        Ready (Inr _) \<Rightarrow> response_done me' \<and> scratch me' = [] \<and>
          (\<exists>h. parse_tcp_response (whole rest me) = Done True h \<and>
             leftover me' @ rest (recv me') = drop h (whole rest me))
      | Ready (Inl e) \<Rightarrow> \<not> response_done me' \<and> whole rest me' = whole rest me \<and>
          (e = err_rejected \<and> (\<exists>h. parse_tcp_response (whole rest me) = Done False h) \<or>
           e = err_malformed \<and> parse_tcp_response (whole rest me) = Invalid \<or>
           e = err_closed \<and> parse_tcp_response (whole rest me) = NeedMore \<or>
           fails_with rd (recv me) e)
      | Pending \<Rightarrow> \<not> response_done me' \<and> whole rest me' = whole rest me)"

text \<open>A state in which the header loop makes no further turn.\<close>

definition stops :: "'r reader \<Rightarrow> ('s, 'r) duplex_stream \<Rightarrow> bool" where
  "stops rd me \<longleftrightarrow> response_done me \<or> parse_tcp_response (scratch me) \<noteq> NeedMore \<or>
     (\<forall>r filled. rd (recv me) 512 = (r, Ready (Inr filled)) \<longrightarrow> filled = [])"

text \<open>What a header that does not establish the stream is reported as.\<close>

fun header_error :: "tcp_response_parse \<Rightarrow> io_error option" where
  "header_error (Done True h) = None"
| "header_error (Done False h) = Some err_rejected"
| "header_error Invalid = Some err_malformed"
| "header_error NeedMore = Some err_closed"

text \<open>\<open>\<mu>\<close> bounds how often a stream can still report \<open>Pending\<close>: the peer does not stall forever.\<close>

definition eventually_ready :: "'r reader \<Rightarrow> ('r \<Rightarrow> nat) \<Rightarrow> bool" where
  "eventually_ready rd \<mu> \<longleftrightarrow> (\<forall>r cap. \<mu> (fst (rd r cap)) \<le> \<mu> r \<and>
     (snd (rd r cap) = Pending \<longrightarrow> \<mu> (fst (rd r cap)) < \<mu> r))"

text \<open>
  A receive half that follows a script of arrivals, stalls and failures, and then ends: the
  concrete stream of the witnesses.
\<close>

datatype recv_event = Arrive bytes | Stall | Fail io_error

fun script_read :: "recv_event list reader" where
  "script_read [] cap = ([], Ready (Inr []))"
| "script_read (Stall # es) cap = (es, Pending)"
| "script_read (Fail e # es) cap = (es, Ready (Inl e))"
| "script_read (Arrive bs # es) cap =
     (if bs = [] then script_read es cap
      else (Arrive (drop cap bs) # es, Ready (Inr (take cap bs))))"

fun script_rest :: "recv_event list \<Rightarrow> bytes" where
  "script_rest [] = []"
| "script_rest (Arrive bs # es) = bs @ script_rest es"
| "script_rest (_ # es) = script_rest es"

section \<open>Contracts\<close>

text \<open>
  The receive half of a QUIC stream, as quinn documents it: reads hand out the peer's bytes in
  order and at most as many as fit, a read that waits or fails loses none, and an empty read
  into a non-empty buffer means the end of the stream.
\<close>

locale recv_stream =
  fixes rd :: "'r reader"
    and rest :: "'r \<Rightarrow> bytes"
  assumes rd_bytes: "rd r cap = (r', Ready (Inr bs)) \<Longrightarrow> rest r = bs @ rest r' \<and> length bs \<le> cap"
    and rd_error: "rd r cap = (r', Ready (Inl e)) \<Longrightarrow> rest r' = rest r"
    and rd_pending: "rd r cap = (r', Pending) \<Longrightarrow> rest r' = rest r"
    and rd_eof: "rd r cap = (r', Ready (Inr [])) \<Longrightarrow> 0 < cap \<Longrightarrow> rest r = []"

text \<open>
  A reader of a byte stream that owes the bytes \<open>todo\<close>, in the states \<open>ok\<close>. What follows is
  proved once for it: any sequence of reads hands out a prefix of what is owed and keeps the
  remainder, and an end of stream is only reported once everything has been handed out.
\<close>

locale byte_stream =
  fixes step :: "'t \<Rightarrow> nat \<Rightarrow> ('t \<times> bytes io_result poll) run"
    and todo :: "'t \<Rightarrow> bytes"
    and ok :: "'t \<Rightarrow> bool"
  assumes total: "ok t \<Longrightarrow> \<exists>t' p. step t cap = Some (t', p)"
    and keeps: "ok t \<Longrightarrow> step t cap = Some (t', p) \<Longrightarrow> ok t'"
    and hands_out: "ok t \<Longrightarrow> step t cap = Some (t', p) \<Longrightarrow> todo t = read_bytes p @ todo t'"
    and fits: "ok t \<Longrightarrow> step t cap = Some (t', p) \<Longrightarrow> length (read_bytes p) \<le> cap"
    and ends: "ok t \<Longrightarrow> step t cap = Some (t', Ready (Inr [])) \<Longrightarrow> 0 < cap \<Longrightarrow> todo t = []"
begin

lemma run_reads:
  assumes "ok t"
  shows "\<exists>t' ps. run_steps step t caps = Some (t', ps) \<and> ok t' \<and> todo t = delivered ps @ todo t' \<and>
    list_all2 (\<lambda>cap p. length (read_bytes p) \<le> cap) caps ps \<and>
    ((\<exists>k < length caps. 0 < caps ! k \<and> ps ! k = Ready (Inr [])) \<longrightarrow> delivered ps = todo t)"
  using assms
proof (induction caps arbitrary: t)
  case Nil
  then show ?case by (simp add: delivered_def)
next
  case (Cons cap caps)
  from total [OF Cons.prems, of cap] obtain u p where u: "step t cap = Some (u, p)" by blast
  note k = keeps [OF Cons.prems u] hands_out [OF Cons.prems u] fits [OF Cons.prems u]
  from Cons.IH [OF k(1)] obtain t' ps where t':
    "run_steps step u caps = Some (t', ps)" "ok t'" "todo u = delivered ps @ todo t'"
    "list_all2 (\<lambda>cap p. length (read_bytes p) \<le> cap) caps ps"
    "(\<exists>k < length caps. 0 < caps ! k \<and> ps ! k = Ready (Inr [])) \<longrightarrow> delivered ps = todo u" by blast
  have "delivered (p # ps) = todo t"
    if ex: "\<exists>k < length (cap # caps). 0 < (cap # caps) ! k \<and> (p # ps) ! k = Ready (Inr [])"
  proof -
    from ex obtain j where j: "j < length (cap # caps)" "0 < (cap # caps) ! j" "(p # ps) ! j = Ready (Inr [])"
      by blast
    show ?thesis
    proof (cases j)
      case 0
      with j ends [OF Cons.prems, of cap u] u have "todo t = []" by simp
      then show ?thesis using k(2) t'(3) by (simp add: delivered_def)
    next
      case (Suc i)
      with j t'(5) have "delivered ps = todo u" by auto
      then show ?thesis using k(2) by (simp add: delivered_def)
    qed
  qed
  then show ?case using u t' k by (simp add: delivered_def)
qed

end

section \<open>The header\<close>

lemma read_bytes_simps [simp]:
  "read_bytes Pending = []" "read_bytes (Ready (Inl e)) = []" "read_bytes (Ready (Inr bs)) = bs"
  by (simp_all add: read_bytes_def)

lemma poll_read_continues:
  assumes "\<not> response_done me" and "poll_establish rd me = Some (me', Ready (Inr ()))" and "response_done me'"
  shows "poll_read rd me cap = poll_read rd me' cap"
  using assms by (simp add: poll_read_def)

lemma poll_read_stops:
  assumes "\<not> response_done me" and "poll_establish rd me = Some (me', p)" and "p \<noteq> Ready (Inr ())"
  obtains "p = Pending" "poll_read rd me cap = Some (me', Pending)"
  | e where "p = Ready (Inl e)" "poll_read rd me cap = Some (me', Ready (Inl e))"
proof (cases p)
  case Pending
  then show ?thesis using that assms by (simp add: poll_read_def)
next
  case (Ready r)
  then show ?thesis using that assms by (cases r) (simp_all add: poll_read_def)
qed

text \<open>
  The loop rule of the header loop: what one turn keeps holds in the state in which the loop
  stops, and that state decides the outcome.
\<close>

lemma poll_establish_last:
  assumes "I me"
    and "\<And>me r filled. I me \<Longrightarrow> \<not> response_done me \<Longrightarrow> parse_tcp_response (scratch me) = NeedMore \<Longrightarrow>
      rd (recv me) 512 = (r, Ready (Inr filled)) \<Longrightarrow> filled \<noteq> [] \<Longrightarrow>
      I (me\<lparr>recv := r, scratch := scratch me @ filled\<rparr>)"
  shows "\<exists>me1. I me1 \<and> stops rd me1 \<and> poll_establish rd me = poll_establish rd me1"
  using assms(1)
proof (induction "6161 - length (scratch me)" arbitrary: me rule: less_induct)
  case less
  show ?case
  proof (cases "stops rd me")
    case False
    then obtain r filled where q: "\<not> response_done me" "parse_tcp_response (scratch me) = NeedMore"
      "rd (recv me) 512 = (r, Ready (Inr filled))" "filled \<noteq> []" by (auto simp: stops_def)
    let ?me = "me\<lparr>recv := r, scratch := scratch me @ filled\<rparr>"
    have "length (scratch me) < 6161" by (rule parse_tcp_response_NeedMore_bound [OF q(2)])
    then have "6161 - length (scratch ?me) < 6161 - length (scratch me)" using q(4) by (cases filled) auto
    from less.hyps [OF this assms(2) [OF less.prems q]] q show ?thesis
      by (simp add: poll_establish.simps [of rd me])
  qed (use less.prems in blast)
qed

text \<open>The outcome where the loop stops.\<close>

lemma poll_establish_stops:
  assumes "stops rd me" and "\<not> response_done me"
  shows "poll_establish rd me =
    (case parse_tcp_response (scratch me) of
       Done ok consumed \<Rightarrow>
         if ok then Some (me\<lparr>leftover := drop consumed (scratch me), scratch := [], response_done := True\<rparr>, Ready (Inr ()))
         else Some (me, Ready (Inl err_rejected))
     | Invalid \<Rightarrow> Some (me, Ready (Inl err_malformed))
     | NeedMore \<Rightarrow>
         (case rd (recv me) 512 of
            (r, Ready (Inr filled)) \<Rightarrow> Some (me\<lparr>recv := r\<rparr>, Ready (Inl err_closed))
          | (r, Ready (Inl e)) \<Rightarrow> Some (me\<lparr>recv := r\<rparr>, Ready (Inl e))
          | (r, Pending) \<Rightarrow> Some (me\<lparr>recv := r\<rparr>, Pending)))"
  using assms parse_tcp_response_Done_bound [of "scratch me"]
  by (auto simp: poll_establish.simps [of rd me] split_off_def stops_def
      split: tcp_response_parse.splits prod.splits poll.splits sum.splits)

lemma establish_ends_stopped:
  assumes "\<not> response_done me" and "parse_tcp_response (scratch me) = c" and "c \<noteq> NeedMore"
  shows "parse_tcp_response (whole rest me) = c"
  using assms parse_tcp_response_more [of "scratch me" "rest (recv me)"] by (simp add: whole_def)

lemma reads_to_refl [simp]: "reads_to rd r r"
  by (simp add: reads_to_def)

lemma reads_to_trans: "reads_to rd r r1 \<Longrightarrow> reads_to rd r1 r2 \<Longrightarrow> reads_to rd r r2"
  unfolding reads_to_def by (rule rtranclp_trans)

lemma reads_to_step: "reads_to rd r r1 \<Longrightarrow> rd r1 cap = (r2, p) \<Longrightarrow> reads_to rd r r2"
  unfolding reads_to_def by (erule rtranclp.rtrancl_into_rtrancl) (metis fst_conv)

lemma fails_with_now: "rd r cap = (r2, Ready (Inl e)) \<Longrightarrow> fails_with rd r e"
  unfolding fails_with_def by (metis reads_to_refl)

lemma fails_with_later: "reads_to rd r r1 \<Longrightarrow> fails_with rd r1 e \<Longrightarrow> fails_with rd r e"
  unfolding fails_with_def using reads_to_trans by metis

lemma establish_ends_from:
  assumes "establish_ends rd rest me1 me' p" and "whole rest me1 = whole rest me"
    and "leftover_pos me1 = leftover_pos me" and "send me1 = send me" and "reads_to rd (recv me) (recv me1)"
  shows "establish_ends rd rest me me' p"
  using assms(1) fails_with_later [OF assms(5)] reads_to_trans [OF assms(5)]
  unfolding establish_ends_def assms(2-4) by (auto split: poll.splits sum.splits)

context recv_stream
begin

lemma poll_establish_ends:
  assumes "\<not> response_done me"
  shows "\<exists>me' p. poll_establish rd me = Some (me', p) \<and> establish_ends rd rest me me' p"
proof -
  let ?I = "\<lambda>me1. \<not> response_done me1 \<and> whole rest me1 = whole rest me \<and>
    leftover_pos me1 = leftover_pos me \<and> send me1 = send me \<and> reads_to rd (recv me) (recv me1)"
  obtain me1 where me1: "?I me1" "stops rd me1" "poll_establish rd me = poll_establish rd me1"
    using poll_establish_last [of ?I me rd] assms rd_bytes by (auto simp: whole_def intro: reads_to_step)
  then have nd: "\<not> response_done me1" by simp
  note stop = establish_ends_stopped [OF nd, of _ rest]
  have "\<exists>me' p. poll_establish rd me1 = Some (me', p) \<and> establish_ends rd rest me1 me' p"
  proof (cases "parse_tcp_response (scratch me1)")
    case (Done good consumed)
    then show ?thesis
      using nd me1(2) stop [OF Done] parse_tcp_response_Done_bound [OF Done]
      by (cases good) (simp_all add: poll_establish_stops establish_ends_def whole_def)
  next
    case Invalid
    then show ?thesis using nd me1(2) stop [OF Invalid] by (simp add: poll_establish_stops establish_ends_def)
  next
    case NeedMore
    obtain r q where rq: "rd (recv me1) 512 = (r, q)" by fastforce
    consider "q = Pending" | e where "q = Ready (Inl e)" | filled where "q = Ready (Inr filled)"
      by (metis poll.exhaust sum.exhaust_sel)
    then show ?thesis
    proof cases
      case 3
      then have "filled = []" using me1(2) nd NeedMore rq by (simp add: stops_def)
      then show ?thesis using 3 nd me1(2) NeedMore rq rd_eof [of "recv me1" 512] rd_bytes [of "recv me1" 512]
          reads_to_step [of rd "recv me1" "recv me1", OF reads_to_refl rq]
        by (simp add: poll_establish_stops establish_ends_def whole_def)
    qed (use nd me1(2) NeedMore rq rd_error [of "recv me1" 512] rd_pending [of "recv me1" 512]
          reads_to_step [of rd "recv me1" "recv me1", OF reads_to_refl rq] fails_with_now [of rd "recv me1"]
        in \<open>auto simp: poll_establish_stops establish_ends_def whole_def\<close>)
  qed
  with me1 establish_ends_from [of rd rest me1] show ?thesis by metis
qed

lemma app_left_established:
  assumes "ds_ok rest me" and "\<not> response_done me" and "establish_ends rd rest me me' (Ready (Inr ()))"
  shows "ds_ok rest me'" and "app_left rest me' = app_left rest me" and "response_done me'"
  using assms by (auto simp: ds_ok_def app_left_def establish_ends_def)

lemma app_left_unchanged:
  assumes "ds_ok rest me" and "\<not> response_done me" and "establish_ends rd rest me me' p" and "p \<noteq> Ready (Inr ())"
  shows "ds_ok rest me'" and "app_left rest me' = app_left rest me"
  using assms by (auto simp: ds_ok_def app_left_def establish_ends_def split: poll.splits sum.splits)

text \<open>Once the header is gone, \<open>poll_read\<close> hands out the leftover first, then reads on.\<close>

lemma poll_read_established:
  assumes "response_done me" and "leftover_pos me \<le> length (leftover me)"
  shows "\<exists>me' p. poll_read rd me cap = Some (me', p) \<and> response_done me' \<and>
    leftover_pos me' \<le> length (leftover me') \<and> app_left rest me = read_bytes p @ app_left rest me' \<and>
    length (read_bytes p) \<le> cap \<and> (p = Ready (Inr []) \<longrightarrow> 0 < cap \<longrightarrow> app_left rest me = [])"
proof (cases "leftover_pos me < length (leftover me)")
  case True
  let ?rest = "drop (leftover_pos me) (leftover me)"
  let ?n = "min (length ?rest) cap"
  let ?me = "me\<lparr>leftover_pos := leftover_pos me + ?n\<rparr>"
  have "take ?n ?rest @ drop (leftover_pos me + ?n) (leftover me) = drop (leftover_pos me) (leftover me)"
    using append_take_drop_id [of ?n ?rest] by (simp add: add.commute)
  then have "app_left rest me = take ?n ?rest @ app_left rest ?me" using assms(1) by (simp add: app_left_def)
  moreover have "poll_read rd me cap = Some (?me, Ready (Inr (take ?n ?rest)))"
    using True assms by (simp add: poll_read_def subslice_def Let_def)
  moreover have "leftover_pos ?me \<le> length (leftover ?me)" "length (take ?n ?rest) \<le> cap" "response_done ?me"
    "Ready (Inr (take ?n ?rest)) = Ready (Inr []) \<longrightarrow> 0 < cap \<longrightarrow> app_left rest me = []"
    using True assms(1) by auto
  moreover have "read_bytes (Ready (Inr (take ?n ?rest))) = take ?n ?rest" by simp
  ultimately show ?thesis by (intro exI [of _ ?me] exI [of _ "Ready (Inr (take ?n ?rest))"]) (simp only: simp_thms)
next
  case False
  obtain r q where rq: "rd (recv me) cap = (r, q)" by fastforce
  with False assms rd_bytes [of "recv me" cap r] rd_error rd_pending rd_eof show ?thesis
    by (auto simp: poll_read_def app_left_def read_bytes_def split: poll.splits sum.splits)
qed

lemma poll_read_contract:
  assumes "ds_ok rest me"
  shows "\<exists>me' p. poll_read rd me cap = Some (me', p) \<and> ds_ok rest me' \<and>
    app_left rest me = read_bytes p @ app_left rest me' \<and>
    length (read_bytes p) \<le> cap \<and> (p = Ready (Inr []) \<longrightarrow> 0 < cap \<longrightarrow> app_left rest me = [])"
proof (cases "response_done me")
  case True
  then show ?thesis using poll_read_established [OF True, of cap] assms by (fastforce simp: ds_ok_def)
next
  case False
  from poll_establish_ends [OF False] obtain me1 p where
    p: "poll_establish rd me = Some (me1, p)" "establish_ends rd rest me me1 p" by blast
  show ?thesis
  proof (cases "p = Ready (Inr ())")
    case True
    note e = app_left_established [OF assms False p(2) [unfolded True]]
    have "leftover_pos me1 \<le> length (leftover me1)" using e(1,3) by (simp add: ds_ok_def)
    from poll_read_established [OF e(3) this, of cap] show ?thesis
      unfolding poll_read_continues [OF False p(1) [unfolded True] e(3)] e(2) [symmetric]
      by (fastforce simp: ds_ok_def)
  next
    case np: False
    note u = app_left_unchanged [OF assms False p(2) np]
    show ?thesis by (rule poll_read_stops [OF False p(1) np, of cap]) (use u in auto)
  qed
qed

end

text \<open>So the stream itself is a byte stream that owes the application bytes.\<close>

sublocale recv_stream \<subseteq> ds: byte_stream "poll_read rd" "app_left rest" "ds_ok rest"
proof
  fix t :: "('a, 'r) duplex_stream" and cap
  assume "ds_ok rest t"
  from poll_read_contract [OF this, of cap] show "\<exists>t' p. poll_read rd t cap = Some (t', p)" by blast
next
  fix t t' :: "('a, 'r) duplex_stream" and cap p
  assume "ds_ok rest t" and "poll_read rd t cap = Some (t', p)"
  with poll_read_contract [of t cap] show "ds_ok rest t'" "app_left rest t = read_bytes p @ app_left rest t'"
    "length (read_bytes p) \<le> cap" by simp_all
next
  fix t t' :: "('a, 'r) duplex_stream" and cap
  assume "ds_ok rest t" "poll_read rd t cap = Some (t', Ready (Inr []))" "0 < cap"
  with poll_read_contract [of t cap] show "app_left rest t = []" by auto
qed

section \<open>The scripted stream\<close>

lemma script_read_spec:
  "script_read es cap = (es', p) \<Longrightarrow> script_rest es = read_bytes p @ script_rest es' \<and>
     length (read_bytes p) \<le> cap \<and> (p = Ready (Inr []) \<longrightarrow> 0 < cap \<longrightarrow> script_rest es = [])"
proof (induction es cap arbitrary: es' p rule: script_read.induct)
  case (4 bs es cap)
  then show ?case by (auto split: if_splits)
qed auto

interpretation script: recv_stream script_read script_rest
  by unfold_locales (auto dest: script_read_spec)

lemma script_eventually_ready: "eventually_ready script_read length"
proof -
  have "length (fst (script_read es cap)) \<le> length es \<and>
      (snd (script_read es cap) = Pending \<longrightarrow> length (fst (script_read es cap)) < length es)" for es cap
    by (induction es cap rule: script_read.induct) auto
  then show ?thesis by (simp add: eventually_ready_def)
qed

section \<open>Headers that fail, waiting, and memory\<close>

lemma header_error_iff: "header_error c = None \<longleftrightarrow> (\<exists>h. c = Done True h)"
  by (cases c rule: header_error.cases) auto

context recv_stream
begin

lemma establish_ends_failed:
  assumes "establish_ends rd rest me me' p" and "header_error (parse_tcp_response (whole rest me)) = Some e"
  shows "\<not> response_done me' \<and> whole rest me' = whole rest me \<and> reads_to rd (recv me) (recv me') \<and>
    (p = Pending \<or> p = Ready (Inl e) \<or> (\<exists>x. p = Ready (Inl x) \<and> fails_with rd (recv me) x))"
  using assms
  by (cases "parse_tcp_response (whole rest me)" rule: header_error.cases)
    (auto simp: establish_ends_def split: poll.splits sum.splits)

lemma run_failed:
  assumes "\<not> response_done me" and "header_error (parse_tcp_response (whole rest me)) = Some e"
  shows "\<exists>me' ps. run_steps (poll_read rd) me caps = Some (me', ps) \<and> length ps = length caps \<and>
    (\<forall>p\<in>set ps. p = Pending \<or> p = Ready (Inl e) \<or>
       (\<exists>x. p = Ready (Inl x) \<and> fails_with rd (recv me) x))"
  using assms
proof (induction caps arbitrary: me)
  case (Cons cap caps)
  from poll_establish_ends [OF Cons.prems(1)] obtain me1 p where
    p: "poll_establish rd me = Some (me1, p)" "establish_ends rd rest me me1 p" by blast
  note f = establish_ends_failed [OF p(2) Cons.prems(2)]
  then obtain me' ps where ps: "run_steps (poll_read rd) me1 caps = Some (me', ps)" "length ps = length caps"
    "\<forall>p\<in>set ps. p = Pending \<or> p = Ready (Inl e) \<or>
       (\<exists>x. p = Ready (Inl x) \<and> fails_with rd (recv me) x)"
    using Cons.IH [of me1] Cons.prems(2) fails_with_later [of rd "recv me" "recv me1"] by fastforce
  have "p \<noteq> Ready (Inr ())" using f by auto
  then show ?case
    by (rule poll_read_stops [OF Cons.prems(1) p(1), of cap]) (use ps f in auto)
qed simp

end

lemma poll_establish_waits:
  assumes "eventually_ready rd \<mu>" and "\<not> response_done me" and "poll_establish rd me = Some (me', p)"
  shows "\<mu> (recv me') \<le> \<mu> (recv me) \<and> (p = Pending \<longrightarrow> \<mu> (recv me') < \<mu> (recv me))"
proof -
  have \<mu>: "\<mu> r' \<le> \<mu> r" "q = Pending \<Longrightarrow> \<mu> r' < \<mu> r" if "rd r cap = (r', q)" for r r' q cap
    using assms(1) that unfolding eventually_ready_def by (metis fst_conv, metis fst_conv snd_conv)
  let ?I = "\<lambda>me1. \<not> response_done me1 \<and> \<mu> (recv me1) \<le> \<mu> (recv me)"
  obtain me1 where me1: "?I me1" "stops rd me1" "poll_establish rd me = poll_establish rd me1"
    using poll_establish_last [of ?I me rd] assms(2) \<mu>(1) by fastforce
  obtain r q where rq: "rd (recv me1) 512 = (r, q)" by fastforce
  show ?thesis using me1 assms(3) \<mu> [OF rq] rq
    by (auto simp: poll_establish_stops split: tcp_response_parse.splits poll.splits sum.splits if_splits)
qed

context recv_stream
begin

lemma poll_establish_scratch:
  assumes "\<not> response_done me" and "length (scratch me) \<le> 6672" and "poll_establish rd me = Some (me', p)"
  shows "length (scratch me') \<le> 6672"
proof -
  let ?I = "\<lambda>me1. \<not> response_done me1 \<and> length (scratch me1) \<le> 6672"
  have "?I (me1\<lparr>recv := r, scratch := scratch me1 @ filled\<rparr>)"
    if "?I me1" "parse_tcp_response (scratch me1) = NeedMore" "rd (recv me1) 512 = (r, Ready (Inr filled))"
    for me1 :: "('s, 'r) duplex_stream" and r filled
    using parse_tcp_response_NeedMore_bound [OF that(2)] rd_bytes [OF that(3)] that(1) by simp
  then obtain me1 where me1: "?I me1" "stops rd me1" "poll_establish rd me = poll_establish rd me1"
    using poll_establish_last [of ?I me rd] assms(1,2) by blast
  then show ?thesis using assms(3)
    by (auto simp: poll_establish_stops split: tcp_response_parse.splits prod.splits poll.splits sum.splits if_splits)
qed

lemma poll_read_scratch:
  assumes "length (scratch me) \<le> 6672" and "poll_read rd me cap = Some (me', p)"
  shows "length (scratch me') \<le> 6672"
proof (cases "response_done me")
  case True
  then show ?thesis using assms
    by (auto simp: poll_read_def Let_def split: if_splits Option.bind_splits prod.splits)
next
  case False
  then obtain me1 q where q: "poll_establish rd me = Some (me1, q)"
    using assms(2) by (auto simp: poll_read_def split: Option.bind_splits)
  from poll_establish_scratch [OF False assms(1) q] show ?thesis
    using assms(2) False q
    by (auto simp: poll_read_def Let_def split: if_splits Option.bind_splits prod.splits poll.splits sum.splits)
qed

lemma establish_ends_returns:
  assumes "eventually_ready rd \<mu>" and "\<not> response_done me"
  shows "\<exists>me' res. establish rd me = Some (me', res) \<and> establish_ends rd rest me me' (Ready res)"
  using assms(2)
proof (induction "\<mu> (recv me)" arbitrary: me rule: less_induct)
  case less
  from poll_establish_ends [OF less.prems] obtain me1 p where
    p: "poll_establish rd me = Some (me1, p)" "establish_ends rd rest me me1 p" by blast
  show ?case
  proof (cases p)
    case (Ready res)
    then show ?thesis using p by (subst establish.simps) simp
  next
    case Pending
    then have k: "\<not> response_done me1" "whole rest me1 = whole rest me" "leftover_pos me1 = leftover_pos me"
      "send me1 = send me" using p(2) by (auto simp: establish_ends_def)
    have "reads_to rd (recv me) (recv me1)" using p(2) by (simp add: establish_ends_def)
    note ends' = establish_ends_from [OF _ k(2-4) this]
    have "\<mu> (recv me1) < \<mu> (recv me)" using poll_establish_waits [OF assms(1) less.prems p(1)] Pending by simp
    from less.hyps [OF this k(1)] ends' show ?thesis
      using p(1) Pending by (subst establish.simps) auto
  qed
qed

end

sublocale recv_stream \<subseteq> mem:
    step_machine "poll_read rd" "\<lambda>_ me. length (scratch me) \<le> 6672" "\<lambda>_ _ _. True"
  by unfold_locales (auto intro: poll_read_scratch)

context recv_stream
begin

lemmas duplex_reads = ds.run_reads
lemmas duplex_memory = mem.run_invariant

end

section \<open>Properties\<close>

text \<open>
  Fast open is transparent. Over any receive stream that carries an accepting response
  header followed by the application data \<open>app\<close>, cut into reads in any way and with any stalls
  and failures in between, every sequence of \<open>poll_read\<close> calls returns without a panic; the bytes
  it delivered are a prefix of \<open>app\<close> in order, no read exceeds its buffer, the rest of \<open>app\<close> is
  still owed, and an end of stream is reported only after all of \<open>app\<close>.
\<close>

theorem duplex_delivers_app_bytes:
  assumes "recv_stream rd rest" and "rest r = tcp_response_wire 0 msg pad @ app"
    and "length msg \<le> 2048" and "length pad \<le> 4096"
  shows "\<exists>me' ps. run_steps (poll_read rd) (duplex_new s r) caps = Some (me', ps) \<and>
    app = delivered ps @ app_left rest me' \<and>
    list_all2 (\<lambda>cap p. length (read_bytes p) \<le> cap) caps ps \<and>
    ((\<exists>k < length caps. 0 < caps ! k \<and> ps ! k = Ready (Inr [])) \<longrightarrow> delivered ps = app)"
proof -
  have h: "parse_tcp_response (rest r) = Done True (length (tcp_response_wire 0 msg pad))"
    using parse_tcp_response_wire [of msg pad 0 app] assms(2-4) by simp
  then have "ds_ok rest (duplex_new s r)" by (simp add: ds_ok_def duplex_new_def whole_def)
  moreover have "app_left rest (duplex_new s r) = app"
    using h by (simp add: app_left_def duplex_new_def whole_def assms(2))
  ultimately show ?thesis
    using recv_stream.duplex_reads [OF assms(1), of "duplex_new s r" caps] by auto
qed

theorem duplex_delivers_app_bytes_witness:
  "\<exists>me' ps. run_steps (poll_read script_read)
      (duplex_new () [Arrive [0, 1], Stall, Arrive ([33, 0] @ str ''hello''), Arrive (str ''!'')]) [4, 4, 4, 4, 4]
      = Some (me', ps) \<and> delivered ps = str ''hello!''"
proof -
  let ?r = "[Arrive [0, 1], Stall, Arrive ([33, 0] @ str ''hello''), Arrive (str ''!'')]"
  have w: "script_rest ?r = tcp_response_wire 0 [33] [] @ str ''hello!''" by code_simp
  have "map_option (\<lambda>(me, ps). ps ! 4) (run_steps (poll_read script_read) (duplex_new () ?r) [4, 4, 4, 4, 4])
      = Some (Ready (Inr []))" by code_simp
  then obtain me' ps where r: "run_steps (poll_read script_read) (duplex_new () ?r) [4, 4, 4, 4, 4] = Some (me', ps)"
    "ps ! 4 = Ready (Inr [])" by auto
  have k: "\<exists>k < length [4, 4, 4, 4, 4 :: nat]. 0 < [4, 4, 4, 4, 4 :: nat] ! k \<and> ps ! k = Ready (Inr [])"
    using r(2) by (intro exI [of _ 4]) simp
  have "length [33 :: u8] \<le> 2048" "length ([] :: bytes) \<le> 4096" by simp_all
  from duplex_delivers_app_bytes [where rd = script_read and rest = script_rest and r = ?r,
      OF script.recv_stream_axioms w this, of "()" "[4, 4, 4, 4, 4]", unfolded r(1)] k
  have "delivered ps = str ''hello!''" by blast
  with r(1) show ?thesis by blast
qed

text \<open>
  A stream whose header does not accept never yields a byte. Every read waits, reports the
  transport's own error, or reports the header: refused for a non-zero status, malformed for a
  length over its guard, and closed for a stream that ends inside the header. Repeated reads
  report it again.
\<close>

theorem duplex_header_failure:
  assumes "recv_stream rd rest" and "header_error (parse_tcp_response (rest r)) = Some e"
  shows "\<exists>me' ps. run_steps (poll_read rd) (duplex_new s r) caps = Some (me', ps) \<and> length ps = length caps \<and>
    (\<forall>p\<in>set ps. p = Pending \<or> p = Ready (Inl e) \<or>
       (\<exists>x. p = Ready (Inl x) \<and> fails_with rd r x))"
  using recv_stream.run_failed [OF assms(1), of "duplex_new s r" e caps] assms(2)
  by (simp add: duplex_new_def whole_def)

theorem duplex_header_failure_witness:
  "\<exists>me'. run_steps (poll_read script_read) (duplex_new () [Arrive [1, 0], Stall, Arrive [0, 7]]) [9, 9, 9]
     = Some (me', [Pending, Ready (Inl err_rejected), Ready (Inl err_rejected)]) \<and>
   (\<exists>ps. length ps = 3 \<and> (\<forall>p\<in>set ps. read_bytes p = []) \<and>
     run_steps (poll_read script_read) (duplex_new () [Arrive [1, 0], Stall, Arrive [0, 7]]) [9, 9, 9] = Some (me', ps))"
proof -
  let ?r = "[Arrive [1, 0], Stall, Arrive [0, 7]]"
  have h: "header_error (parse_tcp_response (script_rest ?r)) = Some err_rejected" by code_simp
  have "map_option snd (run_steps (poll_read script_read) (duplex_new () ?r) [9, 9, 9])
      = Some [Pending, Ready (Inl err_rejected), Ready (Inl err_rejected)]" by code_simp
  with duplex_header_failure [OF script.recv_stream_axioms h, of "()" "[9, 9, 9]"]
  show ?thesis by fastforce
qed

text \<open>
  C30. \<open>establish\<close> returns whenever the peer does not stall forever, and what it returns is what
  the whole stream says: success exactly with an accepting header cut off, leaving the
  application data untouched, or else the header's or the transport's error.
\<close>

theorem establish_decides:
  assumes "recv_stream rd rest" and "eventually_ready rd \<mu>"
  shows "\<exists>me' res. establish rd (duplex_new s r) = Some (me', res) \<and>
    (case res of
       Inr _ \<Rightarrow> response_done me' \<and> leftover_pos me' = 0 \<and>
         (\<exists>h. parse_tcp_response (rest r) = Done True h \<and> leftover me' @ rest (recv me') = drop h (rest r))
     | Inl e \<Rightarrow> header_error (parse_tcp_response (rest r)) = Some e \<or> fails_with rd r e)"
proof -
  have w: "whole rest (duplex_new s r) = rest r" "\<not> response_done (duplex_new s r)"
    "leftover_pos (duplex_new s r) = 0" "recv (duplex_new s r) = r" by (simp_all add: whole_def duplex_new_def)
  from recv_stream.establish_ends_returns [OF assms w(2)] obtain me' res where
    e: "establish rd (duplex_new s r) = Some (me', res)"
    "establish_ends rd rest (duplex_new s r) me' (Ready res)" by blast
  then show ?thesis
    by (intro exI [of _ me'] exI [of _ res]) (auto simp: establish_ends_def w split: sum.splits)
qed

theorem establish_decides_witness:
  "\<exists>me'. establish script_read (duplex_new () [Arrive [0], Stall, Arrive [0, 0, 9]]) = Some (me', Inr ()) \<and>
     leftover me' @ script_rest (recv me') = [9]"
proof -
  let ?r = "[Arrive [0], Stall, Arrive [0, 0, 9]]"
  have r: "parse_tcp_response (script_rest ?r) = Done True 3" "drop 3 (script_rest ?r) = [9]" by code_simp+
  let ?m = "\<lparr>send = (), recv = [Arrive [], Stall, Arrive [0, 0, 9]], response_done = False,
    scratch = [0], leftover = [], leftover_pos = 0\<rparr>"
  have "poll_establish script_read (duplex_new () ?r) = Some (?m\<lparr>recv := [Arrive [0, 0, 9]]\<rparr>, Pending)"
    "map_option snd (poll_establish script_read (?m\<lparr>recv := [Arrive [0, 0, 9]]\<rparr>)) = Some (Ready (Inr ()))"
    by code_simp+
  then have "map_option snd (establish script_read (duplex_new () ?r)) = Some (Inr ())"
    by (subst establish.simps, simp, subst establish.simps) auto
  with establish_decides [OF script.recv_stream_axioms script_eventually_ready, of "()" ?r] r show ?thesis
    by auto
qed

text \<open>
  The header buffer is bounded: whatever the server sends, no sequence of reads makes the
  client keep more than 6672 bytes of it.
\<close>

theorem duplex_header_memory:
  assumes "recv_stream rd rest" and "run_steps (poll_read rd) (duplex_new s r) caps = Some (me', ps)"
  shows "length (scratch me') \<le> 6672"
  using recv_stream.duplex_memory [OF assms(1) _ assms(2)] by (simp add: duplex_new_def)

theorem duplex_header_memory_witness:
  "\<exists>me' ps. run_steps (poll_read script_read) (duplex_new () [Arrive (0 # 64 # replicate 700 1)]) [4, 4] = Some (me', ps) \<and>
     length (scratch me') \<le> 6672"
proof -
  let ?r = "[Arrive (0 # 64 # replicate 700 1)]"
  have "run_steps (poll_read script_read) (duplex_new () ?r) [4, 4] \<noteq> None" by code_simp
  then obtain me' ps where "run_steps (poll_read script_read) (duplex_new () ?r) [4, 4] = Some (me', ps)" by auto
  with duplex_header_memory [OF script.recv_stream_axioms this] show ?thesis by blast
qed

end
