(* ===== verification/Salamander_Obfs.thy ===== *)
theory Salamander_Obfs
  imports Rs_Prelude
begin

text \<open>
  Salamander packet obfuscation, \<^verbatim>\<open>src/src/transport/obfs.rs\<close>. The digest
  BLAKE2b-256 and the random generator belong to other crates: \<open>blake\<close> maps a message to its
  digest and \<open>fill n\<close> are the \<open>n\<close> bytes that \<open>fill_bytes\<close> draws. What is relied on is that a
  digest has 32 bytes and that a slice is filled entirely.
\<close>

section \<open>The code\<close>

definition SALT_LEN :: nat where "SALT_LEN = 8"
definition KEY_LEN :: nat where "KEY_LEN = 32"
definition MIN_PSK_LEN :: nat where "MIN_PSK_LEN = 4"

lemmas salamander_lengths [simp] = SALT_LEN_def KEY_LEN_def MIN_PSK_LEN_def

record salamander =
  psk :: bytes

definition salamander_new :: "bytes \<Rightarrow> salamander option" where
  "salamander_new k = (if length k < MIN_PSK_LEN then None else Some \<lparr>psk = k\<rparr>)"

definition salamander_key :: "(bytes \<Rightarrow> bytes) \<Rightarrow> salamander \<Rightarrow> bytes \<Rightarrow> bytes" where
  "salamander_key blake self salt = blake (psk self @ salt)"

text \<open>The loop \<open>out[i + off] = c ^ key[i % KEY_LEN]\<close> over the enumerated input.\<close>

fun xor_loop :: "bytes \<Rightarrow> nat \<Rightarrow> nat \<Rightarrow> bytes \<Rightarrow> bytes \<Rightarrow> bytes run" where
  "xor_loop key off i [] out = Some out"
| "xor_loop key off i (c # cs) out = do {
     k \<leftarrow> index key (i mod KEY_LEN);
     out \<leftarrow> write_at out (i + off) [c XOR k];
     xor_loop key off (Suc i) cs out }"

definition obfuscate ::
    "(bytes \<Rightarrow> bytes) \<Rightarrow> (nat \<Rightarrow> bytes) \<Rightarrow> salamander \<Rightarrow> bytes \<Rightarrow> bytes \<Rightarrow> (bytes \<times> nat) run" where
  "obfuscate blake fill self inp out =
     (let out_len = length inp + SALT_LEN in
      if length out < out_len then Some (out, 0)
      else do {
        out \<leftarrow> write_at out 0 (fill SALT_LEN);
        salt \<leftarrow> subslice out 0 SALT_LEN;
        let key = salamander_key blake self salt;
        out \<leftarrow> xor_loop key SALT_LEN 0 inp out;
        Some (out, out_len) })"

definition deobfuscate ::
    "(bytes \<Rightarrow> bytes) \<Rightarrow> salamander \<Rightarrow> bytes \<Rightarrow> bytes \<Rightarrow> (bytes \<times> nat) run" where
  "deobfuscate blake self inp out =
     (if length inp \<le> SALT_LEN then Some (out, 0)
      else let out_len = length inp - SALT_LEN in
      if length out < out_len then Some (out, 0)
      else do {
        salt \<leftarrow> subslice inp 0 SALT_LEN;
        let key = salamander_key blake self salt;
        payload \<leftarrow> subslice inp SALT_LEN (length inp);
        out \<leftarrow> xor_loop key 0 0 payload out;
        Some (out, out_len) })"

section \<open>The packet format\<close>

text \<open>The payload under the key repeated from position \<open>i\<close> on, and a packet on the wire.\<close>

fun xor_mask :: "bytes \<Rightarrow> nat \<Rightarrow> bytes \<Rightarrow> bytes" where
  "xor_mask key i [] = []"
| "xor_mask key i (c # cs) = (c XOR key ! (i mod 32)) # xor_mask key (Suc i) cs"

definition salamander_packet :: "(bytes \<Rightarrow> bytes) \<Rightarrow> bytes \<Rightarrow> bytes \<Rightarrow> bytes \<Rightarrow> bytes" where
  "salamander_packet blake k salt payload = salt @ xor_mask (blake (k @ salt)) 0 payload"

text \<open>What a receiver with key \<open>k\<close> reads in a datagram; \<open>None\<close> where there is no payload.\<close>

definition open_packet :: "(bytes \<Rightarrow> bytes) \<Rightarrow> bytes \<Rightarrow> bytes \<Rightarrow> bytes option" where
  "open_packet blake k raw =
     (if length raw \<le> 8 then None
      else Some (xor_mask (blake (k @ take 8 raw)) 0 (drop 8 raw)))"

text \<open>The documented behaviour of the other crates.\<close>

definition blake_ok :: "(bytes \<Rightarrow> bytes) \<Rightarrow> bool" where
  "blake_ok blake \<longleftrightarrow> (\<forall>m. length (blake m) = 32)"

definition fill_ok :: "(nat \<Rightarrow> bytes) \<Rightarrow> bool" where
  "fill_ok fill \<longleftrightarrow> (\<forall>n. length (fill n) = n)"

section \<open>Masking\<close>

lemma mask_length [simp]: "length (xor_mask key i cs) = length cs"
  by (induction cs arbitrary: i) auto

lemma mask_mask [simp]: "xor_mask key i (xor_mask key i cs) = cs"
  by (induction cs arbitrary: i) (auto simp: xor.assoc)

lemma xor_loop_eq:
  assumes "length key = 32" and "i + off + length cs \<le> length out"
  shows "xor_loop key off i cs out =
    Some (take (i + off) out @ xor_mask key i cs @ drop (i + off + length cs) out)"
  using assms(2)
proof (induction cs arbitrary: i out)
  case (Cons c cs)
  let ?out = "take (i + off) out @ [c XOR key ! (i mod 32)] @ drop (Suc (i + off)) out"
  have "index key (i mod 32) = Some (key ! (i mod 32))" using assms(1) by (simp add: index_def)
  moreover have "write_at out (i + off) [c XOR key ! (i mod 32)] = Some ?out"
    using Cons.prems by (simp add: write_at_def)
  moreover have "xor_loop key off (Suc i) cs ?out =
      Some (take (Suc i + off) ?out @ xor_mask key (Suc i) cs @ drop (Suc i + off + length cs) ?out)"
    using Cons.prems by (intro Cons.IH) simp
  moreover have "take (Suc i + off) ?out = take (i + off) out @ [c XOR key ! (i mod 32)]"
    "drop (Suc i + off + length cs) ?out = drop (i + off + length (c # cs)) out"
    using Cons.prems by (simp_all add: Suc_diff_le ac_simps)
  ultimately show ?case by simp
qed simp

lemma obfuscate_eq:
  assumes "blake_ok blake" and "fill_ok fill"
  shows "obfuscate blake fill self inp out =
    (if length out < length inp + 8 then Some (out, 0)
     else Some (salamander_packet blake (psk self) (fill 8) inp @ drop (length inp + 8) out, length inp + 8))"
proof (cases "length out < length inp + 8")
  case False
  have f: "length (fill 8) = 8" using assms(2) by (simp add: fill_ok_def)
  let ?out = "fill 8 @ drop 8 out"
  have w: "write_at out 0 (fill 8) = Some ?out" using False f by (simp add: write_at_def)
  have s: "subslice ?out 0 8 = Some (fill 8)" using f by (simp add: subslice_def)
  have "xor_loop (blake (psk self @ fill 8)) 8 0 inp ?out =
      Some (fill 8 @ xor_mask (blake (psk self @ fill 8)) 0 inp @ drop (8 + length inp) out)"
    using xor_loop_eq [of "blake (psk self @ fill 8)" 0 8 inp ?out] assms(1) False f
    by (simp add: blake_ok_def add.commute)
  then show ?thesis
    using False w s
    by (simp add: obfuscate_def salamander_key_def salamander_packet_def Let_def add.commute del: write_at_Some)
qed (simp add: obfuscate_def)

lemma deobfuscate_eq:
  assumes "blake_ok blake"
  shows "deobfuscate blake self inp out =
    (case open_packet blake (psk self) inp of
       None \<Rightarrow> Some (out, 0)
     | Some p \<Rightarrow> if length out < length p then Some (out, 0) else Some (p @ drop (length p) out, length p))"
proof (cases "8 < length inp \<and> length inp \<le> length out + 8")
  case True
  have "xor_loop (blake (psk self @ take 8 inp)) 0 0 (drop 8 inp) out =
      Some (xor_mask (blake (psk self @ take 8 inp)) 0 (drop 8 inp) @ drop (length inp - 8) out)"
    using xor_loop_eq [of "blake (psk self @ take 8 inp)" 0 0 "drop 8 inp" out] assms True
    by (auto simp: blake_ok_def)
  then show ?thesis
    using True by (auto simp: deobfuscate_def open_packet_def salamander_key_def subslice_def Let_def)
qed (auto simp: deobfuscate_def open_packet_def Let_def)

lemma open_packet_length:
  assumes "open_packet blake k raw = Some p"
  shows "0 < length p \<and> length raw = length p + 8"
proof -
  have "8 < length raw" "length p = length raw - 8" using assms by (auto simp: open_packet_def split: if_splits)
  then show ?thesis by simp
qed

lemma open_salamander_packet:
  "length salt = 8 \<Longrightarrow> open_packet blake k (salamander_packet blake k salt p) = (if p = [] then None else Some p)"
  by (simp add: open_packet_def salamander_packet_def)

section \<open>Properties\<close>

text \<open>
  C36. Obfuscation round trip: for a digest of 32 bytes and a filled salt, obfuscating a
  non-empty packet into a buffer that has 8 bytes to spare succeeds without a panic, and
  deobfuscating the bytes it reports with the same key gives the packet back.
\<close>

theorem salamander_roundtrip:
  assumes "blake_ok blake" and "fill_ok fill" and "p \<noteq> []"
    and "length p + 8 \<le> length out" and "length p \<le> length out'"
  shows "\<exists>wire n. obfuscate blake fill self p out = Some (wire, n) \<and> n = length p + 8 \<and>
    deobfuscate blake self (take n wire) out' = Some (p @ drop (length p) out', length p)"
proof -
  have f: "length (fill 8) = 8" using assms(2) by (simp add: fill_ok_def)
  let ?w = "salamander_packet blake (psk self) (fill 8) p"
  have l: "length ?w = length p + 8" using f by (simp add: salamander_packet_def)
  have "obfuscate blake fill self p out = Some (?w @ drop (length p + 8) out, length p + 8)"
    using obfuscate_eq [OF assms(1,2)] assms(4) by simp
  moreover have "take (length p + 8) (?w @ drop (length p + 8) out) = ?w" using l by simp
  moreover have "deobfuscate blake self ?w out' = Some (p @ drop (length p) out', length p)"
    using deobfuscate_eq [OF assms(1)] open_salamander_packet [OF f] assms(3,5) by (simp add: not_less)
  ultimately show ?thesis by auto
qed

theorem salamander_roundtrip_witness:
  "\<exists>wire n. obfuscate (\<lambda>m. replicate 32 (of_nat (length m))) (\<lambda>n. replicate n 5) \<lparr>psk = [1, 2, 3, 4]\<rparr>
      [10, 11] (replicate 12 0) = Some (wire, n) \<and>
    deobfuscate (\<lambda>m. replicate 32 (of_nat (length m))) \<lparr>psk = [1, 2, 3, 4]\<rparr> (take n wire) [0, 0, 9]
      = Some ([10, 11, 9], 2)"
proof -
  have "blake_ok (\<lambda>m. replicate 32 (of_nat (length m)))" "fill_ok (\<lambda>n. replicate n 5)"
    by (simp_all add: blake_ok_def fill_ok_def)
  from salamander_roundtrip [OF this, of "[10, 11]" "replicate 12 0" "[0, 0, 9]" "\<lparr>psk = [1, 2, 3, 4]\<rparr>"]
  show ?thesis by auto
qed

text \<open>
  What the buffers and the key length decide. A key is refused exactly when it is shorter
  than 4 bytes; obfuscation reports 0 exactly when the buffer lacks the 8 bytes for the salt,
  and then leaves it alone; deobfuscation never panics, whatever arrives, and reports 0 exactly
  when the datagram carries no payload or the payload does not fit.
\<close>

theorem salamander_limits:
  assumes "blake_ok blake" and "fill_ok fill"
  shows "(salamander_new k = None \<longleftrightarrow> length k < 4) \<and>
    (\<exists>out' n. obfuscate blake fill self p out = Some (out', n) \<and> length out' = length out \<and>
       (n = 0 \<longleftrightarrow> length out < length p + 8) \<and> (n = 0 \<longrightarrow> out' = out)) \<and>
    (\<exists>out' n. deobfuscate blake self raw out = Some (out', n) \<and> length out' = length out \<and>
       (n = 0 \<longleftrightarrow> length raw \<le> 8 \<or> length out < length raw - 8))"
proof -
  have "length (fill 8) = 8" using assms(2) by (simp add: fill_ok_def)
  then have "length (salamander_packet blake (psk self) (fill 8) p) = length p + 8"
    by (simp add: salamander_packet_def)
  then show ?thesis
    using obfuscate_eq [OF assms] deobfuscate_eq [OF assms(1)]
    by (auto simp: salamander_new_def open_packet_def)
qed

theorem salamander_limits_witness:
  "salamander_new [1, 2, 3] = None \<and>
   deobfuscate (\<lambda>m. replicate 32 0) \<lparr>psk = [1, 2, 3, 4]\<rparr> [1, 2, 3] [0, 0] = Some ([0, 0], 0)"
proof -
  have "blake_ok (\<lambda>m. replicate 32 0)" "fill_ok (\<lambda>n. replicate n 5)"
    by (simp_all add: blake_ok_def fill_ok_def)
  from salamander_limits [OF this, of "[1, 2, 3]" "\<lparr>psk = [1, 2, 3, 4]\<rparr>" "[]" "[0, 0]" "[1, 2, 3]"]
  show ?thesis by (auto simp: deobfuscate_def)
qed

end
