(* ===== verification/Client_Config.thy ===== *)
theory Client_Config
  imports Rs_Io
begin

text \<open>
  The client configuration, \<^verbatim>\<open>src/src/config.rs\<close>: the two parameter structs with their
  defaults, the host part and server name, and the port-union parser. A \<open>Duration\<close> is its
  number of nanoseconds.
\<close>

section \<open>The code\<close>

type_synonym duration = nat

definition from_secs :: "u64 \<Rightarrow> duration" where
  "from_secs s = unat s * 1000000000"

definition from_millis :: "u64 \<Rightarrow> duration" where
  "from_millis ms = unat ms * 1000000"

record quic_params =
  stream_receive_window :: u64
  connection_receive_window :: u64
  max_idle_timeout :: duration
  keep_alive_interval :: duration
  initial_rtt :: duration
  disable_path_mtu_discovery :: bool

definition quic_params_default :: quic_params where
  "quic_params_default =
     \<lparr>stream_receive_window = 8 * 1024 * 1024,
      connection_receive_window = 8 * 1024 * 1024 * 5 div 2,
      max_idle_timeout = from_secs 30,
      keep_alive_interval = from_secs 10,
      initial_rtt = from_millis 100,
      disable_path_mtu_discovery = False\<rparr>"

record config =
  server_addr :: bytes
  server_name :: bytes
  auth :: bytes
  insecure :: bool
  rx_bps :: u64
  tx_bps :: u64
  obfs_password :: bytes
  hop_ports :: bytes
  hop_interval_min_secs :: u64
  hop_interval_max_secs :: u64
  fast_open :: bool
  pin_sha256 :: bytes
  ca_pem :: bytes
  quic :: quic_params

definition config_default :: config where
  "config_default =
     \<lparr>server_addr = [], server_name = [], auth = [], insecure = False, rx_bps = 0, tx_bps = 0,
      obfs_password = [], hop_ports = [], hop_interval_min_secs = 0, hop_interval_max_secs = 0,
      fast_open = True, pin_sha256 = [], ca_pem = [], quic = quic_params_default\<rparr>"

definition host_part :: "config \<Rightarrow> bytes" where
  "host_part self =
     (case rsplit_once (of_char CHR '':'') (server_addr self) of
        Some (h, _) \<Rightarrow> h | None \<Rightarrow> server_addr self)"

definition resolved_server_name :: "config \<Rightarrow> bytes" where
  "resolved_server_name self =
     (if server_name self \<noteq> [] then server_name self else host_part self)"

text \<open>\<open>start..=end\<close> over \<open>u16\<close>.\<close>

definition port_range :: "u16 \<Rightarrow> u16 \<Rightarrow> u16 list" where
  "port_range start fin = map of_nat [unat start..<Suc (unat fin)]"

text \<open>The ports of one part between commas, \<open>None\<close> where the code returns early.\<close>

definition part_ports :: "bytes \<Rightarrow> u16 list option" where
  "part_ports part =
     (case split_once (of_char CHR ''-'') part of
        Some (a, b) \<Rightarrow> do {
          start \<leftarrow> parse_u16 (trim a);
          fin \<leftarrow> parse_u16 (trim b);
          let (start, fin) = (if start > fin then (fin, start) else (start, fin));
          Some (port_range start fin) }
      | None \<Rightarrow> do { p \<leftarrow> parse_u16 (trim part); Some [p] })"

fun collect_ports :: "u16 list \<Rightarrow> bytes list \<Rightarrow> u16 list option" where
  "collect_ports ports [] = Some ports"
| "collect_ports ports (part # parts) = do {
     ps \<leftarrow> part_ports part;
     collect_ports (ports @ ps) parts }"

definition parse_ports :: "bytes \<Rightarrow> u16 list option" where
  "parse_ports spec =
     (if spec = str ''all'' \<or> spec = str ''*'' then Some (port_range 0 65535)
      else do {
        ports \<leftarrow> collect_ports [] (split_on (of_char CHR '','') spec);
        if ports = [] then None
        else Some (remdups_adj (sort ports)) })"

section \<open>What a port specification means\<close>

datatype port_item = Single u16 | Range u16 u16

fun item_ports :: "port_item \<Rightarrow> u16 set" where
  "item_ports (Single p) = {p}"
| "item_ports (Range a b) = {min a b..max a b}"

fun print_item :: "port_item \<Rightarrow> bytes" where
  "print_item (Single p) = dec_string (unat p)"
| "print_item (Range a b) = dec_string (unat a) @ [of_char CHR ''-''] @ dec_string (unat b)"

fun print_items :: "port_item list \<Rightarrow> bytes" where
  "print_items [] = []"
| "print_items [i] = print_item i"
| "print_items (i # is) = print_item i @ [of_char CHR '',''] @ print_items is"

section \<open>Port lists\<close>

lemma remdups_adj_strict:
  fixes xs :: "'a::linorder list"
  shows "sorted xs \<Longrightarrow> sorted_wrt (<) (remdups_adj xs)"
  by (induction xs rule: remdups_adj.induct) (auto simp: less_le)

lemma remdups_adj_sort: "remdups_adj (sort xs) = sorted_list_of_set (set xs)"
proof -
  have "sorted_wrt (<) (remdups_adj (sort xs))" by (rule remdups_adj_strict) simp
  then have "sorted_list_of_set (set (remdups_adj (sort xs))) = remdups_adj (sort xs)"
    by (simp only: strict_sorted_iff sorted_list_of_set.idem_if_sorted_distinct)
  then show ?thesis by simp
qed

lemma port_range_set [simp]: "set (port_range a b) = {a..b}"
proof
  show "{a..b} \<subseteq> set (port_range a b)"
  proof
    fix x assume "x \<in> {a..b}"
    then have "unat x \<in> {unat a..<Suc (unat b)}" by (simp add: word_le_nat_alt)
    then have "of_nat (unat x) \<in> set (port_range a b)" unfolding port_range_def by (simp only: set_map set_upt) blast
    then show "x \<in> set (port_range a b)" by simp
  qed
  show "set (port_range a b) \<subseteq> {a..b}"
    using unsigned_less [of b, where 'a = nat]
    by (auto simp: port_range_def word_le_nat_alt unsigned_of_nat take_bit_nat_eq_self)
qed

lemma collect_ports_eq:
  "collect_ports ports parts =
     (if \<exists>part\<in>set parts. part_ports part = None then None
      else Some (ports @ concat (map (the \<circ> part_ports) parts)))"
  by (induction parts arbitrary: ports) (auto split: Option.bind_splits)

lemma part_ports_nonempty: "part_ports part = Some ps \<Longrightarrow> ps \<noteq> []"
  by (auto simp: part_ports_def port_range_def Let_def word_less_nat_alt word_le_nat_alt
      split: option.splits if_splits Option.bind_splits)

lemma parse_ports_eq:
  assumes "spec \<noteq> str ''all''" and "spec \<noteq> str ''*''"
  shows "parse_ports spec =
    (if \<exists>part\<in>set (split_on (of_char CHR '','') spec). part_ports part = None then None
     else Some (sorted_list_of_set
       (\<Union>part\<in>set (split_on (of_char CHR '','') spec). set (the (part_ports part)))))"
proof (cases "\<exists>part\<in>set (split_on (of_char CHR '','') spec). part_ports part = None")
  case False
  let ?parts = "split_on (of_char CHR '','') spec"
  let ?ps = "concat (map (the \<circ> part_ports) ?parts)"
  obtain part parts where sp: "?parts = part # parts" by (cases ?parts) auto
  with False obtain ps where "part_ports part = Some ps" by auto
  then have "?ps \<noteq> []" using part_ports_nonempty sp by simp
  then show ?thesis using False assms by (simp add: parse_ports_def collect_ports_eq remdups_adj_sort)
qed (use assms in \<open>simp add: parse_ports_def collect_ports_eq\<close>)

lemma part_ports_print: "\<exists>ps. part_ports (print_item i) = Some ps \<and> set ps = item_ports i"
proof -
  have n: "45 \<notin> set (dec_string m)" for m using dec_string_digits [of 45 m] by auto
  show ?thesis by (cases i) (auto simp: part_ports_def n Let_def min_def max_def)
qed

lemma print_item_chars: "of_char CHR '','' \<notin> set (print_item i)"
  using dec_string_digits [of 44] by (cases i) auto

lemma split_print: "is \<noteq> [] \<Longrightarrow> split_on (of_char CHR '','') (print_items is) = map print_item is"
  using print_item_chars by (induction "is" rule: print_items.induct) auto

lemma print_items_digit: "is \<noteq> [] \<Longrightarrow> \<exists>b r. print_items is = b # r \<and> is_digit b"
proof -
  have "\<exists>b r. print_item i = b # r \<and> is_digit b" for i
  proof -
    obtain n s where "print_item i = dec_string n @ s" by (cases i) (auto intro: that [of _ "[]"] that)
    moreover obtain b r where "dec_string n = b # r" using dec_string_nonempty [of n] by (cases "dec_string n") auto
    ultimately show ?thesis using dec_string_digits [of b n] by simp
  qed
  then show "is \<noteq> [] \<Longrightarrow> ?thesis" by (induction "is" rule: print_items.induct) (auto, metis append_Cons)
qed

lemma parse_printed:
  assumes "is \<noteq> []"
  shows "parse_ports (print_items is) = Some (sorted_list_of_set (\<Union>i\<in>set is. item_ports i))"
proof -
  let ?parts = "split_on (of_char CHR '','') (print_items is)"
  obtain b r where s: "print_items is = b # r" "is_digit b" using print_items_digit [OF assms] by blast
  then have ne: "print_items is \<noteq> str ''all''" "print_items is \<noteq> str ''*''" by auto
  have some: "part_ports (print_item i) \<noteq> None" and eq: "set (the (part_ports (print_item i))) = item_ports i" for i
    using part_ports_print [of i] by (metis option.discI, metis option.sel)
  have "\<not> (\<exists>part\<in>set ?parts. part_ports part = None)" unfolding split_print [OF assms] using some by auto
  moreover have "(\<Union>part\<in>set ?parts. set (the (part_ports part))) = (\<Union>i\<in>set is. item_ports i)"
    unfolding split_print [OF assms] by (simp add: eq)
  ultimately show ?thesis using parse_ports_eq [OF ne] by (simp only: if_False)
qed

text \<open>The printed list that denotes the ports of an ascending list.\<close>

lemma parse_printed_sorted:
  assumes "is \<noteq> []" and "(\<Union>i\<in>set is. item_ports i) = set ps" and "sorted_wrt (<) ps"
  shows "parse_ports (print_items is) = Some ps"
  using parse_printed [OF assms(1)] assms(3)
  unfolding assms(2) by (simp only: strict_sorted_iff sorted_list_of_set.idem_if_sorted_distinct)

section \<open>Properties\<close>

text \<open>
  C35. The port-union parser means what it documents. A comma list of ports and ranges, written
  out in decimal, parses to the sorted, duplicate-free list of exactly the ports it denotes,
  whichever way round the ends of a range are given.
\<close>

theorem parse_ports_meaning:
  assumes "is \<noteq> []"
  shows "parse_ports (print_items is) = Some (sorted_list_of_set (\<Union>i\<in>set is. item_ports i))"
  using assms by (rule parse_printed)

theorem parse_ports_meaning_witness:
  "parse_ports (str ''443,5-3'') = Some [3, 4, 5, 443]"
proof -
  have p: "print_items [Single 443, Range 5 3] = str ''443,5-3''"
    by (simp add: dec_string.simps byte_def)
  have "{3..5 :: u16} = set (port_range 3 5)" by simp
  also have "port_range 3 5 = [3, 4, 5]" by code_simp
  finally have "(\<Union>i\<in>set [Single 443, Range 5 3]. item_ports i) = set [3, 4, 5, 443]" by (simp add: min_def max_def)
  moreover have "sorted_list_of_set (set [3, 4, 5, 443 :: u16]) = [3, 4, 5, 443]"
    unfolding remdups_adj_sort [symmetric] by code_simp
  moreover have "[Single 443, Range 5 3] \<noteq> []" by simp
  ultimately show ?thesis using parse_ports_meaning [of "[Single 443, Range 5 3]"] unfolding p by simp
qed

lemma port_range_all: "sorted_wrt (<) (port_range 0 65535)" "port_range 0 65535 = 0 # port_range 1 65535"
proof -
  show "sorted_wrt (<) (port_range 0 65535)"
    unfolding port_range_def
    by (auto simp: sorted_wrt_iff_nth_less word_less_nat_alt unsigned_of_nat take_bit_nat_eq_self simp del: upt_Suc)
  show "port_range 0 65535 = 0 # port_range 1 65535"
    unfolding port_range_def by (subst upt_conv_Cons) (simp_all del: upt_Suc)
qed

lemma parse_ports_strict:
  assumes "parse_ports spec = Some ps"
  shows "ps \<noteq> []" and "sorted_wrt (<) ps"
proof -
  have "ps \<noteq> [] \<and> sorted_wrt (<) ps"
  proof (cases "spec = str ''all'' \<or> spec = str ''*''")
    case True
    then show ?thesis using assms port_range_all by (auto simp: parse_ports_def)
  next
    case False
    obtain qs where "qs \<noteq> []" "ps = remdups_adj (sort qs)"
      using assms False unfolding parse_ports_def by (auto split: Option.bind_splits if_splits)
    then show ?thesis using remdups_adj_strict [of "sort qs"] by (metis remdups_adj_Nil_iff set_empty set_sort sorted_sort)
  qed
  then show "ps \<noteq> []" "sorted_wrt (<) ps" by simp_all
qed

text \<open>
  On any input whatever, a port list that is returned is non-empty and strictly ascending,
  and the parser fails exactly when the input is not one of the two wildcards and some
  comma-separated part is not a port or a range of ports.
\<close>

theorem parse_ports_canonical:
  "(parse_ports spec = None \<longleftrightarrow> spec \<noteq> str ''all'' \<and> spec \<noteq> str ''*'' \<and>
      (\<exists>part\<in>set (split_on (of_char CHR '','') spec). part_ports part = None)) \<and>
   pred_option (\<lambda>ps. ps \<noteq> [] \<and> sorted_wrt (<) ps) (parse_ports spec)"
proof (cases "spec = str ''all'' \<or> spec = str ''*''")
  case True
  then show ?thesis using port_range_all by (auto simp: parse_ports_def)
next
  case False
  then have ne: "spec \<noteq> str ''all''" "spec \<noteq> str ''*''" by simp_all
  then show ?thesis using parse_ports_eq [OF ne] parse_ports_strict [of spec] by (auto simp: pred_option_def)
qed

end
