(* ===== verification/Hop_Socket.thy ===== *)
theory Hop_Socket
  imports Salamander_Obfs Client_Config Tcp_Frame
begin

text \<open>
  The socket under quinn, \<^verbatim>\<open>src/src/transport/socket.rs\<close>: outbound datagrams are
  obfuscated and sent to a rotating destination port, inbound ones are deobfuscated and
  reported as coming from the canonical address.

  The inner socket belongs to quinn and the operating system: its operations are the fields of
  \<open>inner_ops\<close>, over a state \<open>'k\<close>. A receive buffer is a list of its bytes, so that its length is
  its capacity. The hop task runs concurrently with the socket's methods; it only writes the
  shared index, and each of its turns is the step \<open>hop_turn\<close>.
\<close>

section \<open>Data\<close>

datatype ip_addr = V4 u32 | V6 "128 word"

datatype socket_addr = SocketAddr (addr_ip: ip_addr) (addr_port: u16)

record hop_config =
  hc_addrs :: "socket_addr list"
  interval_min :: duration
  interval_max :: duration

definition SCRATCH_DATAGRAM :: nat where "SCRATCH_DATAGRAM = 2048"

record transmit =
  destination :: socket_addr
  ecn :: "u8 option"
  contents :: bytes
  segment_size :: "nat option"
  src_ip :: "ip_addr option"

record recv_meta =
  rm_addr :: socket_addr
  rm_len :: nat
  rm_stride :: nat
  rm_ecn :: "u8 option"
  rm_dst_ip :: "ip_addr option"

record 'k inner_ops =
  inner_try_send :: "'k \<Rightarrow> transmit \<Rightarrow> 'k \<times> unit io_result"
  inner_poll_recv :: "'k \<Rightarrow> bytes list \<Rightarrow> recv_meta list \<Rightarrow>
    'k \<times> bytes list \<times> recv_meta list \<times> nat io_result poll"
  inner_local_addr :: "'k \<Rightarrow> socket_addr io_result"
  inner_max_transmit_segments :: "'k \<Rightarrow> nat"
  inner_max_receive_segments :: "'k \<Rightarrow> nat"
  inner_may_fragment :: "'k \<Rightarrow> bool"
  meta_default :: recv_meta

record 'k hop_socket =
  inner :: 'k
  obfs :: "salamander option"
  hop_index :: "nat option"
  hop_addrs :: "socket_addr list"
  canonical :: socket_addr
  write_buf :: bytes
  recv_scratch :: "bytes \<times> recv_meta list"
  hop_task :: "(nat \<times> duration \<times> duration) option"

section \<open>Construction and the hop task\<close>

text \<open>\<open>draw m\<close> is the value of \<open>random_range(0..m)\<close>, which panics on an empty range.\<close>

definition random_range :: "(nat \<Rightarrow> nat) \<Rightarrow> nat \<Rightarrow> nat run" where
  "random_range draw m = (if m = 0 then None else Some (draw m))"

definition hop_socket_new ::
    "rng \<Rightarrow> 'k \<Rightarrow> socket_addr \<Rightarrow> salamander option \<Rightarrow> hop_config option \<Rightarrow> 'k hop_socket option run" where
  "hop_socket_new rng k canon ob hop =
     (if ob = None \<and> hop = None then Some None
      else do {
        (idx, addrs, task) \<leftarrow>
          (case hop of
             Some cfg \<Rightarrow>
               if length (hc_addrs cfg) > 1 then do {
                 i \<leftarrow> random_range (rng 0) (length (hc_addrs cfg));
                 Some (Some i, hc_addrs cfg,
                       Some (length (hc_addrs cfg), interval_min cfg, interval_max cfg)) }
               else Some (None, hc_addrs cfg, None)
           | None \<Rightarrow> Some (None, [canon], None));
        Some (Some \<lparr>inner = k, obfs = ob, hop_index = idx, hop_addrs = addrs, canonical = canon,
              write_buf = replicate SCRATCH_DATAGRAM 0, recv_scratch = ([], []), hop_task = task\<rparr>) })"

definition hop_socket_drop :: "'k hop_socket \<Rightarrow> 'k hop_socket" where
  "hop_socket_drop self = self\<lparr>hop_task := None\<rparr>"

definition current_dest :: "'k hop_socket \<Rightarrow> socket_addr run" where
  "current_dest self =
     (case hop_index self of
        Some idx \<Rightarrow>
          if length (hop_addrs self) = 0 then None
          else index (hop_addrs self) (idx mod length (hop_addrs self))
      | None \<Rightarrow> Some (canonical self))"

text \<open>
  One turn of the hop task: the wait, drawn from \<open>0..=(max - min).as_millis() as u64\<close> on top of
  the minimum, and the new index.
\<close>

definition hop_wait :: "(nat \<Rightarrow> nat) \<Rightarrow> duration \<Rightarrow> duration \<Rightarrow> duration run" where
  "hop_wait draw lo hi =
     (if lo \<ge> hi then Some lo
      else do {
        extra \<leftarrow> random_range draw ((hi - lo) div 1000000 mod 2 ^ 64 + 1);
        Some (lo + extra * 1000000) })"

definition hop_turn :: "rng \<Rightarrow> 'k hop_socket \<Rightarrow> ('k hop_socket \<times> duration) run" where
  "hop_turn rng self =
     (case hop_task self of
        None \<Rightarrow> Some (self, 0)
      | Some (n, lo, hi) \<Rightarrow> do {
          wait \<leftarrow> hop_wait (rng 0) lo hi;
          i \<leftarrow> random_range (rng 1) n;
          Some (self\<lparr>hop_index := Some i\<rparr>, wait) })"

section \<open>Sending\<close>

definition try_send ::
    "'k inner_ops \<Rightarrow> (bytes \<Rightarrow> bytes) \<Rightarrow> (nat \<Rightarrow> bytes) \<Rightarrow> 'k hop_socket \<Rightarrow> transmit \<Rightarrow>
     ('k hop_socket \<times> unit io_result) run" where
  "try_send ops blake fill self t = do {
     dest \<leftarrow> (if hop_index self \<noteq> None then current_dest self else Some (destination t));
     (case obfs self of
        None \<Rightarrow>
          (let (k, r) = inner_try_send ops (inner self)
             \<lparr>destination = dest, ecn = ecn t, contents = contents t,
              segment_size = segment_size t, src_ip = src_ip t\<rparr>
           in Some (self\<lparr>inner := k\<rparr>, r))
      | Some ob \<Rightarrow> do {
          (buf, n) \<leftarrow> obfuscate blake fill ob (contents t) (write_buf self);
          let self = self\<lparr>write_buf := buf\<rparr>;
          if n = 0 then Some (self, Inr ())
          else do {
            wire \<leftarrow> subslice buf 0 n;
            (let (k, r) = inner_try_send ops (inner self)
               \<lparr>destination = dest, ecn = ecn t, contents = wire,
                segment_size = None, src_ip = src_ip t\<rparr>
             in Some (self\<lparr>inner := k\<rparr>, r)) } }) }"

section \<open>Receiving\<close>

text \<open>\<open>chunks_mut(SCRATCH_DATAGRAM)\<close> of the first \<open>count\<close> datagrams of the scratch buffer.\<close>

definition scratch_chunks :: "nat \<Rightarrow> bytes \<Rightarrow> bytes list" where
  "scratch_chunks count scr =
     map (\<lambda>k. take SCRATCH_DATAGRAM (drop (k * SCRATCH_DATAGRAM) scr)) [0..<count]"

text \<open>The loop \<open>for k in 0..n\<close> over the datagrams of one batch.\<close>

fun unmask_batch ::
    "(bytes \<Rightarrow> bytes) \<Rightarrow> salamander \<Rightarrow> socket_addr option \<Rightarrow> bytes \<Rightarrow> recv_meta list \<Rightarrow> nat list \<Rightarrow>
     nat \<Rightarrow> bytes list \<Rightarrow> recv_meta list \<Rightarrow> (nat \<times> bytes list \<times> recv_meta list) run" where
  "unmask_batch blake ob rewrite scr tmp [] out bufs meta = Some (out, bufs, meta)"
| "unmask_batch blake ob rewrite scr tmp (k # ks) out bufs meta = do {
     m \<leftarrow> index tmp k;
     raw \<leftarrow> subslice scr (k * SCRATCH_DATAGRAM) (k * SCRATCH_DATAGRAM + rm_len m);
     buf \<leftarrow> index bufs out;
     (buf, plain_len) \<leftarrow> deobfuscate blake ob raw buf;
     bufs \<leftarrow> write_at bufs out [buf];
     if plain_len = 0 then unmask_batch blake ob rewrite scr tmp ks out bufs meta
     else do {
       meta \<leftarrow> write_at meta out
         [\<lparr>rm_addr = (case rewrite of Some canon \<Rightarrow> canon | None \<Rightarrow> rm_addr m),
           rm_len = plain_len, rm_stride = plain_len, rm_ecn = rm_ecn m, rm_dst_ip = rm_dst_ip m\<rparr>];
       unmask_batch blake ob rewrite scr tmp ks (out + 1) bufs meta } }"

text \<open>
  The \<open>loop\<close> of the obfuscated receive path. Outside, \<open>None\<close> is a loop that never returns;
  inside, \<open>None\<close> is a panic. The scratch buffer and its metadata persist between calls.
\<close>

partial_function (option) recv_loop ::
    "'k inner_ops \<Rightarrow> (bytes \<Rightarrow> bytes) \<Rightarrow> salamander \<Rightarrow> socket_addr option \<Rightarrow> nat \<Rightarrow> 'k \<Rightarrow>
     bytes \<Rightarrow> recv_meta list \<Rightarrow> bytes list \<Rightarrow> recv_meta list \<Rightarrow>
     ('k \<times> bytes \<times> recv_meta list \<times> bytes list \<times> recv_meta list \<times> nat io_result poll) run option" where
  "recv_loop ops blake ob rewrite count k scr tmp bufs meta =
     (case inner_poll_recv ops k (scratch_chunks count scr) (take count tmp) of
        (k, chunks, tmeta, p) \<Rightarrow>
          let scr = concat chunks @ drop (count * SCRATCH_DATAGRAM) scr;
              tmp = tmeta @ drop count tmp in
          (case p of
             Ready (Inr n) \<Rightarrow>
               if n = 0 then Some (Some (k, scr, tmp, bufs, meta, Ready (Inr 0)))
               else (case unmask_batch blake ob rewrite scr tmp [0..<n] 0 bufs meta of
                       None \<Rightarrow> Some None
                     | Some (out, bufs, meta) \<Rightarrow>
                         if out > 0 then Some (Some (k, scr, tmp, bufs, meta, Ready (Inr out)))
                         else recv_loop ops blake ob rewrite count k scr tmp bufs meta)
           | other \<Rightarrow> Some (Some (k, scr, tmp, bufs, meta, other))))"

definition resize :: "'a list \<Rightarrow> nat \<Rightarrow> 'a \<Rightarrow> 'a list" where
  "resize xs n x = (if length xs < n then xs @ replicate (n - length xs) x else take n xs)"

definition poll_recv ::
    "'k inner_ops \<Rightarrow> (bytes \<Rightarrow> bytes) \<Rightarrow> 'k hop_socket \<Rightarrow> bytes list \<Rightarrow> recv_meta list \<Rightarrow>
     ('k hop_socket \<times> bytes list \<times> recv_meta list \<times> nat io_result poll) run option" where
  "poll_recv ops blake self bufs meta =
     (let rewrite_addr = (hop_index self \<noteq> None) in
      case obfs self of
        None \<Rightarrow>
          (case inner_poll_recv ops (inner self) bufs meta of
             (k, bufs, meta, Ready (Inr n)) \<Rightarrow>
               let meta = (if rewrite_addr
                           then map (\<lambda>m. m\<lparr>rm_addr := canonical self\<rparr>) (take n meta) @ drop n meta
                           else meta)
               in Some (Some (self\<lparr>inner := k\<rparr>, bufs, meta, Ready (Inr n)))
           | (k, bufs, meta, other) \<Rightarrow> Some (Some (self\<lparr>inner := k\<rparr>, bufs, meta, other)))
      | Some ob \<Rightarrow>
          (let count = length bufs;
               (scr, tmp) = recv_scratch self;
               scr = (if length scr < count * SCRATCH_DATAGRAM
                      then resize scr (count * SCRATCH_DATAGRAM) 0 else scr);
               tmp = (if length tmp < count then resize tmp count (meta_default ops) else tmp) in
           map_option (map_option (\<lambda>(k, scr, tmp, bufs, meta, p).
               (self\<lparr>inner := k, recv_scratch := (scr, tmp)\<rparr>, bufs, meta, p)))
             (recv_loop ops blake ob (if rewrite_addr then Some (canonical self) else None)
               count (inner self) scr tmp bufs meta)))"

section \<open>The pass-through methods\<close>

definition local_addr :: "'k inner_ops \<Rightarrow> 'k hop_socket \<Rightarrow> socket_addr io_result" where
  "local_addr ops self = inner_local_addr ops (inner self)"

definition max_transmit_segments :: "'k inner_ops \<Rightarrow> 'k hop_socket \<Rightarrow> nat" where
  "max_transmit_segments ops self =
     (if obfs self \<noteq> None then 1 else inner_max_transmit_segments ops (inner self))"

definition max_receive_segments :: "'k inner_ops \<Rightarrow> 'k hop_socket \<Rightarrow> nat" where
  "max_receive_segments ops self =
     (if obfs self \<noteq> None then 1 else inner_max_receive_segments ops (inner self))"

definition may_fragment :: "'k inner_ops \<Rightarrow> 'k hop_socket \<Rightarrow> bool" where
  "may_fragment ops self = inner_may_fragment ops (inner self)"

section \<open>What the socket is to do\<close>

text \<open>The datagrams, with their source, that the first \<open>n\<close> buffers and their metadata hold.\<close>

definition view :: "bytes list \<Rightarrow> recv_meta list \<Rightarrow> nat \<Rightarrow> (socket_addr \<times> bytes) list" where
  "view bufs meta n = map (\<lambda>j. (rm_addr (meta ! j), take (rm_len (meta ! j)) (bufs ! j))) [0..<n]"

text \<open>What becomes of a datagram: its payload under its new source, or nothing.\<close>

definition unmasked ::
    "(bytes \<Rightarrow> bytes) \<Rightarrow> bytes \<Rightarrow> socket_addr option \<Rightarrow> nat \<Rightarrow> socket_addr \<times> bytes \<Rightarrow>
     (socket_addr \<times> bytes) option" where
  "unmasked blake k rewrite L = (\<lambda>(a, raw).
     case open_packet blake k raw of
       None \<Rightarrow> None
     | Some p \<Rightarrow> if length p \<le> L
         then Some (case rewrite of Some canon \<Rightarrow> canon | None \<Rightarrow> a, p) else None)"

text \<open>
  The documented contract of \<open>AsyncUdpSocket::poll_recv\<close>: buffers and metadata keep their
  sizes, and a result \<open>n\<close> counts filled buffers whose recorded lengths lie inside them.
\<close>

definition inner_recv_ok :: "'k inner_ops \<Rightarrow> bool" where
  "inner_recv_ok ops \<longleftrightarrow> (\<forall>k bufs meta k' bufs' meta' p.
     inner_poll_recv ops k bufs meta = (k', bufs', meta', p) \<longrightarrow>
       map length bufs' = map length bufs \<and> length meta' = length meta \<and>
       (\<forall>n. p = Ready (Inr n) \<longrightarrow> n \<le> length bufs \<and> n \<le> length meta \<and>
          (\<forall>j < n. rm_len (meta' ! j) \<le> length (bufs' ! j))))"

text \<open>The socket's queue is finite: \<open>\<mu>\<close> decreases with every batch that is received.\<close>

definition drains :: "'k inner_ops \<Rightarrow> ('k \<Rightarrow> nat) \<Rightarrow> bool" where
  "drains ops \<mu> \<longleftrightarrow> (\<forall>k bufs meta k' bufs' meta' n.
     inner_poll_recv ops k bufs meta = (k', bufs', meta', Ready (Inr n)) \<longrightarrow> 0 < n \<longrightarrow> \<mu> k' < \<mu> k)"

text \<open>Successive batches of the inner socket, received into \<open>c\<close> buffers of 2048 bytes.\<close>

inductive batches :: "'k inner_ops \<Rightarrow> nat \<Rightarrow> 'k \<Rightarrow> (socket_addr \<times> bytes) list \<Rightarrow> 'k \<Rightarrow> bool"
  for ops :: "'k inner_ops" and c :: nat where
  none: "batches ops c k [] k"
| more: "length bufs = c \<Longrightarrow> (\<forall>b\<in>set bufs. length b = 2048) \<Longrightarrow>
    inner_poll_recv ops k bufs meta = (k1, bufs1, meta1, Ready (Inr n)) \<Longrightarrow> 0 < n \<Longrightarrow>
    batches ops c k1 ds k2 \<Longrightarrow> batches ops c k (view bufs1 meta1 n @ ds) k2"

text \<open>The invariant of a socket, and the steps that run interleaved on it.\<close>

definition sock_ok :: "'k hop_socket \<Rightarrow> bool" where
  "sock_ok self \<longleftrightarrow> length (write_buf self) = 2048 \<and>
     (\<forall>i. hop_index self = Some i \<longrightarrow> i < length (hop_addrs self)) \<and>
     (\<forall>n lo hi. hop_task self = Some (n, lo, hi) \<longrightarrow>
        n = length (hop_addrs self) \<and> 1 < n \<and> hop_index self \<noteq> None)"

inductive sock_step ::
    "'k inner_ops \<Rightarrow> (bytes \<Rightarrow> bytes) \<Rightarrow> 'k hop_socket \<Rightarrow> 'k hop_socket \<Rightarrow> bool"
  for ops :: "'k inner_ops" and blake :: "bytes \<Rightarrow> bytes" where
  turn: "rng_ok rng \<Longrightarrow> hop_turn rng s = Some (s', wait) \<Longrightarrow> sock_step ops blake s s'"
| send: "fill_ok fill \<Longrightarrow> try_send ops blake fill s t = Some (s', r) \<Longrightarrow> sock_step ops blake s s'"
| recv: "poll_recv ops blake s bufs meta = Some (Some (s', bufs', meta', p)) \<Longrightarrow> sock_step ops blake s s'"

text \<open>A queue of datagrams as inner socket: the concrete instance of the witnesses.\<close>

fun queue_recv :: "(socket_addr \<times> bytes) list \<times> transmit list \<Rightarrow> bytes list \<Rightarrow> recv_meta list \<Rightarrow>
    ((socket_addr \<times> bytes) list \<times> transmit list) \<times> bytes list \<times> recv_meta list \<times> nat io_result poll" where
  "queue_recv ((a, d) # q, sent) (b # bufs) (m # meta) =
     ((q, sent), (take (length b) d @ drop (length d) b) # bufs,
      \<lparr>rm_addr = a, rm_len = min (length d) (length b), rm_stride = min (length d) (length b),
       rm_ecn = None, rm_dst_ip = None\<rparr> # meta, Ready (Inr 1))"
| "queue_recv k bufs meta = (k, bufs, meta, Pending)"

definition queue_ops :: "((socket_addr \<times> bytes) list \<times> transmit list) inner_ops" where
  "queue_ops = \<lparr>inner_try_send = (\<lambda>(q, sent) t. ((q, sent @ [t]), Inr ())), inner_poll_recv = queue_recv,
     inner_local_addr = (\<lambda>_. Inr (SocketAddr (V4 0) 0)), inner_max_transmit_segments = (\<lambda>_. 1),
     inner_max_receive_segments = (\<lambda>_. 1), inner_may_fragment = (\<lambda>_. False),
     meta_default = \<lparr>rm_addr = SocketAddr (V4 0) 0, rm_len = 0, rm_stride = 0, rm_ecn = None, rm_dst_ip = None\<rparr>\<rparr>"

section \<open>Views and batches\<close>

lemma view_zero [simp]: "view bufs meta 0 = []"
  by (simp add: view_def)

lemma view_length [simp]: "length (view bufs meta n) = n"
  by (simp add: view_def)

lemma view_update_later [simp]: "view (bufs[out := b]) meta out = view bufs meta out"
  by (simp add: view_def)

lemma view_update_Suc:
  "out < length bufs \<Longrightarrow> out < length meta \<Longrightarrow>
   view (bufs[out := b]) (meta[out := m]) (Suc out) = view bufs meta out @ [(rm_addr m, take (rm_len m) b)]"
  by (simp add: view_def)

text \<open>One batch: the datagrams that open and fit are appended, in order, the others skipped.\<close>

lemma uniform_lengths:
  assumes "map length cs' = map length cs" and "\<forall>c\<in>set cs. length c = m"
  shows "(\<forall>c\<in>set cs'. length c = m) \<and> length cs' = length cs"
proof -
  have "length ` set cs' = length ` set cs" using arg_cong [OF assms(1), of set] by simp
  then show ?thesis using assms(2) map_eq_imp_length_eq [OF assms(1)] by force
qed


text \<open>One datagram of a batch: it is dropped, or added to what the buffers hold.\<close>

lemma unmask_one:
  assumes "blake_ok blake" and "k < length tmp" and "k * 2048 + rm_len (tmp ! k) \<le> length scr"
    and "\<forall>b\<in>set bufs. length b = L" and "out < length bufs" and "length bufs \<le> length meta"
  obtains out1 bufs1 meta1 where "\<And>ks. unmask_batch blake ob rewrite scr tmp (k # ks) out bufs meta =
      unmask_batch blake ob rewrite scr tmp ks out1 bufs1 meta1"
    "out \<le> out1" "out1 \<le> Suc out" "map length bufs1 = map length bufs" "length meta1 = length meta"
    "view bufs1 meta1 out1 = view bufs meta out @ List.map_filter (unmasked blake (psk ob) rewrite L)
      [(rm_addr (tmp ! k), take (rm_len (tmp ! k)) (drop (k * 2048) scr))]"
proof -
  let ?m = "tmp ! k" and ?raw = "take (rm_len (tmp ! k)) (drop (k * 2048) scr)" and ?b = "bufs ! out"
  have idx: "index tmp k = Some ?m" "index bufs out = Some ?b"
    "subslice scr (k * 2048) (k * 2048 + rm_len ?m) = Some ?raw"
    using assms by (auto simp: index_def subslice_def drop_take)
  have L: "length ?b = L" using assms(4,5) by simp
  note w = write_at_single [OF assms(5)]
  show ?thesis
  proof (cases "unmasked blake (psk ob) rewrite L (rm_addr ?m, ?raw)")
    case None
    then have "deobfuscate blake ob ?raw ?b = Some (?b, 0)"
      using deobfuscate_eq [OF assms(1), of ob ?raw ?b] L by (auto simp: unmasked_def split: option.splits if_splits)
    then show ?thesis
      using idx w None by (intro that [of out bufs meta]) (simp_all add: SCRATCH_DATAGRAM_def)
  next
    case (Some ap)
    then obtain p where p: "open_packet blake (psk ob) ?raw = Some p" "length p \<le> L"
      "ap = (case rewrite of Some canon \<Rightarrow> canon | None \<Rightarrow> rm_addr ?m, p)"
      by (auto simp: unmasked_def split: option.splits if_splits)
    let ?b' = "p @ drop (length p) ?b"
    let ?mm = "\<lparr>rm_addr = (case rewrite of Some canon \<Rightarrow> canon | None \<Rightarrow> rm_addr ?m),
       rm_len = length p, rm_stride = length p, rm_ecn = rm_ecn ?m, rm_dst_ip = rm_dst_ip ?m\<rparr>"
    have om: "out < length meta" using assms(5,6) by simp
    have "length p \<noteq> 0" "deobfuscate blake ob ?raw ?b = Some (?b', length p)"
      using open_packet_length [OF p(1)] deobfuscate_eq [OF assms(1), of ob ?raw ?b] L p by simp_all
    moreover have "map length (bufs[out := ?b']) = map length bufs"
      using assms(5) L p(2) by (simp add: map_update list_update_same_conv)
    moreover have "view (bufs[out := ?b']) (meta[out := ?mm]) (Suc out) = view bufs meta out @ [ap]"
      using p(3) by (simp add: view_update_Suc [OF assms(5) om])
    ultimately show ?thesis
      using idx w write_at_single [OF om] Some
      by (intro that [of "Suc out" "bufs[out := ?b']" "meta[out := ?mm]"])
        (simp_all add: SCRATCH_DATAGRAM_def)
  qed
qed

lemma unmask_batch_view:
  assumes "blake_ok blake"
    and "\<forall>k\<in>set ks. k < length tmp \<and> k * 2048 + rm_len (tmp ! k) \<le> length scr"
    and "\<forall>b\<in>set bufs. length b = L" and "out + length ks \<le> length bufs" and "length bufs \<le> length meta"
  shows "\<exists>out' bufs' meta'. unmask_batch blake ob rewrite scr tmp ks out bufs meta = Some (out', bufs', meta') \<and>
    out \<le> out' \<and> map length bufs' = map length bufs \<and> length meta' = length meta \<and>
    view bufs' meta' out' = view bufs meta out @ List.map_filter (unmasked blake (psk ob) rewrite L)
      (map (\<lambda>k. (rm_addr (tmp ! k), take (rm_len (tmp ! k)) (drop (k * 2048) scr))) ks)"
  using assms(2-5)
proof (induction ks arbitrary: out bufs meta)
  case (Cons k ks)
  have k: "k < length tmp" "k * 2048 + rm_len (tmp ! k) \<le> length scr" "out < length bufs" using Cons.prems by simp_all
  obtain out1 bufs1 meta1 where one: "unmask_batch blake ob rewrite scr tmp (k # ks) out bufs meta =
      unmask_batch blake ob rewrite scr tmp ks out1 bufs1 meta1" "out \<le> out1" "out1 \<le> Suc out"
    "map length bufs1 = map length bufs" "length meta1 = length meta"
    "view bufs1 meta1 out1 = view bufs meta out @ List.map_filter (unmasked blake (psk ob) rewrite L)
      [(rm_addr (tmp ! k), take (rm_len (tmp ! k)) (drop (k * 2048) scr))]"
    using unmask_one [OF assms(1) k(1,2) Cons.prems(2) k(3) Cons.prems(4), of ob rewrite] by metis
  note u = uniform_lengths [OF one(4) Cons.prems(2)]
  then have pr: "\<forall>k\<in>set ks. k < length tmp \<and> k * 2048 + rm_len (tmp ! k) \<le> length scr"
    "out1 + length ks \<le> length bufs1" "length bufs1 \<le> length meta1" using Cons.prems one(3,5) by simp_all
  from Cons.IH [OF pr(1) conjunct1 [OF u] pr(2,3)] one show ?case by (auto simp: List.map_filter_def)
qed (simp add: List.map_filter_def)

text \<open>The scratch buffer as a row of datagrams.\<close>

lemma drop_concat_uniform:
  "\<forall>c\<in>set cs. length c = m \<Longrightarrow> k < length cs \<Longrightarrow>
   drop (k * m) (concat cs @ r) = cs ! k @ concat (drop (Suc k) cs) @ r"
proof (induction cs arbitrary: k)
  case (Cons c cs)
  then show ?case by (cases k) (auto simp: add.commute)
qed simp

lemma concat_uniform_length: "\<forall>c\<in>set cs. length c = m \<Longrightarrow> length (concat cs) = length cs * m"
  by (induction cs) auto

lemma scratch_chunks_uniform:
  "count * 2048 \<le> length scr \<Longrightarrow> \<forall>c\<in>set (scratch_chunks count scr). length c = 2048"
proof -
  assume a: "count * 2048 \<le> length scr"
  have "2048 \<le> length scr - k * 2048" if "k < count" for k
  proof -
    have "Suc k * 2048 \<le> count * 2048" using that by (intro mult_le_mono) auto
    then show ?thesis using a by simp
  qed
  then show ?thesis by (auto simp: scratch_chunks_def SCRATCH_DATAGRAM_def)
qed

text \<open>What the inner socket filled in, read back from the scratch buffer.\<close>

lemma scratch_view:
  assumes "\<forall>c\<in>set chunks. length c = 2048" and "n \<le> length chunks" and "n \<le> length tmeta"
    and "\<forall>j < n. rm_len (tmeta ! j) \<le> length (chunks ! j)"
  shows "map (\<lambda>k. (rm_addr ((tmeta @ r) ! k), take (rm_len ((tmeta @ r) ! k)) (drop (k * 2048) (concat chunks @ s)))) [0..<n]
      = view chunks tmeta n"
    and "\<forall>k\<in>set [0..<n]. k < length (tmeta @ r) \<and> k * 2048 + rm_len ((tmeta @ r) ! k) \<le> length (concat chunks @ s)"
proof -
  have d: "drop (k * 2048) (concat chunks @ s) = chunks ! k @ concat (drop (Suc k) chunks) @ s" if "k < n" for k
    using drop_concat_uniform [OF assms(1), of k s] that assms(2) by simp
  show "map (\<lambda>k. (rm_addr ((tmeta @ r) ! k), take (rm_len ((tmeta @ r) ! k)) (drop (k * 2048) (concat chunks @ s)))) [0..<n]
      = view chunks tmeta n"
    unfolding view_def
  proof (intro map_cong refl)
    fix k assume "k \<in> set [0..<n]"
    then have k: "k < n" by simp
    then have "(tmeta @ r) ! k = tmeta ! k" using assms(3) by (simp add: nth_append)
    then show "(rm_addr ((tmeta @ r) ! k), take (rm_len ((tmeta @ r) ! k)) (drop (k * 2048) (concat chunks @ s)))
        = (rm_addr (tmeta ! k), take (rm_len (tmeta ! k)) (chunks ! k))"
      unfolding d [OF k] using assms(4) k by simp
  qed
  have "k * 2048 + rm_len (tmeta ! k) \<le> length (concat chunks @ s)" if k: "k < n" for k
  proof -
    have "length (chunks ! k) = 2048" using k assms(1,2) by simp
    moreover have "length (drop (k * 2048) (concat chunks @ s)) \<ge> length (chunks ! k)" unfolding d [OF k] by simp
    ultimately show ?thesis using assms(4) k by fastforce
  qed
  then show "\<forall>k\<in>set [0..<n]. k < length (tmeta @ r) \<and> k * 2048 + rm_len ((tmeta @ r) ! k) \<le> length (concat chunks @ s)"
    using assms(3) by (simp add: nth_append)
qed

section \<open>The receive loop\<close>

text \<open>
  How the receive loop ends: with the datagrams of the batches it went through that open and
  fit; or, when there are none, with the answer of the inner socket's last poll.
\<close>

definition recv_answer ::
    "'k inner_ops \<Rightarrow> (socket_addr \<times> bytes) list \<Rightarrow> 'k \<Rightarrow> 'k \<Rightarrow>
     bytes list \<Rightarrow> recv_meta list \<Rightarrow> nat io_result poll \<Rightarrow> bool" where
  "recv_answer ops vs k1 k' bufs meta p \<longleftrightarrow>
     (if vs \<noteq> [] then k' = k1 \<and> p = Ready (Inr (length vs)) \<and> view bufs meta (length vs) = vs
      else (\<forall>n. p = Ready (Inr n) \<longrightarrow> n = 0) \<and>
        (\<exists>b m b' m'. inner_poll_recv ops k1 b m = (k', b', m', p)))"

definition recv_ends ::
    "'k inner_ops \<Rightarrow> (socket_addr \<times> bytes \<Rightarrow> (socket_addr \<times> bytes) option) \<Rightarrow> nat \<Rightarrow> 'k \<Rightarrow> 'k \<Rightarrow>
     bytes list \<Rightarrow> recv_meta list \<Rightarrow> nat io_result poll \<Rightarrow> bool" where
  "recv_ends ops f c k k' bufs meta p \<longleftrightarrow>
     (\<exists>ds k1. batches ops c k ds k1 \<and> recv_answer ops (List.map_filter f ds) k1 k' bufs meta p)"

lemma recv_ends_more:
  assumes "recv_ends ops f c k1 k' bufs' meta' p"
    and "length bufs = c" and "\<forall>b\<in>set bufs. length b = 2048"
    and "inner_poll_recv ops k bufs meta = (k1, bufs1, meta1, Ready (Inr n))" and "0 < n"
    and "List.map_filter f (view bufs1 meta1 n) = []"
  shows "recv_ends ops f c k k' bufs' meta' p"
proof -
  obtain ds k2 where ds: "batches ops c k1 ds k2" "recv_answer ops (List.map_filter f ds) k2 k' bufs' meta' p"
    using assms(1) by (auto simp: recv_ends_def)
  have "batches ops c k (view bufs1 meta1 n @ ds) k2" by (rule batches.more [OF assms(2-5) ds(1)])
  moreover have "List.map_filter f (view bufs1 meta1 n @ ds) = List.map_filter f ds"
    using assms(6) by (simp add: List.map_filter_def)
  ultimately show ?thesis unfolding recv_ends_def using ds(2) by metis
qed

text \<open>A turn of the loop that is the last: nothing has arrived, or the inner socket fails.\<close>

lemma recv_loop_stops:
  assumes "inner_poll_recv ops k (scratch_chunks count scr) (take count tmp) = (k1, chunks, tmeta, p)"
    and "\<nexists>n. 0 < n \<and> p = Ready (Inr n)"
  shows "recv_loop ops blake ob rewrite count k scr tmp bufs meta =
      Some (Some (k1, concat chunks @ drop (count * 2048) scr, tmeta @ drop count tmp, bufs, meta, p))"
    and "recv_ends ops f count k k1 bufs meta p"
proof -
  consider "p = Pending" | e where "p = Ready (Inl e)" | "p = Ready (Inr 0)"
    using assms(2) by (metis gr0I poll.exhaust sum.exhaust_sel)
  then show "recv_loop ops blake ob rewrite count k scr tmp bufs meta =
      Some (Some (k1, concat chunks @ drop (count * 2048) scr, tmeta @ drop count tmp, bufs, meta, p))"
    using assms(1) by cases (simp_all add: recv_loop.simps [of _ _ _ _ _ k scr] SCRATCH_DATAGRAM_def Let_def)
  show "recv_ends ops f count k k1 bufs meta p"
    unfolding recv_ends_def
  proof (intro exI conjI)
    show "batches ops count k [] k" by (rule batches.none)
    show "recv_answer ops (List.map_filter f []) k k1 bufs meta p"
      using assms by (auto simp: recv_answer_def)
  qed
qed

text \<open>A turn with a batch: it returns the datagrams that open, or the loop goes on.\<close>

lemma recv_loop_turn:
  assumes "inner_recv_ok ops" and "blake_ok blake" and "count * 2048 \<le> length scr" and "count \<le> length tmp"
    and "\<forall>b\<in>set bufs. length b = L" and "length bufs = count" and "count \<le> length meta"
    and r: "inner_poll_recv ops k (scratch_chunks count scr) (take count tmp) = (k1, chunks, tmeta, Ready (Inr n))" and "0 < n"
  obtains out scr' tmp' bufs' meta' where
    "recv_loop ops blake ob rewrite count k scr tmp bufs meta =
      (if out > 0 then Some (Some (k1, scr', tmp', bufs', meta', Ready (Inr out)))
       else recv_loop ops blake ob rewrite count k1 scr' tmp' bufs' meta')"
    "count * 2048 \<le> length scr'" "count \<le> length tmp'" "\<forall>b\<in>set bufs'. length b = L" "length bufs' = count"
    "length meta' = length meta"
    "view bufs' meta' out = List.map_filter (unmasked blake (psk ob) rewrite L) (view chunks tmeta n)"
proof -
  let ?scr = "concat chunks @ drop (count * 2048) scr" and ?tmp = "tmeta @ drop count tmp"
  have law: "map length chunks = map length (scratch_chunks count scr)" "length tmeta = count"
    "n \<le> count" "\<forall>j < n. rm_len (tmeta ! j) \<le> length (chunks ! j)"
    using assms(1,4) r unfolding inner_recv_ok_def by (fastforce simp: scratch_chunks_def)+
  have chunks: "\<forall>c\<in>set chunks. length c = 2048" "length chunks = count"
    using uniform_lengths [OF law(1) scratch_chunks_uniform [OF assms(3)]] by (auto simp: scratch_chunks_def)
  have v: "map (\<lambda>k. (rm_addr (?tmp ! k), take (rm_len (?tmp ! k)) (drop (k * 2048) ?scr))) [0..<n] = view chunks tmeta n"
    "\<forall>k\<in>set [0..<n]. k < length ?tmp \<and> k * 2048 + rm_len (?tmp ! k) \<le> length ?scr"
    using scratch_view [OF chunks(1), of n tmeta "drop count tmp" "drop (count * 2048) scr"] chunks law by simp_all
  from unmask_batch_view [OF assms(2) v(2) assms(5), of 0 meta ob rewrite] law(3) assms(6,7)
  obtain out bufs' meta' where b: "unmask_batch blake ob rewrite ?scr ?tmp [0..<n] 0 bufs meta = Some (out, bufs', meta')"
    "map length bufs' = map length bufs" "length meta' = length meta"
    "view bufs' meta' out = List.map_filter (unmasked blake (psk ob) rewrite L) (view chunks tmeta n)" unfolding v(1) by auto
  show ?thesis
  proof (rule that [of out ?scr ?tmp bufs' meta'])
    show "recv_loop ops blake ob rewrite count k scr tmp bufs meta =
        (if out > 0 then Some (Some (k1, ?scr, ?tmp, bufs', meta', Ready (Inr out)))
         else recv_loop ops blake ob rewrite count k1 ?scr ?tmp bufs' meta')"
      using r assms(9) b(1) by (subst recv_loop.simps) (simp add: SCRATCH_DATAGRAM_def Let_def)
  qed (use uniform_lengths [OF b(2) assms(5)] concat_uniform_length [OF chunks(1)] chunks(2) law(2) b(3,4) assms(6) in simp_all)
qed

lemma recv_loop_ends:
  assumes "inner_recv_ok ops" and "drains ops \<mu>" and "blake_ok blake"
    and "count * 2048 \<le> length scr" and "count \<le> length tmp"
    and "\<forall>b\<in>set bufs. length b = L" and "length bufs = count" and "count \<le> length meta"
  shows "\<exists>k' scr' tmp' bufs' meta' p.
    recv_loop ops blake ob rewrite count k scr tmp bufs meta = Some (Some (k', scr', tmp', bufs', meta', p)) \<and>
    recv_ends ops (unmasked blake (psk ob) rewrite L) count k k' bufs' meta' p"
  using assms(4-8)
proof (induction "\<mu> k" arbitrary: k scr tmp bufs meta rule: less_induct)
  case less
  let ?f = "unmasked blake (psk ob) rewrite L"
  obtain k1 chunks tmeta p where r:
    "inner_poll_recv ops k (scratch_chunks count scr) (take count tmp) = (k1, chunks, tmeta, p)"
    by (metis prod_cases4)
  show ?case
  proof (cases "\<exists>n. 0 < n \<and> p = Ready (Inr n)")
    case False
    then show ?thesis using recv_loop_stops [OF r] by blast
  next
    case True
    then obtain n where n: "0 < n" "p = Ready (Inr n)" by blast
    note r = r [unfolded n(2)] and sc = scratch_chunks_uniform [OF less.prems(1)]
    have len: "length (scratch_chunks count scr) = count" by (simp add: scratch_chunks_def)
    obtain out scr' tmp' bufs' meta' where step: "recv_loop ops blake ob rewrite count k scr tmp bufs meta =
        (if out > 0 then Some (Some (k1, scr', tmp', bufs', meta', Ready (Inr out)))
         else recv_loop ops blake ob rewrite count k1 scr' tmp' bufs' meta')"
      and ok: "count * 2048 \<le> length scr'" "count \<le> length tmp'" "\<forall>b\<in>set bufs'. length b = L" "length bufs' = count"
        "length meta' = length meta"
      and v: "view bufs' meta' out = List.map_filter ?f (view chunks tmeta n)"
      using recv_loop_turn [OF assms(1,3) less.prems r n(1)] by metis
    have out: "out = length (List.map_filter ?f (view chunks tmeta n))" using v by (metis view_length)
    show ?thesis
    proof (cases "out > 0")
      case True
      have "batches ops count k (view chunks tmeta n @ []) k1"
        using batches.more [OF len sc r n(1)] batches.none by metis
      then have "recv_ends ops ?f count k k1 bufs' meta' (Ready (Inr out))"
        unfolding recv_ends_def using True out v
        by (intro exI [of _ "view chunks tmeta n @ []"] exI [of _ k1]) (simp add: recv_answer_def)
      with step True show ?thesis by auto
    next
      case False
      have "\<mu> k1 < \<mu> k" using assms(2) r n unfolding drains_def by blast
      from less.hyps [OF this ok(1-4), of meta'] ok(5) less.prems(5) obtain k' scr2 tmp2 bufs2 meta2 p' where IH:
        "recv_loop ops blake ob rewrite count k1 scr' tmp' bufs' meta' = Some (Some (k', scr2, tmp2, bufs2, meta2, p'))"
        "recv_ends ops ?f count k1 k' bufs2 meta2 p'" by auto
      from recv_ends_more [OF IH(2) len sc r n(1)] False out IH(1) step show ?thesis by simp
    qed
  qed
qed

section \<open>The invariant\<close>

lemma rng_draw: "rng_ok rng \<Longrightarrow> random_range (rng i) m = Some j \<Longrightarrow> j < m"
  by (auto simp: random_range_def rng_ok_def split: if_splits)

lemma current_dest_ok:
  assumes "sock_ok self" and "hop_index self = Some i"
  shows "\<exists>dest. current_dest self = Some dest \<and> dest \<in> set (hop_addrs self)"
  using assms by (auto simp: sock_ok_def current_dest_def index_def intro!: nth_mem)

text \<open>What a send hands to the inner socket.\<close>

lemma try_send_eq:
  assumes "sock_ok self" and "blake_ok blake" and "fill_ok fill"
  shows "\<exists>dest. (if hop_index self = None then dest = destination t else dest \<in> set (hop_addrs self)) \<and>
    try_send ops blake fill self t = Some
      (case obfs self of
         None \<Rightarrow> (case inner_try_send ops (inner self) (t\<lparr>destination := dest\<rparr>) of (k, r) \<Rightarrow> (self\<lparr>inner := k\<rparr>, r))
       | Some ob \<Rightarrow>
           if 2040 < length (contents t) then (self, Inr ())
           else let w = salamander_packet blake (psk ob) (fill 8) (contents t) in
             (case inner_try_send ops (inner self) (t\<lparr>destination := dest, contents := w, segment_size := None\<rparr>) of
                (k, r) \<Rightarrow> (self\<lparr>inner := k, write_buf := w @ drop (length w) (write_buf self)\<rparr>, r)))"
proof -
  obtain dest where d: "if hop_index self = None then dest = destination t else dest \<in> set (hop_addrs self)"
    "(if hop_index self \<noteq> None then current_dest self else Some (destination t)) = Some dest"
    using current_dest_ok [OF assms(1)] by (cases "hop_index self") auto
  have t0: "\<lparr>destination = dest, ecn = ecn t, contents = contents t, segment_size = segment_size t, src_ip = src_ip t\<rparr>
      = t\<lparr>destination := dest\<rparr>" by simp
  have w: "length (write_buf self) = 2048" using assms(1) by (simp add: sock_ok_def)
  have f: "length (fill 8) = 8" using assms(3) by (simp add: fill_ok_def)
  show ?thesis
  proof (cases "obfs self")
    case None
    then show ?thesis using d by (intro exI [of _ dest]) (simp add: try_send_def t0 split: prod.split)
  next
    case (Some ob)
    let ?w = "salamander_packet blake (psk ob) (fill 8) (contents t)"
    have "length ?w = length (contents t) + 8" using f by (simp add: salamander_packet_def)
    then show ?thesis
      using d Some obfuscate_eq [OF assms(2,3), of ob "contents t" "write_buf self"] w
      by (intro exI [of _ dest], cases t) (auto simp: try_send_def subslice_def Let_def split: prod.split)
  qed
qed

lemma sock_ok_new:
  assumes "rng_ok rng" and "hop_socket_new rng k canon ob hop = Some (Some s)"
  shows "sock_ok s"
proof -
  have "i < length as" if "random_range (rng 0) (length as) = Some i" for as :: "socket_addr list" and i
    using rng_draw [OF assms(1) that] .
  with assms(2) show ?thesis
    by (auto simp: hop_socket_new_def sock_ok_def SCRATCH_DATAGRAM_def
        split: if_splits option.splits Option.bind_splits)
qed

lemma poll_recv_fields:
  assumes "poll_recv ops blake s bufs meta = Some (Some (s', bufs', meta', p))"
  shows "write_buf s' = write_buf s \<and> hop_index s' = hop_index s \<and> hop_addrs s' = hop_addrs s \<and>
    hop_task s' = hop_task s \<and> canonical s' = canonical s \<and> obfs s' = obfs s"
  using assms by (auto simp: poll_recv_def Let_def split: option.splits prod.splits poll.splits sum.splits)

lemma hop_turn_ok:
  assumes "rng_ok rng" and "sock_ok s" and "hop_task s = Some (n, lo, hi)"
  shows "\<exists>i wait. hop_turn rng s = Some (s\<lparr>hop_index := Some i\<rparr>, wait) \<and> i < n \<and> lo \<le> wait \<and> wait \<le> max lo hi"
proof -
  have n: "0 < n" using assms(2,3) by (auto simp: sock_ok_def)
  then obtain i where i: "random_range (rng 1) n = Some i" "i < n"
    using assms(1) by (auto simp: random_range_def rng_ok_def)
  let ?m = "(hi - lo) div 1000000 mod 2 ^ 64 + 1"
  have "rng 0 ?m < ?m" using assms(1) by (simp add: rng_ok_def)
  then have "rng 0 ?m \<le> (hi - lo) div 1000000" using mod_less_eq_dividend [of "(hi - lo) div 1000000" "2 ^ 64"] by linarith
  then have "rng 0 ?m * 1000000 \<le> hi - lo" by (simp add: less_eq_div_iff_mult_less_eq)
  then have "\<exists>wait. hop_wait (rng 0) lo hi = Some wait \<and> lo \<le> wait \<and> wait \<le> max lo hi"
    by (auto simp: hop_wait_def random_range_def)
  then show ?thesis using i assms(3) by (auto simp: hop_turn_def)
qed

lemma sock_step_inv:
  assumes "sock_step ops blake s s'" and "blake_ok blake" and "sock_ok s"
  shows "sock_ok s' \<and> hop_addrs s' = hop_addrs s \<and> canonical s' = canonical s \<and> hop_task s' = hop_task s \<and> obfs s' = obfs s"
  using assms(1)
proof (cases rule: sock_step.cases)
  case (turn rng wait)
  show ?thesis
  proof (cases "hop_task s")
    case None
    then show ?thesis using turn(2) assms(3) by (simp add: hop_turn_def)
  next
    case (Some task)
    obtain n lo hi where task: "hop_task s = Some (n, lo, hi)" using Some by (cases task) auto
    from hop_turn_ok [OF turn(1) assms(3) this] turn(2) obtain i where "s' = s\<lparr>hop_index := Some i\<rparr>" "i < n" by auto
    then show ?thesis using assms(3) task by (auto simp: sock_ok_def)
  qed
next
  case (send fill t r)
  have f: "length (fill 8) = 8" using send(1) by (simp add: fill_ok_def)
  from try_send_eq [OF assms(3,2) send(1), of t ops] obtain dest where
    eq: "try_send ops blake fill s t = Some
      (case obfs s of
         None \<Rightarrow> (case inner_try_send ops (inner s) (t\<lparr>destination := dest\<rparr>) of (k, r) \<Rightarrow> (s\<lparr>inner := k\<rparr>, r))
       | Some ob \<Rightarrow>
           if 2040 < length (contents t) then (s, Inr ())
           else let w = salamander_packet blake (psk ob) (fill 8) (contents t) in
             (case inner_try_send ops (inner s) (t\<lparr>destination := dest, contents := w, segment_size := None\<rparr>) of
                (k, r) \<Rightarrow> (s\<lparr>inner := k, write_buf := w @ drop (length w) (write_buf s)\<rparr>, r)))" by blast
  have "length (salamander_packet blake k (fill 8) (contents t)) = length (contents t) + 8" for k
    using f by (simp add: salamander_packet_def)
  with send(2) [unfolded eq] assms(3) show ?thesis
    by (cases "obfs s") (auto simp: sock_ok_def Let_def split: if_splits prod.splits)
next
  case (recv bufs meta bufs' meta' p)
  then show ?thesis using poll_recv_fields [OF recv] assms(3) by (simp add: sock_ok_def)
qed

lemma sock_reachable_inv:
  assumes "rtranclp (sock_step ops blake) s s'" and "blake_ok blake" and "sock_ok s"
  shows "sock_ok s' \<and> hop_addrs s' = hop_addrs s \<and> canonical s' = canonical s \<and> hop_task s' = hop_task s \<and> obfs s' = obfs s"
  using assms(1)
proof induction
  case (step t u)
  then show ?case using sock_step_inv [OF step(2) assms(2)] by simp
qed (simp add: assms(3))

text \<open>A socket without a hop task keeps the index it has.\<close>

lemma sock_step_index:
  assumes "sock_step ops blake s s'" and "hop_task s = None"
  shows "hop_index s' = hop_index s \<and> hop_task s' = None"
  using assms(1)
proof cases
  case (send fill t r)
  then show ?thesis
    using assms(2) by (auto simp: try_send_def Let_def split: option.splits if_splits prod.splits Option.bind_splits)
next
  case (recv bufs meta bufs' meta' p)
  then show ?thesis using poll_recv_fields [OF recv] assms(2) by simp
qed (use assms(2) in \<open>simp add: hop_turn_def\<close>)

lemma sock_reachable_index:
  "rtranclp (sock_step ops blake) s s' \<Longrightarrow> hop_task s = None \<Longrightarrow> hop_index s' = hop_index s \<and> hop_task s' = None"
  by (induction rule: rtranclp_induct) (auto dest: sock_step_index)

lemma queue_ops_ok: "inner_recv_ok queue_ops" "drains queue_ops (\<lambda>(q, sent). length q)"
proof -
  have "map length bufs' = map length bufs \<and> length meta' = length meta \<and>
      (\<forall>n. p = Ready (Inr n) \<longrightarrow> n \<le> length bufs \<and> n \<le> length meta \<and>
        (\<forall>j < n. rm_len (meta' ! j) \<le> length (bufs' ! j)) \<and> length (fst k') < length (fst k))"
    if "queue_recv k bufs meta = (k', bufs', meta', p)" for k bufs meta k' bufs' meta' p
    using that by (cases "(k, bufs, meta)" rule: queue_recv.cases) (auto simp: less_Suc_eq)
  then show "inner_recv_ok queue_ops" "drains queue_ops (\<lambda>(q, sent). length q)"
    unfolding inner_recv_ok_def drains_def queue_ops_def by (fastforce simp: case_prod_beta)+
qed

section \<open>Properties\<close>

text \<open>
  C14. Receiving under obfuscation. Over any inner socket that keeps its contract and whose
  queue is finite, \<open>poll_recv\<close> returns and does not panic. What it hands to quinn are, in order,
  the payloads of exactly those received datagrams that open under the key and fit the
  caller's buffers, with the canonical source when hopping and the real source otherwise;
  when there are none it passes on the inner socket's own answer.
\<close>

theorem obfuscated_recv_delivers:
  assumes "inner_recv_ok ops" and "drains ops \<mu>" and "blake_ok blake" and "obfs self = Some ob"
    and "\<forall>b\<in>set bufs. length b = L" and "length bufs \<le> length meta"
  defines "rewrite \<equiv> (if hop_index self \<noteq> None then Some (canonical self) else None)"
  shows "\<exists>self' bufs' meta' p ds k1. poll_recv ops blake self bufs meta = Some (Some (self', bufs', meta', p)) \<and>
    batches ops (length bufs) (inner self) ds k1 \<and>
    recv_answer ops (List.map_filter (unmasked blake (psk ob) rewrite L) ds) k1 (inner self') bufs' meta' p"
proof -
  obtain scr tmp where st: "recv_scratch self = (scr, tmp)" by fastforce
  let ?scr = "if length scr < length bufs * SCRATCH_DATAGRAM then resize scr (length bufs * SCRATCH_DATAGRAM) 0 else scr"
  let ?tmp = "if length tmp < length bufs then resize tmp (length bufs) (meta_default ops) else tmp"
  have "length bufs * 2048 \<le> length ?scr" "length bufs \<le> length ?tmp"
    by (auto simp: resize_def SCRATCH_DATAGRAM_def)
  from recv_loop_ends [OF assms(1-3) this assms(5) refl assms(6), of ob rewrite "inner self"]
  obtain k' scr' tmp' bufs' meta' p where r:
    "recv_loop ops blake ob rewrite (length bufs) (inner self) ?scr ?tmp bufs meta =
       Some (Some (k', scr', tmp', bufs', meta', p))"
    "recv_ends ops (unmasked blake (psk ob) rewrite L) (length bufs) (inner self) k' bufs' meta' p" by blast
  then have "poll_recv ops blake self bufs meta =
      Some (Some (self\<lparr>inner := k', recv_scratch := (scr', tmp')\<rparr>, bufs', meta', p))"
    unfolding poll_recv_def Let_def assms(4) st rewrite_def option.case prod.case
    by (simp only: option.map prod.case)
  moreover obtain ds k1 where "batches ops (length bufs) (inner self) ds k1"
    "recv_answer ops (List.map_filter (unmasked blake (psk ob) rewrite L) ds) k1 k' bufs' meta' p"
    using r(2) unfolding recv_ends_def by blast
  ultimately show ?thesis
    by (intro exI [of _ "self\<lparr>inner := k', recv_scratch := (scr', tmp')\<rparr>"] exI) auto
qed

theorem obfuscated_recv_delivers_witness:
  "\<exists>self' bufs' meta' p ds k1.
    poll_recv queue_ops (\<lambda>m. replicate 32 1)
      \<lparr>inner = ([(SocketAddr (V4 9) 443, [1, 2, 3, 4, 5, 6, 7, 8, 100])], []), obfs = Some \<lparr>psk = [1, 2, 3, 4]\<rparr>,
       hop_index = None, hop_addrs = [], canonical = SocketAddr (V4 9) 443, write_buf = [],
       recv_scratch = ([], []), hop_task = None\<rparr>
      [[0, 0]] [meta_default queue_ops] = Some (Some (self', bufs', meta', p)) \<and>
    batches queue_ops 1 ([(SocketAddr (V4 9) 443, [1, 2, 3, 4, 5, 6, 7, 8, 100])], []) ds k1 \<and>
    recv_answer queue_ops (List.map_filter (unmasked (\<lambda>m. replicate 32 1) [1, 2, 3, 4] None 2) ds) k1
      (inner self') bufs' meta' p"
proof -
  let ?s = "\<lparr>inner = ([(SocketAddr (V4 9) 443, [1, 2, 3, 4, 5, 6, 7, 8, 100])], []), obfs = Some \<lparr>psk = [1, 2, 3, 4]\<rparr>,
       hop_index = None, hop_addrs = [], canonical = SocketAddr (V4 9) 443, write_buf = [],
       recv_scratch = ([], []), hop_task = None\<rparr>"
  have "blake_ok (\<lambda>m. replicate 32 1)" "obfs ?s = Some \<lparr>psk = [1, 2, 3, 4]\<rparr>" "\<forall>b\<in>set [[0, 0 :: u8]]. length b = 2"
    "length [[0, 0 :: u8]] \<le> length [meta_default queue_ops]" by (simp_all add: blake_ok_def)
  from obfuscated_recv_delivers [OF queue_ops_ok this] show ?thesis by simp
qed

text \<open>
  Without obfuscation, the socket hands quinn the inner socket's datagrams unchanged and in
  place, except that a hopping socket reports every one of them as coming from the canonical
  address.
\<close>

theorem hop_recv_rewrites:
  assumes "inner_recv_ok ops" and "obfs self = None"
    and "inner_poll_recv ops (inner self) bufs meta = (k, bufs', meta', Ready (Inr n))"
  shows "\<exists>meta''. poll_recv ops blake self bufs meta = Some (Some (self\<lparr>inner := k\<rparr>, bufs', meta'', Ready (Inr n))) \<and>
    length meta'' = length meta \<and>
    view bufs' meta'' n =
      map (\<lambda>(a, d). (if hop_index self = None then a else canonical self, d)) (view bufs' meta' n)"
proof -
  have n: "n \<le> length meta'" "length meta' = length meta"
    using assms(1,3) unfolding inner_recv_ok_def by fastforce+
  let ?m = "map (\<lambda>m. m\<lparr>rm_addr := canonical self\<rparr>) (take n meta') @ drop n meta'"
  have "view bufs' ?m n = map (\<lambda>(a, d). (canonical self, d)) (view bufs' meta' n)"
    using n by (simp add: view_def nth_append comp_def)
  then show ?thesis
    using assms(2,3) n by (cases "hop_index self") (simp_all add: poll_recv_def case_prod_beta)
qed

theorem hop_recv_rewrites_witness:
  "\<exists>meta''. poll_recv queue_ops (\<lambda>_. [])
      \<lparr>inner = ([(SocketAddr (V4 9) 7001, [100])], []), obfs = None, hop_index = Some 1,
       hop_addrs = [SocketAddr (V4 9) 7000, SocketAddr (V4 9) 7001], canonical = SocketAddr (V4 9) 7000,
       write_buf = [], recv_scratch = ([], []), hop_task = None\<rparr>
      [[0, 0]] [meta_default queue_ops] =
     Some (Some (\<lparr>inner = ([], []), obfs = None, hop_index = Some 1,
       hop_addrs = [SocketAddr (V4 9) 7000, SocketAddr (V4 9) 7001], canonical = SocketAddr (V4 9) 7000,
       write_buf = [], recv_scratch = ([], []), hop_task = None\<rparr>, [[100, 0]], meta'', Ready (Inr 1))) \<and>
     view [[100, 0]] meta'' 1 = [(SocketAddr (V4 9) 7000, [100])]"
proof -
  let ?s = "\<lparr>inner = ([(SocketAddr (V4 9) 7001, [100])], []), obfs = None, hop_index = Some 1,
       hop_addrs = [SocketAddr (V4 9) 7000, SocketAddr (V4 9) 7001], canonical = SocketAddr (V4 9) 7000,
       write_buf = [], recv_scratch = ([], []), hop_task = None\<rparr>"
  have "obfs ?s = None" "inner_poll_recv queue_ops (inner ?s) [[0, 0]] [meta_default queue_ops] =
      (([], []), [[100, 0]], [\<lparr>rm_addr = SocketAddr (V4 9) 7001, rm_len = 1, rm_stride = 1, rm_ecn = None, rm_dst_ip = None\<rparr>],
       Ready (Inr 1))" by (simp_all add: queue_ops_def)
  from hop_recv_rewrites [OF queue_ops_ok(1) this, of "\<lambda>_. []"] show ?thesis by (simp add: view_def) blast
qed

text \<open>
  Sending. A socket in its invariant does not panic and keeps it. A hopping socket sends to
  one of its ports, any other to quinn's destination; without obfuscation the datagram is
  otherwise unchanged, with it the datagram on the wire is the Salamander packet of the
  contents under a fresh salt, and contents over 2040 bytes are dropped and reported as sent.
\<close>

theorem hop_send_wire:
  assumes "sock_ok self" and "blake_ok blake" and "fill_ok fill"
  shows "\<exists>self' r dest. try_send ops blake fill self t = Some (self', r) \<and> sock_ok self' \<and>
    (if hop_index self = None then dest = destination t else dest \<in> set (hop_addrs self)) \<and>
    (case obfs self of
       None \<Rightarrow> (inner self', r) = inner_try_send ops (inner self) (t\<lparr>destination := dest\<rparr>)
     | Some ob \<Rightarrow>
         if 2040 < length (contents t) then self' = self \<and> r = Inr ()
         else (inner self', r) = inner_try_send ops (inner self)
           (t\<lparr>destination := dest, contents := salamander_packet blake (psk ob) (fill 8) (contents t),
              segment_size := None\<rparr>))"
proof -
  note e = try_send_eq [OF assms, of t ops]
  then obtain self' r where r: "try_send ops blake fill self t = Some (self', r)" by fastforce
  have "sock_ok self'" using sock_step_inv [OF sock_step.send [OF assms(3) r] assms(2,1)] by simp
  with e r show ?thesis
    by (intro exI [of _ self'] exI [of _ r])
      (cases "obfs self"; fastforce simp: Let_def split: if_splits prod.splits)
qed

theorem hop_send_wire_witness:
  "\<exists>self'. try_send queue_ops (\<lambda>m. replicate 32 1) (\<lambda>n. replicate n 7)
      \<lparr>inner = ([], []), obfs = Some \<lparr>psk = [1, 2, 3, 4]\<rparr>, hop_index = None, hop_addrs = [],
       canonical = SocketAddr (V4 9) 443, write_buf = replicate 2048 0, recv_scratch = ([], []), hop_task = None\<rparr>
      \<lparr>destination = SocketAddr (V4 9) 443, ecn = None, contents = [100], segment_size = None, src_ip = None\<rparr>
      = Some (self', Inr ()) \<and>
    inner self' = ([], [\<lparr>destination = SocketAddr (V4 9) 443, ecn = None, contents = replicate 8 7 @ [101],
      segment_size = None, src_ip = None\<rparr>])"
proof -
  let ?s = "\<lparr>inner = ([], []), obfs = Some \<lparr>psk = [1, 2, 3, 4]\<rparr>, hop_index = None, hop_addrs = [],
       canonical = SocketAddr (V4 9) 443, write_buf = replicate 2048 0, recv_scratch = ([], []), hop_task = None\<rparr>"
  have h: "sock_ok ?s" "blake_ok (\<lambda>m. replicate 32 1)" "fill_ok (\<lambda>n. replicate n 7)"
    by (simp_all add: sock_ok_def blake_ok_def fill_ok_def)
  from hop_send_wire [OF h, of queue_ops
      "\<lparr>destination = SocketAddr (V4 9) 443, ecn = None, contents = [100], segment_size = None, src_ip = None\<rparr>"]
  show ?thesis by (auto simp: queue_ops_def salamander_packet_def)
qed

text \<open>
  C20. Port hopping keeps to its range. However sends, receives and turns of the hop task
  interleave on a socket built from a hop configuration with at least two addresses, the
  destination is always one of the configured addresses, the canonical address does not
  change, and each turn of the task waits between the two bounds of the interval.
\<close>

theorem hop_stays_in_range:
  assumes "rng_ok rng" and "blake_ok blake" and "1 < length (hc_addrs cfg)"
    and "hop_socket_new rng k canon ob (Some cfg) = Some (Some s0)"
    and "rtranclp (sock_step ops blake) s0 s" and "rng_ok rng'"
  shows "canonical s = canon \<and> (\<exists>dest. current_dest s = Some dest \<and> dest \<in> set (hc_addrs cfg)) \<and>
    (\<exists>s' wait. hop_turn rng' s = Some (s', wait) \<and>
       interval_min cfg \<le> wait \<and> wait \<le> max (interval_min cfg) (interval_max cfg))"
proof -
  have s0: "sock_ok s0" by (rule sock_ok_new [OF assms(1,4)])
  have f: "hop_addrs s0 = hc_addrs cfg" "canonical s0 = canon"
    "hop_task s0 = Some (length (hc_addrs cfg), interval_min cfg, interval_max cfg)"
    using assms(3,4) by (auto simp: hop_socket_new_def split: Option.bind_splits)
  note inv = sock_reachable_inv [OF assms(5,2) s0, unfolded f]
  then obtain i where "hop_index s = Some i" by (auto simp: sock_ok_def)
  with current_dest_ok [of s i] hop_turn_ok [OF assms(6), of s] inv show ?thesis by fastforce
qed

theorem hop_stays_in_range_witness:
  "\<exists>s0 dest. hop_socket_new (\<lambda>i m. m - 1) () (SocketAddr (V4 9) 7000) None
      (Some \<lparr>hc_addrs = [SocketAddr (V4 9) 7000, SocketAddr (V4 9) 7001], interval_min = 5, interval_max = 9\<rparr>)
      = Some (Some s0) \<and> current_dest s0 = Some dest \<and> addr_port dest \<in> {7000, 7001}"
proof -
  let ?cfg = "\<lparr>hc_addrs = [SocketAddr (V4 9) 7000, SocketAddr (V4 9) 7001], interval_min = 5, interval_max = 9\<rparr>"
  have r: "rng_ok (\<lambda>i m. m - 1)" "blake_ok (\<lambda>m. replicate 32 1)" "1 < length (hc_addrs ?cfg)"
    by (simp_all add: rng_ok_def blake_ok_def)
  obtain s0 where "hop_socket_new (\<lambda>i m. m - 1) () (SocketAddr (V4 9) 7000) None (Some ?cfg) = Some (Some s0)"
    by (simp add: hop_socket_new_def random_range_def)
  with hop_stays_in_range [OF r this rtranclp.rtrancl_refl r(1)] show ?thesis by fastforce
qed

end
