(* ===== verification/Pin_Tls.thy ===== *)
theory Pin_Tls
  imports Rs_Io
begin

text \<open>
  TLS set-up, \<^verbatim>\<open>src/src/transport/tls.rs\<close>: the parser of certificate pins, the root
  store, the choice of verifier and the two verifiers the crate brings along.

  SHA-256, the PEM reader, the root store and the WebPKI verifier belong to other crates and
  are the fields of \<open>tls_env\<close>; \<open>'w\<close> is a built WebPKI verifier. A certificate is its DER bytes.
\<close>

section \<open>Data\<close>

definition ALPN_H3 :: bytes where "ALPN_H3 = str ''h3''"

datatype signature_scheme =
    RSA_PKCS1_SHA256 | ECDSA_NISTP256_SHA256 | RSA_PKCS1_SHA384 | ECDSA_NISTP384_SHA384
  | RSA_PKCS1_SHA512 | ECDSA_NISTP521_SHA512 | RSA_PSS_SHA256 | RSA_PSS_SHA384 | RSA_PSS_SHA512
  | ED25519 | ED448

definition all_schemes :: "signature_scheme list" where
  "all_schemes =
     [RSA_PKCS1_SHA256, ECDSA_NISTP256_SHA256, RSA_PKCS1_SHA384, ECDSA_NISTP384_SHA384,
      RSA_PKCS1_SHA512, ECDSA_NISTP521_SHA512, RSA_PSS_SHA256, RSA_PSS_SHA384, RSA_PSS_SHA512,
      ED25519, ED448]"

record 'w tls_env =
  sha256 :: "bytes \<Rightarrow> bytes"
  tls_server_roots :: "bytes list"
  pemfile_certs :: "bytes \<Rightarrow> (bytes + bytes) list"
  roots_add :: "bytes list \<Rightarrow> bytes \<Rightarrow> bytes + bytes list"
  webpki_build :: "bytes list \<Rightarrow> bytes + 'w"
  root_verifier :: "bytes list \<Rightarrow> 'w"
  webpki_cert :: "'w \<Rightarrow> bytes \<Rightarrow> bytes list \<Rightarrow> bytes \<Rightarrow> bytes \<Rightarrow> nat \<Rightarrow> bytes + unit"
  webpki_tls12 :: "'w \<Rightarrow> bytes \<Rightarrow> bytes \<Rightarrow> bytes \<Rightarrow> bytes + unit"
  webpki_tls13 :: "'w \<Rightarrow> bytes \<Rightarrow> bytes \<Rightarrow> bytes \<Rightarrow> bytes + unit"
  webpki_schemes :: "'w \<Rightarrow> signature_scheme list"

text \<open>The verifier of a client configuration: rustls' own over a root store, or one of the crate's.\<close>

datatype 'w verifier = Roots 'w | PinVerifier "'w option" bytes | NoVerify

record 'w tls_client_config =
  cert_verifier :: "'w verifier"
  alpn_protocols :: "bytes list"

section \<open>Pins\<close>

definition err_pin_length :: error where
  "err_pin_length = Config (str ''pin_sha256 must be 32 bytes (64 hex chars)'')"

definition err_pin_hex :: error where
  "err_pin_hex = Config (str ''pin_sha256 is not valid hex'')"

text \<open>The loop over the 32 output bytes; \<open>None\<close> where the string slice panics.\<close>

fun pin_loop :: "bytes \<Rightarrow> nat list \<Rightarrow> bytes \<Rightarrow> bytes rs_result run" where
  "pin_loop hex [] out = Some (Inr out)"
| "pin_loop hex (i # is) out = do {
     s \<leftarrow> str_slice hex (i * 2) (i * 2 + 2);
     (case from_str_radix 16 256 s of
        None \<Rightarrow> Some (Inl err_pin_hex)
      | Some b \<Rightarrow> pin_loop hex is (out @ [of_nat b])) }"

definition parse_pin :: "bytes \<Rightarrow> bytes option rs_result run" where
  "parse_pin s =
     (if s = [] then Some (Inr None)
      else let hex = utf8_encode (filter (\<lambda>c. \<not> is_whitespace c \<and> c \<noteq> 58) (chars s)) in
      if length hex \<noteq> 64 then Some (Inl err_pin_length)
      else do {
        r \<leftarrow> pin_loop hex [0..<32] [];
        Some (and_then r (\<lambda>out. Inr (Some out))) })"

section \<open>Roots and verifiers\<close>

fun add_certs :: "'w tls_env \<Rightarrow> (bytes + bytes) list \<Rightarrow> bytes list \<Rightarrow> bytes list rs_result" where
  "add_certs env [] roots = Inr roots"
| "add_certs env (c # cs) roots =
     and_then (map_err (\<lambda>e. Config (str ''parse CA PEM: '' @ e)) c) (\<lambda>cert.
     and_then (map_err (\<lambda>e. Config (str ''add CA: '' @ e)) (roots_add env roots cert)) (\<lambda>roots.
     add_certs env cs roots))"

definition build_roots :: "'w tls_env \<Rightarrow> bytes \<Rightarrow> bytes list rs_result" where
  "build_roots env ca =
     (let roots = [] @ tls_server_roots env in
      if ca \<noteq> [] then add_certs env (pemfile_certs env ca) roots else Inr roots)"

definition build_client_config ::
    "'w tls_env \<Rightarrow> bool \<Rightarrow> bytes option \<Rightarrow> bytes \<Rightarrow> 'w tls_client_config rs_result" where
  "build_client_config env insec pin ca =
     and_then (build_roots env ca) (\<lambda>roots.
     and_then
       (case (insec, pin) of
          (False, None) \<Rightarrow> Inr (Roots (root_verifier env roots))
        | (True, None) \<Rightarrow> Inr NoVerify
        | (_, Some p) \<Rightarrow>
            and_then
              (if insec then Inr None
               else and_then (map_err (\<lambda>e. Config (str ''build verifier: '' @ e)) (webpki_build env roots))
                      (\<lambda>w. Inr (Some w)))
              (\<lambda>w. Inr (PinVerifier w p)))
       (\<lambda>v. Inr \<lparr>cert_verifier = v, alpn_protocols = [ALPN_H3]\<rparr>))"

text \<open>\<open>impl ServerCertVerifier for PinVerifier\<close>.\<close>

definition pin_verify_server_cert ::
    "'w tls_env \<Rightarrow> 'w option \<Rightarrow> bytes \<Rightarrow> bytes \<Rightarrow> bytes list \<Rightarrow> bytes \<Rightarrow> bytes \<Rightarrow> nat \<Rightarrow> bytes + unit" where
  "pin_verify_server_cert env inner pin end_entity intermediates name ocsp now =
     (let digest = sha256 env end_entity in
      if digest \<noteq> pin then Inl (str ''certificate SHA-256 does not match pin'')
      else (case inner of
              Some w \<Rightarrow> webpki_cert env w end_entity intermediates name ocsp now
            | None \<Rightarrow> Inr ()))"

definition pin_verify_tls12_signature ::
    "'w tls_env \<Rightarrow> 'w option \<Rightarrow> bytes \<Rightarrow> bytes \<Rightarrow> bytes \<Rightarrow> bytes + unit" where
  "pin_verify_tls12_signature env inner message cert dss =
     (case inner of Some w \<Rightarrow> webpki_tls12 env w message cert dss | None \<Rightarrow> Inr ())"

definition pin_verify_tls13_signature ::
    "'w tls_env \<Rightarrow> 'w option \<Rightarrow> bytes \<Rightarrow> bytes \<Rightarrow> bytes \<Rightarrow> bytes + unit" where
  "pin_verify_tls13_signature env inner message cert dss =
     (case inner of Some w \<Rightarrow> webpki_tls13 env w message cert dss | None \<Rightarrow> Inr ())"

definition pin_supported_verify_schemes :: "'w tls_env \<Rightarrow> 'w option \<Rightarrow> signature_scheme list" where
  "pin_supported_verify_schemes env inner =
     (case inner of Some w \<Rightarrow> webpki_schemes env w | None \<Rightarrow> all_schemes)"

text \<open>\<open>impl ServerCertVerifier for NoVerify\<close>.\<close>

definition no_verify_server_cert :: "bytes \<Rightarrow> bytes list \<Rightarrow> bytes \<Rightarrow> bytes \<Rightarrow> nat \<Rightarrow> bytes + unit" where
  "no_verify_server_cert end_entity intermediates name ocsp now = Inr ()"

definition no_verify_tls12_signature :: "bytes \<Rightarrow> bytes \<Rightarrow> bytes \<Rightarrow> bytes + unit" where
  "no_verify_tls12_signature message cert dss = Inr ()"

definition no_verify_tls13_signature :: "bytes \<Rightarrow> bytes \<Rightarrow> bytes \<Rightarrow> bytes + unit" where
  "no_verify_tls13_signature message cert dss = Inr ()"

definition no_verify_supported_verify_schemes :: "signature_scheme list" where
  "no_verify_supported_verify_schemes = all_schemes"

text \<open>The calls rustls makes through \<open>dyn ServerCertVerifier\<close>.\<close>

definition verify_server_cert ::
    "'w tls_env \<Rightarrow> 'w verifier \<Rightarrow> bytes \<Rightarrow> bytes list \<Rightarrow> bytes \<Rightarrow> bytes \<Rightarrow> nat \<Rightarrow> bytes + unit" where
  "verify_server_cert env v =
     (case v of
        Roots w \<Rightarrow> webpki_cert env w
      | PinVerifier inner pin \<Rightarrow> pin_verify_server_cert env inner pin
      | NoVerify \<Rightarrow> no_verify_server_cert)"

definition verify_tls12_signature ::
    "'w tls_env \<Rightarrow> 'w verifier \<Rightarrow> bytes \<Rightarrow> bytes \<Rightarrow> bytes \<Rightarrow> bytes + unit" where
  "verify_tls12_signature env v =
     (case v of
        Roots w \<Rightarrow> webpki_tls12 env w
      | PinVerifier inner pin \<Rightarrow> pin_verify_tls12_signature env inner
      | NoVerify \<Rightarrow> no_verify_tls12_signature)"

definition verify_tls13_signature ::
    "'w tls_env \<Rightarrow> 'w verifier \<Rightarrow> bytes \<Rightarrow> bytes \<Rightarrow> bytes \<Rightarrow> bytes + unit" where
  "verify_tls13_signature env v =
     (case v of
        Roots w \<Rightarrow> webpki_tls13 env w
      | PinVerifier inner pin \<Rightarrow> pin_verify_tls13_signature env inner
      | NoVerify \<Rightarrow> no_verify_tls13_signature)"

definition supported_verify_schemes :: "'w tls_env \<Rightarrow> 'w verifier \<Rightarrow> signature_scheme list" where
  "supported_verify_schemes env v =
     (case v of
        Roots w \<Rightarrow> webpki_schemes env w
      | PinVerifier inner pin \<Rightarrow> pin_supported_verify_schemes env inner
      | NoVerify \<Rightarrow> no_verify_supported_verify_schemes)"

lemmas verifier_impls [simp] =
  pin_verify_server_cert_def pin_verify_tls12_signature_def pin_verify_tls13_signature_def
  pin_supported_verify_schemes_def no_verify_server_cert_def no_verify_tls12_signature_def
  no_verify_tls13_signature_def no_verify_supported_verify_schemes_def

section \<open>What a pin and a configuration mean\<close>

text \<open>
  The value of two characters of a pin: two hex digits, or one after a plus sign, which the
  standard library's integer parser accepts.
\<close>

definition pair_value :: "u8 \<Rightarrow> u8 \<Rightarrow> nat option" where
  "pair_value a b =
     (case to_digit 16 b of
        None \<Rightarrow> None
      | Some y \<Rightarrow> if a = 43 then Some y
          else (case to_digit 16 a of None \<Rightarrow> None | Some x \<Rightarrow> Some (x * 16 + y)))"

definition is_ascii :: "bytes \<Rightarrow> bool" where
  "is_ascii s \<longleftrightarrow> list_all (\<lambda>b. unat b < 128) s"

definition pin_digits :: "bytes \<Rightarrow> bytes" where
  "pin_digits s = filter (\<lambda>b. \<not> is_whitespace (unat b) \<and> b \<noteq> 58) s"

text \<open>The roots a configuration trusts: the built-in ones and those of the PEM file, in order.\<close>

fun roots_extended :: "'w tls_env \<Rightarrow> bytes list \<Rightarrow> (bytes + bytes) list \<Rightarrow> bytes list \<Rightarrow> bool" where
  "roots_extended env roots [] roots' \<longleftrightarrow> roots' = roots"
| "roots_extended env roots (c # cs) roots' \<longleftrightarrow>
     (\<exists>cert roots1. c = Inr cert \<and> roots_add env roots cert = Inr roots1 \<and> roots_extended env roots1 cs roots')"

text \<open>A root store and a WebPKI verifier that accept everything, for the witnesses.\<close>

definition sample_env :: "bytes list tls_env" where
  "sample_env = \<lparr>sha256 = (\<lambda>m. [of_nat (length m) + 1]), tls_server_roots = [[9]], pemfile_certs = (\<lambda>_. []),
    roots_add = (\<lambda>r c. Inr (r @ [c])), webpki_build = (\<lambda>r. Inr r), root_verifier = (\<lambda>r. r),
    webpki_cert = (\<lambda>w e i n s t. Inr ()), webpki_tls12 = (\<lambda>w m c d. Inr ()), webpki_tls13 = (\<lambda>w m c d. Inr ()),
    webpki_schemes = (\<lambda>w. [])\<rparr>"

lemma from_str_radix_pair: "from_str_radix 16 256 [a, b] = pair_value a b"
proof -
  have d: "to_digit 16 c = Some x \<Longrightarrow> x < 16" for c x by (auto simp: to_digit_def Let_def split: if_splits)
  have "to_digit 16 43 = None" by code_simp
  then show ?thesis
    using d [of a] d [of b] by (auto simp: from_str_radix_def pair_value_def split: option.splits)
qed

lemma ascii_slice:
  assumes "is_ascii s" and "i \<le> j" and "j \<le> length s"
  shows "str_slice s i j = Some (drop i (take j s))"
proof -
  have "\<not> is_cont (s ! k)" if "k < length s" for k
    using assms(1) that by (auto simp: is_ascii_def list_all_length is_cont_def)
  then show ?thesis using assms(2,3) by (auto simp: str_slice_def is_char_boundary_def subslice_def)
qed

lemma ascii_encode: "is_ascii s \<Longrightarrow> utf8_encode (map unat s) = s"
  using encode_chars [OF utf8_valid_ascii] by (simp add: is_ascii_def chars_ascii)

lemma unat_eq_58: "unat (b :: u8) = 58 \<longleftrightarrow> b = 58"
  by (simp add: word_unat_eq_iff)

lemma ascii_pin_digits:
  assumes "is_ascii s"
  shows "utf8_encode (filter (\<lambda>c. \<not> is_whitespace c \<and> c \<noteq> 58) (chars s)) = pin_digits s"
proof -
  have "filter (\<lambda>c. \<not> is_whitespace c \<and> c \<noteq> 58) (chars s) = map unat (pin_digits s)"
    using assms by (simp add: is_ascii_def chars_ascii pin_digits_def filter_map comp_def unat_eq_58)
  moreover have "is_ascii (pin_digits s)" using assms by (auto simp: is_ascii_def pin_digits_def list_all_iff)
  ultimately show ?thesis by (simp add: ascii_encode)
qed

lemma ex_less_list_ex: "(\<exists>i < n. P i) \<longleftrightarrow> list_ex P [0..<n]"
  by (auto simp: list_ex_iff)

lemma nth_pairs:
  "i < n \<Longrightarrow> concat (replicate n [a, b]) ! (2 * i) = a"
  "i < n \<Longrightarrow> concat (replicate n [a, b]) ! Suc (2 * i) = b"
proof -
  have "concat (replicate n [a, b]) ! (2 * i) = a \<and> concat (replicate n [a, b]) ! Suc (2 * i) = b" if "i < n" for i
    using that
  proof (induction n arbitrary: i)
    case (Suc n)
    then show ?case by (cases i) simp_all
  qed simp
  then show "i < n \<Longrightarrow> concat (replicate n [a, b]) ! (2 * i) = a"
    "i < n \<Longrightarrow> concat (replicate n [a, b]) ! Suc (2 * i) = b" by auto
qed

lemma two_chars: "i * 2 + 2 \<le> length s \<Longrightarrow> drop (i * 2) (take (i * 2 + 2) s) = [s ! (2 * i), s ! (2 * i + 1)]"
  by (rule nth_equalityI) (auto simp: less_Suc_eq numeral_2_eq_2 mult.commute)

lemma pin_loop_ascii:
  assumes "is_ascii hex" and "\<forall>i\<in>set is. i * 2 + 2 \<le> length hex"
  shows "pin_loop hex is out = Some
    (if \<exists>i\<in>set is. pair_value (hex ! (2 * i)) (hex ! (2 * i + 1)) = None then Inl err_pin_hex
     else Inr (out @ map (\<lambda>i. of_nat (the (pair_value (hex ! (2 * i)) (hex ! (2 * i + 1))))) is))"
  using assms(2)
proof (induction "is" arbitrary: out)
  case (Cons i "is")
  then have "str_slice hex (i * 2) (i * 2 + 2) = Some [hex ! (2 * i), hex ! (2 * i + 1)]"
    using ascii_slice [OF assms(1), of "i * 2" "i * 2 + 2"] two_chars [of i hex] by simp
  with Cons show ?case
    by (cases "pair_value (hex ! (2 * i)) (hex ! (2 * i + 1))") (auto simp: from_str_radix_pair)
qed simp

lemma parse_pin_ascii_total: "is_ascii s \<Longrightarrow> parse_pin s \<noteq> None"
proof -
  assume a: "is_ascii s"
  have "is_ascii (pin_digits s)" using a by (auto simp: is_ascii_def pin_digits_def list_all_iff)
  from pin_loop_ascii [OF this, of "[0..<32]" "[]"] ascii_pin_digits [OF a] show ?thesis
    by (auto simp: parse_pin_def Let_def)
qed

text \<open>What remains of a pin that may hold any characters, and where cutting it in pairs panics.\<close>

definition pin_text :: "bytes \<Rightarrow> bytes" where
  "pin_text s = utf8_encode (filter (\<lambda>c. \<not> is_whitespace c \<and> c \<noteq> 58) (chars s))"

lemma str_slice_pair:
  assumes "length hex = 64" and "i < 32" and "is_char_boundary hex (i * 2)"
  shows "str_slice hex (i * 2) (i * 2 + 2) =
    (if Suc i < 32 \<and> is_cont (hex ! (2 * Suc i)) then None else Some [hex ! (2 * i), hex ! (2 * i + 1)])"
proof -
  have "is_char_boundary hex (i * 2 + 2) \<longleftrightarrow> \<not> (Suc i < 32 \<and> is_cont (hex ! (2 * Suc i)))"
    using assms(1,2) by (cases "Suc i = 32") (auto simp: is_char_boundary_def mult.commute)
  then show ?thesis
    using assms two_chars [of i hex] by (auto simp: str_slice_def subslice_def)
qed

lemma pin_loop_None:
  assumes "length hex = 64" and "is_char_boundary hex (i * 2)" and "i \<le> 32"
  shows "pin_loop hex [i..<32] out = None \<longleftrightarrow> (\<exists>k < 32. i < k \<and> is_cont (hex ! (2 * k)) \<and>
    (\<forall>j. i \<le> j \<and> j < k - 1 \<longrightarrow> pair_value (hex ! (2 * j)) (hex ! (2 * j + 1)) \<noteq> None))"
  using assms(2,3)
proof (induction "32 - i" arbitrary: i out)
  case (Suc n)
  let ?pv = "\<lambda>j. pair_value (hex ! (2 * j)) (hex ! (2 * j + 1))"
  have i: "i < 32" and up: "[i..<32] = i # [Suc i..<32]" using Suc.hyps(2) by (simp_all add: upt_conv_Cons)
  note sl = str_slice_pair [OF assms(1) i Suc.prems(1)]
  show ?case
  proof (cases "Suc i < 32 \<and> is_cont (hex ! (2 * Suc i))")
    case True
    then show ?thesis using sl up by (auto intro!: exI [of _ "Suc i"])
  next
    case cut: False
    then have b: "is_char_boundary hex (Suc i * 2)"
      using assms(1) i by (cases "Suc i = 32") (auto simp: is_char_boundary_def mult.commute)
    have later: "Suc i < k" if "i < k" "k < 32" "is_cont (hex ! (2 * k))" for k
      using cut that by (cases "k = Suc i") auto
    show ?thesis
    proof (cases "?pv i")
      case None
      have "\<not> (\<forall>j. i \<le> j \<and> j < k - 1 \<longrightarrow> ?pv j \<noteq> None)" if "Suc i < k" for k
        using None that by (auto intro!: exI [of _ i])
      then have "\<not> (\<exists>k < 32. i < k \<and> is_cont (hex ! (2 * k)) \<and> (\<forall>j. i \<le> j \<and> j < k - 1 \<longrightarrow> ?pv j \<noteq> None))"
        using later by blast
      moreover have "pin_loop hex [i..<32] out = Some (Inl err_pin_hex)"
        using None sl [unfolded if_not_P [OF cut]] up by (simp add: from_str_radix_pair)
      ultimately show ?thesis by simp
    next
      case (Some x)
      then have e: "(\<forall>j. i \<le> j \<and> j < k - 1 \<longrightarrow> ?pv j \<noteq> None) \<longleftrightarrow> (\<forall>j. Suc i \<le> j \<and> j < k - 1 \<longrightarrow> ?pv j \<noteq> None)" for k
        by (metis Suc_leI le_eq_less_or_eq Suc_leD option.distinct(1))
      have l: "i < k \<and> is_cont (hex ! (2 * k)) \<and> P \<longleftrightarrow> Suc i < k \<and> is_cont (hex ! (2 * k)) \<and> P" if "k < 32" for k P
        using later that by auto
      have "pin_loop hex [i..<32] out = pin_loop hex [Suc i..<32] (out @ [of_nat x])"
        using Some sl [unfolded if_not_P [OF cut]] up by (simp add: from_str_radix_pair)
      moreover have "n = 32 - Suc i" "Suc i \<le> 32" using Suc.hyps(2) i by simp_all
      ultimately show ?thesis
        using Suc.hyps(1) [of "Suc i" "out @ [of_nat x]"] b by (simp only: l e simp_thms cong: conj_cong)
    qed
  qed
qed simp

lemma add_certs_roots: "add_certs env cs roots = Inr roots' \<Longrightarrow> roots_extended env roots cs roots'"
  by (induction cs arbitrary: roots) (auto simp: and_then_Inr_iff map_err_Inr_iff)

lemma build_roots_extended:
  assumes "build_roots env ca = Inr roots"
  shows "roots_extended env (tls_server_roots env) (if ca = [] then [] else pemfile_certs env ca) roots"
  using assms add_certs_roots by (auto simp: build_roots_def split: if_splits)

section \<open>Properties\<close>

text \<open>
  C33. The pin parser on ASCII input. Spaces and colons are skipped; anything but 64 remaining
  characters is the length error, a pair without a value the hex error, and otherwise the
  result is the 32 bytes the pairs denote. It does not panic.
\<close>

theorem parse_pin_ascii:
  assumes "is_ascii s" and "s \<noteq> []"
  shows "parse_pin s = Some
    (let hex = pin_digits s; v = (\<lambda>i. pair_value (hex ! (2 * i)) (hex ! (2 * i + 1))) in
     if length hex \<noteq> 64 then Inl err_pin_length
     else if \<exists>i < 32. v i = None then Inl err_pin_hex
     else Inr (Some (map (\<lambda>i. of_nat (the (v i))) [0..<32])))"
proof -
  have "is_ascii (pin_digits s)" using assms(1) by (auto simp: is_ascii_def pin_digits_def list_all_iff)
  from pin_loop_ascii [OF this, of "[0..<32]" "[]"]
  show ?thesis
    using assms(2) ascii_pin_digits [OF assms(1)] by (auto simp: parse_pin_def Let_def Bex_def)
qed

theorem parse_pin_ascii_witness:
  "parse_pin (concat (replicate 32 (str ''0A:''))) = Some (Inr (Some (replicate 32 10)))"
proof -
  let ?s = "concat (replicate 32 (str ''0A:''))"
  have "is_ascii ?s" by (simp add: is_ascii_def list_all_iff)
  moreover have "?s \<noteq> []" by simp
  moreover have d: "pin_digits ?s = concat (replicate 32 [48, 65])"
    by (simp add: pin_digits_def filter_concat is_whitespace_def)
  moreover have "length (concat (replicate 32 [48, 65 :: u8])) = 64" by (simp add: length_concat sum_list_replicate)
  moreover have p: "pair_value 48 65 = Some 10" by code_simp
  moreover have "map (\<lambda>i. of_nat (the (pair_value (concat (replicate 32 [48, 65]) ! (2 * i))
      (concat (replicate 32 [48, 65]) ! Suc (2 * i))))) [0..<32] = replicate 32 (10 :: u8)"
    by (rule nth_equalityI) (simp_all add: nth_pairs p)
  ultimately show ?thesis using parse_pin_ascii [of ?s] by (simp add: Let_def nth_pairs)
qed

text \<open>
  C34. Exactly when the pin parser panics. It cuts the characters that remain of the pin at even
  byte offsets. It panics if and only if they take 64 bytes, some character straddles an even
  offset, and the pairs before that place are all hex: a pair before it that is not hex is
  reported first, as the hex error.
\<close>

theorem parse_pin_panics:
  "parse_pin s = None \<longleftrightarrow> s \<noteq> [] \<and> length (pin_text s) = 64 \<and>
     (\<exists>k < 32. 0 < k \<and> is_cont (pin_text s ! (2 * k)) \<and>
        (\<forall>j < k - 1. pair_value (pin_text s ! (2 * j)) (pin_text s ! (2 * j + 1)) \<noteq> None))"
proof (cases "s \<noteq> [] \<and> length (pin_text s) = 64")
  case True
  then show ?thesis using pin_loop_None [of "pin_text s" 0 "[]"]
    by (auto simp: parse_pin_def pin_text_def is_char_boundary_def Let_def split: Option.bind_splits)
next
  case False
  then show ?thesis by (auto simp: parse_pin_def pin_text_def Let_def)
qed

theorem parse_pin_panics_witness:
  "utf8_valid (utf8_encode (97 # 233 # replicate 61 97)) \<and> parse_pin (utf8_encode (97 # 233 # replicate 61 97)) = None"
proof
  let ?cs = "97 # 233 # replicate 61 97" and ?hex = "97 # 195 # 169 # replicate 61 97"
  show v: "utf8_valid (utf8_encode ?cs)" by (rule utf8_valid_encode) (simp add: is_scalar_def list_all_iff)
  have e: "utf8_encode ?cs = ?hex" by (simp add: utf8_encode_def char_utf8_def byte_def)
  have "chars ?hex = ?cs"
    unfolding e [symmetric] by (rule chars_encode) (simp add: is_scalar_def list_all_iff)
  then have "pin_text ?hex = ?hex" using e by (simp add: pin_text_def is_whitespace_def)
  then show "parse_pin (utf8_encode ?cs) = None"
    unfolding e using parse_pin_panics [of ?hex] by (auto simp: is_cont_def intro!: exI [of _ 1])
qed

text \<open>
  C31. What an accepted certificate proves. If the configuration was built and its verifier
  accepts a server certificate, then a configured pin equals the certificate's SHA-256 digest,
  and unless verification was switched off, the chain was accepted by a WebPKI verifier over
  exactly the built-in roots extended by the configured PEM certificates. The only ALPN
  protocol offered is \<open>h3\<close>.
\<close>

theorem accepted_certificate:
  assumes "build_client_config env insec pin ca = Inr cfg"
    and "verify_server_cert env (cert_verifier cfg) cert chain name ocsp now = Inr ()"
  shows "alpn_protocols cfg = [str ''h3''] \<and> (\<forall>p. pin = Some p \<longrightarrow> sha256 env cert = p) \<and>
    (\<not> insec \<longrightarrow> (\<exists>roots w. (w = root_verifier env roots \<or> webpki_build env roots = Inr w) \<and>
       roots_extended env (tls_server_roots env) (if ca = [] then [] else pemfile_certs env ca) roots \<and>
       webpki_cert env w cert chain name ocsp now = Inr ()))"
proof -
  obtain roots where r: "build_roots env ca = Inr roots"
    using assms(1) by (auto simp: build_client_config_def and_then_Inr_iff)
  note x = build_roots_extended [OF r]
  show ?thesis
  proof (cases insec)
    case True
    with assms r show ?thesis
      by (cases pin) (auto simp: build_client_config_def verify_server_cert_def ALPN_H3_def split: if_splits)
  next
    case False
    have "\<exists>w. (w = root_verifier env roots \<or> webpki_build env roots = Inr w) \<and>
        webpki_cert env w cert chain name ocsp now = Inr ()"
      and "alpn_protocols cfg = [ALPN_H3]" "\<forall>p. pin = Some p \<longrightarrow> sha256 env cert = p"
      using assms r False by (cases pin; fastforce simp: build_client_config_def verify_server_cert_def
          and_then_Inr_iff map_err_Inr_iff split: if_splits)+
    with x show ?thesis unfolding ALPN_H3_def by blast
  qed
qed

theorem accepted_certificate_witness:
  "\<exists>cfg. build_client_config sample_env False (Some [3]) [] = Inr cfg \<and>
     verify_server_cert sample_env (cert_verifier cfg) [1, 2] [] [] [] 0 = Inr () \<and> sha256 sample_env [1, 2] = [3]"
proof -
  let ?cfg = "\<lparr>cert_verifier = PinVerifier (Some [[9]]) [3], alpn_protocols = [ALPN_H3]\<rparr>"
  have b: "build_client_config sample_env False (Some [3]) [] = Inr ?cfg"
    by (simp add: build_client_config_def build_roots_def sample_env_def)
  have v: "verify_server_cert sample_env (cert_verifier ?cfg) [1, 2] [] [] [] 0 = Inr ()"
    by (simp add: verify_server_cert_def sample_env_def)
  from accepted_certificate [OF b v] b v show ?thesis by blast
qed

text \<open>
  Exactly what the verifier of a built configuration accepts, certificates and handshake
  signatures, in terms of the pin and of one WebPKI verifier over the configured roots.
\<close>

lemma verifier_accepts:
  assumes "build_client_config env insec pin ca = Inr cfg"
  obtains roots w where
    "roots_extended env (tls_server_roots env) (if ca = [] then [] else pemfile_certs env ca) roots"
    "w = root_verifier env roots \<or> webpki_build env roots = Inr w"
    "\<And>cert chain name ocsp now. verify_server_cert env (cert_verifier cfg) cert chain name ocsp now = Inr () \<longleftrightarrow>
      (\<forall>p. pin = Some p \<longrightarrow> sha256 env cert = p) \<and> (insec \<or> webpki_cert env w cert chain name ocsp now = Inr ())"
    "\<And>message cert dss. verify_tls12_signature env (cert_verifier cfg) message cert dss =
      (if insec then Inr () else webpki_tls12 env w message cert dss)"
    "\<And>message cert dss. verify_tls13_signature env (cert_verifier cfg) message cert dss =
      (if insec then Inr () else webpki_tls13 env w message cert dss)"
proof -
  obtain roots where r: "build_roots env ca = Inr roots"
    using assms by (auto simp: build_client_config_def and_then_Inr_iff)
  note verify = verify_server_cert_def verify_tls12_signature_def verify_tls13_signature_def
  note x = build_roots_extended [OF r]
  consider "insec" "pin = None" "cert_verifier cfg = NoVerify"
    | p where "insec" "pin = Some p" "cert_verifier cfg = PinVerifier None p"
    | "\<not> insec" "pin = None" "cert_verifier cfg = Roots (root_verifier env roots)"
    | p w where "\<not> insec" "pin = Some p" "webpki_build env roots = Inr w" "cert_verifier cfg = PinVerifier (Some w) p"
    using assms r by (cases insec; cases pin) (auto simp: build_client_config_def and_then_Inr_iff map_err_Inr_iff)
  then show ?thesis
  proof cases
    case 4
    then show ?thesis by (intro that [OF x, of w]) (simp_all add: verify)
  qed (intro that [OF x, of "root_verifier env roots"]; simp add: verify)+
qed

lemma parse_pin_None: "parse_pin s = Some (Inr pin) \<Longrightarrow> pin = None \<longleftrightarrow> s = []"
  by (auto simp: parse_pin_def and_then_Inr_iff Let_def split: if_splits Option.bind_splits)

end
