(* ===== verification/Udp_Relay.thy ===== *)
theory Udp_Relay
  imports Udp_Frag Rs_Io
begin

text \<open>
  The UDP relay, \<^verbatim>\<open>src/src/udp.rs\<close>: the session manager with its routing table, the
  receive loop, and sessions that send with fragmentation and receive with reassembly.

  The manager holds the sending end and a session the receiving end of a channel. Channels
  live in an explicit store, so that the two ends refer to one channel by its address. The
  channel operations are tokio's and the datagram operations of a connection are quinn's: they
  are the fields of \<open>chan_ops\<close> and \<open>conn_ops\<close>.
\<close>

section \<open>Data\<close>

definition SESSION_CHAN_SIZE :: nat where "SESSION_CHAN_SIZE = 1024"

datatype 'm received = Item 'm | Wait | Closed

record 'c chan_ops =
  ch_new :: "nat \<Rightarrow> 'c"
  ch_try_send :: "'c \<Rightarrow> udp_message \<Rightarrow> 'c \<times> bool"
  ch_recv :: "'c \<Rightarrow> 'c \<times> udp_message received"
  ch_drop_tx :: "'c \<Rightarrow> 'c"
  ch_drop_rx :: "'c \<Rightarrow> 'c"

datatype send_datagram_error = TooLarge | UnsupportedByPeer | Disabled | ConnectionLost bytes

record 'q conn_ops =
  send_datagram :: "'q \<Rightarrow> bytes \<Rightarrow> 'q \<times> (send_datagram_error + unit)"
  max_datagram_size :: "'q \<Rightarrow> nat option"
  send_error_text :: "send_datagram_error \<Rightarrow> bytes"

record 'c manager =
  sessions :: "u32 \<rightharpoonup> nat"
  next_id :: u32
  chans :: "nat \<rightharpoonup> 'c"
  next_chan :: nat

record udp_session =
  us_id :: u32
  us_rx :: nat
  us_defrag :: defragger

section \<open>The manager\<close>

definition manager_new :: "'c manager" where
  "manager_new = \<lparr>sessions = Map.empty, next_id = 1, chans = Map.empty, next_chan = 0\<rparr>"

text \<open>Applying an operation to the channel at an address of the store.\<close>

definition on_chan :: "('c \<Rightarrow> 'c) \<Rightarrow> nat \<Rightarrow> 'c manager \<Rightarrow> 'c manager" where
  "on_chan f a mgr = (case chans mgr a of None \<Rightarrow> mgr | Some c \<Rightarrow> mgr\<lparr>chans := (chans mgr)(a \<mapsto> f c)\<rparr>)"

text \<open>
  \<open>new_session\<close>: \<open>fetch_add\<close> wraps, and \<open>insert\<close> drops a sending end it replaces.
\<close>

definition new_session :: "'c chan_ops \<Rightarrow> 'c manager \<Rightarrow> 'c manager \<times> udp_session" where
  "new_session ops mgr =
     (let sid = next_id mgr;
          mgr = mgr\<lparr>next_id := sid + 1\<rparr>;
          a = next_chan mgr;
          mgr = mgr\<lparr>chans := (chans mgr)(a \<mapsto> ch_new ops SESSION_CHAN_SIZE), next_chan := a + 1\<rparr>;
          mgr = (case sessions mgr sid of None \<Rightarrow> mgr | Some old \<Rightarrow> on_chan (ch_drop_tx ops) old mgr);
          mgr = mgr\<lparr>sessions := (sessions mgr)(sid \<mapsto> a)\<rparr>
      in (mgr, \<lparr>us_id = sid, us_rx = a, us_defrag = defragger_default\<rparr>))"

definition dispatch :: "'c chan_ops \<Rightarrow> 'c manager \<Rightarrow> udp_message \<Rightarrow> 'c manager" where
  "dispatch ops mgr msg =
     (case sessions mgr (session_id msg) of
        Some tx \<Rightarrow> on_chan (\<lambda>c. fst (ch_try_send ops c msg)) tx mgr
      | None \<Rightarrow> mgr)"

definition remove_session :: "'c chan_ops \<Rightarrow> 'c manager \<Rightarrow> u32 \<Rightarrow> 'c manager" where
  "remove_session ops mgr sid =
     (case sessions mgr sid of
        Some tx \<Rightarrow> on_chan (ch_drop_tx ops) tx (mgr\<lparr>sessions := (sessions mgr)(sid := None)\<rparr>)
      | None \<Rightarrow> mgr)"

text \<open>
  The receive loop over the results of \<open>read_datagram\<close>. The manager is upgraded from a weak
  reference for every parsed message: \<open>alive\<close> says whether it still exists. The second result
  says whether the loop has ended.
\<close>

fun receive_loop ::
    "'c chan_ops \<Rightarrow> (bytes + bytes) list \<Rightarrow> bool list \<Rightarrow> 'c manager \<Rightarrow> 'c manager \<times> bool" where
  "receive_loop ops (Inr d # ds) (alive # as) mgr =
     (case parse d of
        Some msg \<Rightarrow> if alive then receive_loop ops ds as (dispatch ops mgr msg) else (mgr, True)
      | None \<Rightarrow> receive_loop ops ds as mgr)"
| "receive_loop ops (Inl e # ds) as mgr = (mgr, True)"
| "receive_loop ops ds as mgr = (mgr, False)"

section \<open>Sessions\<close>

fun send_frags ::
    "'q conn_ops \<Rightarrow> udp_message list \<Rightarrow> 'q \<Rightarrow> ('q \<times> unit rs_result) run" where
  "send_frags conn [] q = Some (q, Inr ())"
| "send_frags conn (f # fs) q = do {
     (fbuf, n) \<leftarrow> serialize f (replicate (msg_size f) 0);
     (case n of
        None \<Rightarrow> send_frags conn fs q
      | Some n \<Rightarrow> do {
          wire \<leftarrow> subslice fbuf 0 n;
          (case send_datagram conn q wire of
             (q, Inr _) \<Rightarrow> send_frags conn fs q
           | (q, Inl e) \<Rightarrow> Some (q, Inl (Protocol (str ''send fragment: '' @ send_error_text conn e)))) }) }"

text \<open>\<open>pid\<close> is the drawn packet id of the fragmented path.\<close>

definition session_send ::
    "bool \<Rightarrow> 'q conn_ops \<Rightarrow> u16 \<Rightarrow> udp_session \<Rightarrow> bytes \<Rightarrow> bytes \<Rightarrow> 'q \<Rightarrow> ('q \<times> unit rs_result) run" where
  "session_send ovf conn pid self payload address q = do {
     let msg = \<lparr>session_id = us_id self, packet_id = 0, frag_id = 0, frag_count = 1,
                addr = address, data = payload\<rparr>;
     (buf, n) \<leftarrow> serialize msg (replicate (max (msg_size msg) MAX_UDP_SIZE) 0);
     (q, done) \<leftarrow>
       (case n of
          None \<Rightarrow> Some (q, None)
        | Some n \<Rightarrow> do {
            wire \<leftarrow> subslice buf 0 n;
            (case send_datagram conn q wire of
               (q, Inr _) \<Rightarrow> Some (q, Some (Inr ()))
             | (q, Inl TooLarge) \<Rightarrow> Some (q, None)
             | (q, Inl e) \<Rightarrow> Some (q, Some (Inl (Protocol (str ''send datagram: '' @ send_error_text conn e))))) });
     (case done of
        Some r \<Rightarrow> Some (q, r)
      | None \<Rightarrow> do {
          let limit = (case max_datagram_size conn q of Some m \<Rightarrow> m | None \<Rightarrow> unat MAX_DATAGRAM_FRAME_SIZE);
          let frag = msg\<lparr>packet_id := pid\<rparr>;
          fs \<leftarrow> frag_udp_message ovf frag limit;
          send_frags conn fs q }) }"

text \<open>
  One poll of \<open>recv\<close>. Outside, \<open>None\<close> is a loop that never returns; inside, a panic.
\<close>

partial_function (option) session_recv ::
    "bool \<Rightarrow> 'c chan_ops \<Rightarrow> 'c \<Rightarrow> udp_session \<Rightarrow>
     ('c \<times> udp_session \<times> (bytes \<times> bytes) rs_result poll) run option" where
  "session_recv ovf ops c self =
     (case ch_recv ops c of
        (c, Wait) \<Rightarrow> Some (Some (c, self, Pending))
      | (c, Closed) \<Rightarrow> Some (Some (c, self, Ready (Inl (Protocol (str ''udp session closed'')))))
      | (c, Item msg) \<Rightarrow>
          (case feed ovf (us_defrag self) msg of
             None \<Rightarrow> Some None
           | Some (d, Some full) \<Rightarrow>
               Some (Some (c, self\<lparr>us_defrag := d\<rparr>, Ready (Inr (data full, addr full))))
           | Some (d, None) \<Rightarrow> session_recv ovf ops c (self\<lparr>us_defrag := d\<rparr>)))"

text \<open>Dropping a session: its entry is removed while the manager exists, and its receiver goes.\<close>

definition session_drop :: "'c chan_ops \<Rightarrow> bool \<Rightarrow> 'c manager \<Rightarrow> udp_session \<Rightarrow> 'c manager" where
  "session_drop ops alive mgr self =
     on_chan (ch_drop_rx ops) (us_rx self) (if alive then remove_session ops mgr (us_id self) else mgr)"

section \<open>Contracts\<close>

text \<open>
  What tokio documents of a bounded channel, with \<open>queue c\<close> the messages in it and \<open>tx c\<close> whether
  its sending end exists: it starts empty, \<open>try_send\<close> appends or refuses, \<open>recv\<close> takes the oldest
  message, waits while the channel is empty and open, and reports the end only when it is empty
  and the sending end is gone.
\<close>

definition chan_ok :: "'c chan_ops \<Rightarrow> ('c \<Rightarrow> udp_message list) \<Rightarrow> ('c \<Rightarrow> bool) \<Rightarrow> bool" where
  "chan_ok ops queue tx \<longleftrightarrow>
     (\<forall>n. queue (ch_new ops n) = [] \<and> tx (ch_new ops n)) \<and>
     (\<forall>c m c' b. ch_try_send ops c m = (c', b) \<longrightarrow>
        queue c' = (if b then queue c @ [m] else queue c) \<and> tx c' = tx c) \<and>
     (\<forall>c m q. queue c = m # q \<longrightarrow> (\<exists>c'. ch_recv ops c = (c', Item m) \<and> queue c' = q \<and> tx c' = tx c)) \<and>
     (\<forall>c. queue c = [] \<longrightarrow> ch_recv ops c = (c, if tx c then Wait else Closed)) \<and>
     (\<forall>c. queue (ch_drop_tx ops c) = queue c \<and> \<not> tx (ch_drop_tx ops c)) \<and>
     (\<forall>c. set (queue (ch_drop_rx ops c)) \<subseteq> set (queue c) \<and> tx (ch_drop_rx ops c) = tx c)"

text \<open>A connection that keeps to its answer: \<open>sent q\<close> are the datagrams it has accepted.\<close>

definition conn_ok :: "'q conn_ops \<Rightarrow> ('q \<Rightarrow> bytes list) \<Rightarrow> bool" where
  "conn_ok conn sent \<longleftrightarrow>
     (\<forall>q d q'. send_datagram conn q d = (q', Inr ()) \<longrightarrow> sent q' = sent q @ [d]) \<and>
     (\<forall>q d q' e. send_datagram conn q d = (q', Inl e) \<longrightarrow> sent q' = sent q)"

text \<open>The message a session sends, and sending a list of messages one after the other.\<close>

definition session_msg :: "udp_session \<Rightarrow> bytes \<Rightarrow> bytes \<Rightarrow> udp_message" where
  "session_msg self payload address =
     \<lparr>session_id = us_id self, packet_id = 0, frag_id = 0, frag_count = 1, addr = address, data = payload\<rparr>"

fun send_all :: "'q conn_ops \<Rightarrow> udp_message list \<Rightarrow> 'q \<Rightarrow> 'q \<times> unit rs_result" where
  "send_all conn [] q = (q, Inr ())"
| "send_all conn (f # fs) q =
     (case send_datagram conn q (udp_wire f) of
        (q, Inr _) \<Rightarrow> send_all conn fs q
      | (q, Inl e) \<Rightarrow> (q, Inl (Protocol (str ''send fragment: '' @ send_error_text conn e))))"

definition datagram_limit :: "'q conn_ops \<Rightarrow> 'q \<Rightarrow> nat" where
  "datagram_limit conn q = (case max_datagram_size conn q of Some m \<Rightarrow> m | None \<Rightarrow> 1200)"

text \<open>A bounded queue, and a connection with a size limit that logs what it sends.\<close>

record queue_chan =
  qc_cap :: nat
  qc_queue :: "udp_message list"
  qc_tx :: bool
  qc_rx :: bool

definition queue_chan_ops :: "queue_chan chan_ops" where
  "queue_chan_ops =
     \<lparr>ch_new = (\<lambda>n. \<lparr>qc_cap = n, qc_queue = [], qc_tx = True, qc_rx = True\<rparr>),
      ch_try_send = (\<lambda>c m. if qc_rx c \<and> length (qc_queue c) < qc_cap c
        then (c\<lparr>qc_queue := qc_queue c @ [m]\<rparr>, True) else (c, False)),
      ch_recv = (\<lambda>c. case qc_queue c of m # q \<Rightarrow> (c\<lparr>qc_queue := q\<rparr>, Item m)
        | [] \<Rightarrow> (c, if qc_tx c then Wait else Closed)),
      ch_drop_tx = (\<lambda>c. c\<lparr>qc_tx := False\<rparr>),
      ch_drop_rx = (\<lambda>c. c\<lparr>qc_rx := False, qc_queue := []\<rparr>)\<rparr>"

definition log_conn_ops :: "nat \<Rightarrow> bytes list conn_ops" where
  "log_conn_ops limit =
     \<lparr>send_datagram = (\<lambda>q d. if length d \<le> limit then (q @ [d], Inr ()) else (q, Inl TooLarge)),
      max_datagram_size = (\<lambda>_. Some limit), send_error_text = (\<lambda>_. [])\<rparr>"

text \<open>
  The relay as a whole: the manager and the live sessions. Its steps are the calls of a client,
  the datagrams the receive loop takes, and polls of \<open>recv\<close>.
\<close>

record 'c relay =
  mgr :: "'c manager"
  live :: "udp_session list"

inductive relay_step :: "bool \<Rightarrow> 'c chan_ops \<Rightarrow> 'c relay \<Rightarrow> 'c relay \<Rightarrow> bool"
  for ovf :: bool and ops :: "'c chan_ops" where
  open_session: "new_session ops (mgr w) = (m, s) \<Longrightarrow>
    relay_step ovf ops w \<lparr>mgr = m, live = live w @ [s]\<rparr>"
| datagram: "relay_step ovf ops w (w\<lparr>mgr := fst (receive_loop ops [Inr d] [True] (mgr w))\<rparr>)"
| receive: "k < length (live w) \<Longrightarrow> chans (mgr w) (us_rx (live w ! k)) = Some c \<Longrightarrow>
    session_recv ovf ops c (live w ! k) = Some (Some (c', s', p)) \<Longrightarrow>
    relay_step ovf ops w
      \<lparr>mgr = (mgr w)\<lparr>chans := (chans (mgr w))(us_rx (live w ! k) \<mapsto> c')\<rparr>, live = (live w)[k := s']\<rparr>"
| close_session: "k < length (live w) \<Longrightarrow>
    relay_step ovf ops w
      \<lparr>mgr = session_drop ops True (mgr w) (live w ! k), live = take k (live w) @ drop (Suc k) (live w)\<rparr>"

definition relay_new :: "'c relay" where
  "relay_new = \<lparr>mgr = manager_new, live = []\<rparr>"

text \<open>
  The routing invariant. Every channel is owned by one session id: the table leads from an id
  to a channel of that id, a live session reads a channel of its id, and channels and
  fragment slots hold only messages of their id.
\<close>

definition carries :: "u32 \<Rightarrow> defragger \<Rightarrow> bool" where
  "carries i d \<longleftrightarrow> df_inv d \<and> (\<forall>f. Some f \<in> set (frags d) \<longrightarrow> session_id f = i)"

definition owned :: "('c \<Rightarrow> udp_message list) \<Rightarrow> (nat \<Rightarrow> u32) \<Rightarrow> 'c manager \<Rightarrow> bool" where
  "owned queue own m \<longleftrightarrow>
     (\<forall>a. chans m a \<noteq> None \<longleftrightarrow> a < next_chan m) \<and>
     (\<forall>a c x. chans m a = Some c \<longrightarrow> x \<in> set (queue c) \<longrightarrow> session_id x = own a) \<and>
     (\<forall>i a. sessions m i = Some a \<longrightarrow> own a = i \<and> a < next_chan m)"

definition session_ok :: "(nat \<Rightarrow> u32) \<Rightarrow> 'c manager \<Rightarrow> udp_session \<Rightarrow> bool" where
  "session_ok own m s \<longleftrightarrow> own (us_rx s) = us_id s \<and> us_rx s < next_chan m \<and> carries (us_id s) (us_defrag s)"

definition relay_inv :: "('c \<Rightarrow> udp_message list) \<Rightarrow> 'c relay \<Rightarrow> bool" where
  "relay_inv queue w \<longleftrightarrow>
     (\<exists>own. owned queue own (mgr w) \<and> (\<forall>s\<in>set (live w). session_ok own (mgr w) s))"

section \<open>Sending\<close>

lemma send_frags_eq: "send_frags conn fs q = Some (send_all conn fs q)"
  by (induction fs arbitrary: q)
    (auto simp: serialize_eq subslice_def split: prod.splits sum.splits)

lemma session_send_eq:
  "session_send ovf conn pid self payload address q =
    (case send_datagram conn q (udp_wire (session_msg self payload address)) of
       (q1, Inr _) \<Rightarrow> Some (q1, Inr ())
     | (q1, Inl TooLarge) \<Rightarrow> do {
         fs \<leftarrow> frag_udp_message ovf ((session_msg self payload address)\<lparr>packet_id := pid\<rparr>) (datagram_limit conn q1);
         Some (send_all conn fs q1) }
     | (q1, Inl e) \<Rightarrow> Some (q1, Inl (Protocol (str ''send datagram: '' @ send_error_text conn e))))"
  by (auto simp: session_send_def session_msg_def serialize_eq subslice_def Let_def send_frags_eq
      datagram_limit_def MAX_DATAGRAM_FRAME_SIZE_def
      split: prod.splits sum.splits send_datagram_error.splits option.splits)

lemma send_all_sent:
  assumes "conn_ok conn sent" and "send_all conn fs q = (q', Inr ())"
  shows "sent q' = sent q @ map udp_wire fs"
  using assms(2)
proof (induction fs arbitrary: q)
  case (Cons f fs)
  obtain q1 r where r: "send_datagram conn q (udp_wire f) = (q1, r)" by fastforce
  then have "r = Inr ()" "send_all conn fs q1 = (q', Inr ())" using Cons.prems by (auto split: sum.splits)
  then show ?case using Cons.IH [of q1] assms(1) r unfolding conn_ok_def by auto
qed simp

text \<open>The wire images of a message, or of its fragments, parse back and reassemble.\<close>

lemma wf_session_msg:
  assumes "utf8_valid address" and "0 < length address" and "length address \<le> 2048"
    and "addr m = address" and "data m \<noteq> []"
  shows "parse (udp_wire m) = Some m"
  using assms parse_wire [of m] by (simp add: wf_msg_def relayable_def)

text \<open>
  What is sent for a message: datagrams that parse at a peer, as messages of the session, and
  that in any order and with any repetitions reassemble to the payload and the address.
\<close>

definition reassembles :: "bool \<Rightarrow> u16 \<Rightarrow> udp_message list \<Rightarrow> udp_message \<Rightarrow> bool" where
  "reassembles ovf pid ms m \<longleftrightarrow> ms \<noteq> [] \<and> map parse (map udp_wire ms) = map Some ms \<and>
     (\<forall>x\<in>set ms. session_id x = session_id m) \<and>
     (\<forall>d js j. (pkt_id d \<noteq> pid \<or> frags d = []) \<longrightarrow>
        set js \<subset> {..<length ms} \<longrightarrow> insert j (set js) = {..<length ms} \<longrightarrow>
        (\<exists>d'. feed_all ovf d (map (nth ms) (js @ [j])) =
           Some (d', replicate (length js) None @ [Some (m\<lparr>frag_id := 0, frag_count := 1\<rparr>)])))"

lemma reassemblesI:
  assumes "ms \<noteq> []" and "map parse (map udp_wire ms) = map Some ms" and "\<forall>x\<in>set ms. session_id x = session_id m"
    and "\<And>d js j. pkt_id d \<noteq> pid \<or> frags d = [] \<Longrightarrow> set js \<subset> {..<length ms} \<Longrightarrow> insert j (set js) = {..<length ms} \<Longrightarrow>
      \<exists>d'. feed_all ovf d (map (nth ms) (js @ [j])) =
        Some (d', replicate (length js) None @ [Some (m\<lparr>frag_id := 0, frag_count := 1\<rparr>)])"
  shows "reassembles ovf pid ms m"
  unfolding reassembles_def by (intro conjI allI impI assms)

lemma reassembles_single:
  assumes "parse (udp_wire m) = Some m" and "frag_count m = 1" and "frag_id m = 0"
  shows "reassembles ovf pid [m] m"
proof -
  have "feed_all ovf d (map (nth [m]) (js @ [j])) =
      Some (d, replicate (length js) None @ [Some (m\<lparr>frag_id := 0, frag_count := 1\<rparr>)])"
    if "set js \<subset> {..<length [m]}" "insert j (set js) = {..<length [m]}" for d js j
  proof -
    have "{..<length [m]} = {0}" by auto
    then have "set js \<subset> {0}" "j = 0" using that by auto
    then have "js = []" "j = 0" by (cases js; auto)+
    moreover have "m\<lparr>frag_id := 0, frag_count := 1\<rparr> = m" using assms(2,3) by (cases m) simp
    ultimately show ?thesis using assms(2) by (simp add: feed_def)
  qed
  then show ?thesis using assms(1) unfolding reassembles_def by simp
qed

lemma fragments_reassemble:
  assumes "utf8_valid (addr m)" and "0 < length (addr m)" and "length (addr m) \<le> 2048" and "data m \<noteq> []"
    and "header_size m < limit" and "div_ceil (length (data m)) (limit - header_size m) \<le> 255"
    and "frag_count m = 1" and "frag_id m = 0"
  shows "\<exists>fs. frag_udp_message ovf m limit = Some fs \<and> reassembles ovf (packet_id m) fs m"
proof (cases "msg_size m \<le> limit")
  case True
  then have "frag_udp_message ovf m limit = Some [m]" by (simp add: frag_udp_message_def)
  moreover have "parse (udp_wire m) = Some m" by (rule wf_session_msg [OF assms(1-3) refl assms(4)])
  ultimately show ?thesis using reassembles_single assms(7,8) by blast
next
  case False
  let ?p = "limit - header_size m"
  let ?n = "div_ceil (length (data m)) ?p"
  let ?fs = "map (fragment m ?p ?n) [0..<?n]"
  have lt: "limit < msg_size m" using False by simp
  have fs: "frag_udp_message ovf m limit = Some ?fs" using frag_udp_message_eq [OF lt assms(5)] assms(6) by auto
  have n: "2 \<le> ?n" by (rule fragment_count_range [OF lt assms(5)])
  have "parse (udp_wire (fragment m ?p ?n k)) = Some (fragment m ?p ?n k)" if "k < ?n" for k
    using fragment_nonempty [of ?p k m ?n] assms(5) that
    by (intro wf_session_msg [OF assms(1-3)]) (simp_all add: fragment_def)
  then have "map parse (map udp_wire ?fs) = map Some ?fs" by simp
  moreover have len: "?fs \<noteq> []" "length ?fs \<le> 255" "\<forall>x\<in>set ?fs. session_id x = session_id m"
    using n assms(6) by (auto simp: fragment_def)
  moreover have "\<exists>d'. feed_all ovf d (map (nth ?fs) (js @ [j])) =
      Some (d', replicate (length js) None @ [Some (m\<lparr>frag_id := 0, frag_count := 1\<rparr>)])"
    if d: "pkt_id d \<noteq> packet_id m \<or> frags d = []" and js: "set js \<subset> {..<length ?fs}" "insert j (set js) = {..<length ?fs}" for d js j
  proof -
    have "pkt_id d \<noteq> packet_id m \<or> length (frags d) \<noteq> length ?fs" using d n by auto
    then show ?thesis by (rule fragments_any_order [OF assms(5) lt fs len(2) _ js])
  qed
  ultimately have "reassembles ovf (packet_id m) ?fs m" by (intro reassemblesI)
  then show ?thesis using fs by blast
qed

lemma session_sends:
  assumes "conn_ok conn sent" and "utf8_valid address" and "0 < length address" and "length address \<le> 2048"
    and "payload \<noteq> []"
    and "\<forall>q. header_size (session_msg self payload address) < datagram_limit conn q \<and>
      div_ceil (length payload) (datagram_limit conn q - header_size (session_msg self payload address)) \<le> 255"
    and "session_send ovf conn pid self payload address q = Some (q', Inr ())"
  shows "\<exists>ms m. sent q' = sent q @ map udp_wire ms \<and> reassembles ovf pid ms m \<and>
    session_id m = us_id self \<and> addr m = address \<and> data m = payload"
proof -
  let ?m = "session_msg self payload address"
  let ?f = "?m\<lparr>packet_id := pid\<rparr>"
  obtain q1 r where r: "send_datagram conn q (udp_wire ?m) = (q1, r)" by fastforce
  have m: "session_id ?m = us_id self" "addr ?m = address" "data ?m = payload" "frag_count ?m = 1" "frag_id ?m = 0"
    by (simp_all add: session_msg_def)
  show ?thesis
  proof (cases r)
    case (Inr u)
    then have "q' = q1" using assms(7) r by (simp add: session_send_eq)
    then have "sent q' = sent q @ map udp_wire [?m]" using assms(1) r Inr unfolding conn_ok_def by simp
    moreover have "reassembles ovf pid [?m] ?m"
      using wf_session_msg [OF assms(2-4), of ?m] m assms(5) by (intro reassembles_single) simp_all
    ultimately show ?thesis using m by blast
  next
    case (Inl e)
    then have e: "e = TooLarge" using assms(7) r by (cases e) (simp_all add: session_send_eq)
    have h: "header_size ?f = header_size ?m" by (simp add: header_size_def)
    obtain fs where fs: "frag_udp_message ovf ?f (datagram_limit conn q1) = Some fs" "reassembles ovf pid fs ?f"
      using fragments_reassemble [of ?f "datagram_limit conn q1" ovf] assms(2-6) m h by auto
    have "send_all conn fs q1 = (q', Inr ())" using assms(7) r Inl e fs(1) by (simp add: session_send_eq)
    then have "sent q' = sent q1 @ map udp_wire fs" by (rule send_all_sent [OF assms(1)])
    moreover have "sent q1 = sent q" using assms(1) r Inl unfolding conn_ok_def by blast
    ultimately show ?thesis using fs(2) m by (intro exI [of _ fs] exI [of _ ?f]) simp
  qed
qed

section \<open>Routing\<close>

lemma on_chan_fields [simp]:
  "sessions (on_chan f a m) = sessions m" "next_id (on_chan f a m) = next_id m"
  "next_chan (on_chan f a m) = next_chan m"
  by (simp_all add: on_chan_def split: option.splits)

lemma on_chan_chans: "chans (on_chan f a m) b = (if b = a then map_option f (chans m a) else chans m b)"
  by (simp add: on_chan_def split: option.splits)

lemma owned_on_chan:
  assumes "owned queue own m" and "\<And>c x. chans m a = Some c \<Longrightarrow> x \<in> set (queue (f c)) \<Longrightarrow> session_id x = own a"
  shows "owned queue own (on_chan f a m)"
  using assms by (auto simp: owned_def on_chan_chans)

lemma owned_dispatch:
  assumes "chan_ok ops queue tx" and "owned queue own m"
  shows "owned queue own (dispatch ops m msg)"
proof (cases "sessions m (session_id msg)")
  case (Some a)
  then have own: "own a = session_id msg" using assms(2) by (simp add: owned_def)
  have "session_id x = own a" if "chans m a = Some c" "x \<in> set (queue (fst (ch_try_send ops c msg)))" for c x
  proof -
    obtain c' b where "ch_try_send ops c msg = (c', b)" by fastforce
    then have "x \<in> set (queue c) \<or> x = msg" using that(2) assms(1) unfolding chan_ok_def by (auto split: if_splits)
    then show ?thesis using own that(1) assms(2) by (auto simp: owned_def)
  qed
  then show ?thesis using owned_on_chan [OF assms(2)] Some by (simp add: dispatch_def)
qed (simp add: dispatch_def assms(2))

lemma owned_drop:
  assumes "chan_ok ops queue tx" and "owned queue own m"
  shows "owned queue own (on_chan (ch_drop_tx ops) a m)" and "owned queue own (on_chan (ch_drop_rx ops) a m)"
    and "owned queue own (remove_session ops m i)"
proof -
  have q: "set (queue (ch_drop_tx ops c)) \<subseteq> set (queue c)" "set (queue (ch_drop_rx ops c)) \<subseteq> set (queue c)" for c
    using assms(1) unfolding chan_ok_def by auto
  have mem: "session_id x = own b" if "owned queue own m'" "chans m' b = Some c" "x \<in> set (queue c)" for m' b c x
    using that unfolding owned_def by blast
  have tx: "owned queue own (on_chan (ch_drop_tx ops) b m')" if "owned queue own m'" for b m'
    using owned_on_chan [OF that] mem [OF that] q(1) by blast
  show "owned queue own (on_chan (ch_drop_tx ops) a m)" by (rule tx [OF assms(2)])
  show "owned queue own (on_chan (ch_drop_rx ops) a m)" using owned_on_chan [OF assms(2)] mem [OF assms(2)] q(2) by blast
  have "owned queue own (m\<lparr>sessions := (sessions m)(i := None)\<rparr>)" using assms(2) by (auto simp: owned_def)
  from tx [OF this] show "owned queue own (remove_session ops m i)"
    by (simp add: remove_session_def assms(2) split: option.splits)
qed

lemma owned_new_session:
  assumes "chan_ok ops queue tx" and "owned queue own m" and "new_session ops m = (m', s)"
  defines "own' \<equiv> own(next_chan m := next_id m)"
  shows "owned queue own' m'" and "next_chan m' = Suc (next_chan m)" and "session_ok own' m' s"
proof -
  let ?a = "next_chan m" and ?i = "next_id m"
  let ?m1 = "m\<lparr>next_id := ?i + 1, chans := (chans m)(?a \<mapsto> ch_new ops SESSION_CHAN_SIZE), next_chan := ?a + 1\<rparr>"
  have e: "queue (ch_new ops SESSION_CHAN_SIZE) = []" using assms(1) by (simp add: chan_ok_def)
  have 1: "owned queue own' ?m1"
    using assms(2) e by (auto simp: owned_def own'_def less_Suc_eq split: if_splits)
  let ?m2 = "case sessions ?m1 ?i of None \<Rightarrow> ?m1 | Some old \<Rightarrow> on_chan (ch_drop_tx ops) old ?m1"
  have 2: "owned queue own' ?m2" using owned_drop(1) [OF assms(1) 1] 1 by (simp split: option.splits)
  have f: "sessions ?m2 = sessions m" "next_chan ?m2 = Suc ?a" by (simp_all split: option.splits)
  have m': "m' = ?m2\<lparr>sessions := (sessions m)(?i \<mapsto> ?a)\<rparr>"
    and s: "s = \<lparr>us_id = ?i, us_rx = ?a, us_defrag = defragger_default\<rparr>"
    using assms(3) by (cases "sessions m ?i"; auto simp: new_session_def Let_def)+
  show "next_chan m' = Suc ?a" using f by (simp add: m')
  show "owned queue own' m'"
    using 2 f unfolding m' owned_def by (auto simp: own'_def split: if_splits)
  show "session_ok own' m' s" using df_ok_default f(2)
    by (simp add: session_ok_def s m' own'_def defragger_default_def df_ok_def carries_def)
qed

section \<open>Receiving\<close>

lemma some_list: "\<exists>H. \<forall>f. f \<in> set H \<longleftrightarrow> Some f \<in> set xs"
proof (induction xs)
  case (Cons a xs)
  then obtain H where H: "\<forall>f. f \<in> set H \<longleftrightarrow> Some f \<in> set xs" by blast
  show ?case
  proof (cases a)
    case None
    with H show ?thesis by (intro exI [of _ H]) simp
  next
    case (Some f)
    with H show ?thesis by (intro exI [of _ "f # H"]) auto
  qed
qed simp

lemma carries_history:
  assumes "carries i d"
  obtains H where "df_ok H d" and "\<forall>f\<in>set H. session_id f = i"
proof -
  from some_list [of "frags d"] obtain H where H: "\<forall>f. f \<in> set H \<longleftrightarrow> Some f \<in> set (frags d)" ..
  show ?thesis
  proof (rule that [of H])
    show "df_ok H d" using assms H unfolding carries_def df_ok_def slots_from_def by blast
    show "\<forall>f\<in>set H. session_id f = i" using assms H unfolding carries_def by blast
  qed
qed

lemma feed_carries:
  assumes "carries i d" and "session_id m = i" and "feed ovf d m = Some (d', r)"
  shows "carries i d'" and "r = Some out \<Longrightarrow> session_id out = i"
proof -
  obtain H where H: "df_ok H d" "\<forall>f\<in>set H. session_id f = i" by (rule carries_history [OF assms(1)])
  have Hm: "session_id f = i" if "f \<in> set (H @ [m])" for f using that H(2) assms(2) by auto
  have "df_ok (H @ [m]) d'" by (rule df.step_inv [OF H(1) assms(3)])
  then show "carries i d'" using Hm unfolding carries_def df_ok_def slots_from_def by blast
  assume r: "r = Some out"
  have ok: "delivery_ok H m r" by (rule df.step_good [OF H(1) assms(3)])
  show "session_id out = i"
  proof (cases "frag_count m \<le> 1")
    case True
    then show ?thesis using ok r assms(2) by (simp add: delivery_ok_def)
  next
    case False
    then obtain g where g: "frag_family g (unat (frag_count m)) (packet_id m)" "out = joined g (unat (frag_count m))"
      "\<forall>k < unat (frag_count m). g k \<in> set (H @ [m])" using ok r by (auto simp: delivery_ok_def)
    then have "session_id (g 0) = i" using Hm by (auto simp: frag_family_def)
    then show ?thesis using g(2) by (simp add: joined_def)
  qed
qed

text \<open>One poll of \<open>recv\<close>, by the front of the queue.\<close>

definition err_session_closed :: error where
  "err_session_closed = Protocol (str ''udp session closed'')"

lemma recv_empty:
  assumes "chan_ok ops queue tx" and "queue c = []"
  shows "session_recv ovf ops c s = Some (Some (c, s, if tx c then Pending else Ready (Inl err_session_closed)))"
proof -
  have "ch_recv ops c = (c, if tx c then Wait else Closed)" using assms unfolding chan_ok_def by blast
  then show ?thesis by (subst session_recv.simps) (simp add: err_session_closed_def)
qed

lemma recv_next:
  assumes "chan_ok ops queue tx" and "queue c = m # q"
  obtains c1 where "queue c1 = q" "tx c1 = tx c"
    "session_recv ovf ops c s =
       (case feed ovf (us_defrag s) m of
          None \<Rightarrow> Some None
        | Some (d, Some full) \<Rightarrow> Some (Some (c1, s\<lparr>us_defrag := d\<rparr>, Ready (Inr (data full, addr full))))
        | Some (d, None) \<Rightarrow> session_recv ovf ops c1 (s\<lparr>us_defrag := d\<rparr>))"
proof -
  obtain c1 where c1: "ch_recv ops c = (c1, Item m)" "queue c1 = q" "tx c1 = tx c"
    using assms unfolding chan_ok_def by blast
  show ?thesis by (rule that [OF c1(2,3)]) (subst session_recv.simps, simp add: c1(1))
qed

text \<open>
  A poll of \<open>recv\<close> returns; it takes messages off the front of the queue, and what it reports
  is a message of the session, or that the queue is empty.
\<close>

lemma session_recv_total:
  assumes "chan_ok ops queue tx" and "carries (us_id s) (us_defrag s)" and "\<forall>x\<in>set (queue c). session_id x = us_id s"
  shows "\<exists>c' s' p. session_recv False ops c s = Some (Some (c', s', p))"
  using assms(2,3)
proof (induction "queue c" arbitrary: c s)
  case Nil
  then show ?case using recv_empty [OF assms(1), of c] by auto
next
  case (Cons m q)
  obtain c1 where c1: "queue c1 = q" "session_recv False ops c s =
      (case feed False (us_defrag s) m of None \<Rightarrow> Some None
       | Some (d, Some full) \<Rightarrow> Some (Some (c1, s\<lparr>us_defrag := d\<rparr>, Ready (Inr (data full, addr full))))
       | Some (d, None) \<Rightarrow> session_recv False ops c1 (s\<lparr>us_defrag := d\<rparr>))"
    by (rule recv_next [OF assms(1) Cons.hyps(2) [symmetric]])
  have m: "session_id m = us_id s" using Cons.prems(2) Cons.hyps(2) [symmetric] by simp
  obtain H where "df_ok H (us_defrag s)" by (rule carries_history [OF Cons.prems(1)])
  from df_release.step_total [OF this, of m] obtain d r where f: "feed False (us_defrag s) m = Some (d, r)" by auto
  show ?case
  proof (cases r)
    case None
    then show ?thesis
      using Cons.hyps(1) [of c1 "s\<lparr>us_defrag := d\<rparr>"] c1 f feed_carries(1) [OF Cons.prems(1) m f] Cons.prems(2)
        Cons.hyps(2) [symmetric] by simp
  qed (use c1 f in simp)
qed

lemma session_recv_result:
  assumes "chan_ok ops queue tx" and "carries (us_id s) (us_defrag s)" and "\<forall>x\<in>set (queue c). session_id x = us_id s"
    and "session_recv ovf ops c s = Some (Some (c', s', p))"
  shows "us_id s' = us_id s \<and> us_rx s' = us_rx s \<and> carries (us_id s) (us_defrag s') \<and>
    set (queue c') \<subseteq> set (queue c) \<and> tx c' = tx c"
  using assms(2-4)
proof (induction "queue c" arbitrary: c s)
  case Nil
  then show ?case using recv_empty [OF assms(1), of c ovf s] by auto
next
  case (Cons m q)
  obtain c1 where c1: "queue c1 = q" "tx c1 = tx c" "session_recv ovf ops c s =
      (case feed ovf (us_defrag s) m of None \<Rightarrow> Some None
       | Some (d, Some full) \<Rightarrow> Some (Some (c1, s\<lparr>us_defrag := d\<rparr>, Ready (Inr (data full, addr full))))
       | Some (d, None) \<Rightarrow> session_recv ovf ops c1 (s\<lparr>us_defrag := d\<rparr>))"
    by (rule recv_next [OF assms(1) Cons.hyps(2) [symmetric]])
  have q: "queue c = m # q" using Cons.hyps(2) by simp
  have m: "session_id m = us_id s" using Cons.prems(2) q by simp
  obtain d r where f: "feed ovf (us_defrag s) m = Some (d, r)"
    using Cons.prems(3) c1(3) by (auto split: option.splits)
  note cd = feed_carries(1) [OF Cons.prems(1) m f]
  show ?case
  proof (cases r)
    case None
    then show ?thesis
      using Cons.hyps(1) [of c1 "s\<lparr>us_defrag := d\<rparr>"] c1 f cd Cons.prems(2,3) q by auto
  next
    case (Some full)
    then show ?thesis using c1 f cd Cons.prems(3) q by auto
  qed
qed

lemma session_ok_mono: "session_ok own m s \<Longrightarrow> next_chan m \<le> next_chan m' \<Longrightarrow> session_ok own m' s"
  by (simp add: session_ok_def)

lemma receive_one: "fst (receive_loop ops [Inr d] [True] m) = (case parse d of Some msg \<Rightarrow> dispatch ops m msg | None \<Rightarrow> m)"
  by (simp split: option.splits)

lemma dispatch_next_chan [simp]: "next_chan (dispatch ops m msg) = next_chan m"
  by (simp add: dispatch_def split: option.splits)

lemma remove_next_chan [simp]: "next_chan (remove_session ops m i) = next_chan m"
  by (simp add: remove_session_def split: option.splits)

lemma owned_queue: "owned queue own m \<Longrightarrow> chans m a = Some c \<Longrightarrow> \<forall>x\<in>set (queue c). session_id x = own a"
  by (simp add: owned_def)

text \<open>Polling a session leaves the channels with their owners.\<close>

lemma relay_inv_receive:
  assumes "chan_ok ops queue tx" and o: "owned queue own (mgr w)" "\<forall>s\<in>set (live w). session_ok own (mgr w) s"
    and receive: "w' = \<lparr>mgr = (mgr w)\<lparr>chans := (chans (mgr w))(us_rx (live w ! k) \<mapsto> c')\<rparr>, live = (live w)[k := s']\<rparr>"
      "k < length (live w)" "chans (mgr w) (us_rx (live w ! k)) = Some c"
      "session_recv ovf ops c (live w ! k) = Some (Some (c', s', p))"
  shows "relay_inv queue w'"
proof -
  let ?s = "live w ! k"
  have s: "session_ok own (mgr w) ?s" using o(2) receive(2) by simp
  have q: "\<forall>x\<in>set (queue c). session_id x = us_id ?s"
    using owned_queue [OF o(1) receive(3)] s by (simp add: session_ok_def)
  have r: "us_id s' = us_id ?s \<and> us_rx s' = us_rx ?s \<and> carries (us_id ?s) (us_defrag s') \<and> set (queue c') \<subseteq> set (queue c)"
    using session_recv_result [OF assms(1) _ q receive(4)] s by (simp add: session_ok_def)
  have "owned queue own (mgr w')"
    unfolding receive(1) using o(1) r q s receive(3) by (auto simp: owned_def session_ok_def)
  moreover have "session_ok own (mgr w') t" if "t \<in> set (live w')" for t
    using that o(2) r s set_update_subset_insert [of "live w" k s'] unfolding receive(1)
    by (auto simp: session_ok_def)
  ultimately show ?thesis by (auto simp: relay_inv_def)
qed

lemma relay_step_inv:
  assumes "chan_ok ops queue tx" and "relay_step ovf ops w w'" and "relay_inv queue w"
  shows "relay_inv queue w'"
proof -
  obtain own where o: "owned queue own (mgr w)" "\<forall>s\<in>set (live w). session_ok own (mgr w) s"
    using assms(3) by (auto simp: relay_inv_def)
  from assms(2) show ?thesis
  proof cases
    case (open_session m s)
    note n = owned_new_session [OF assms(1) o(1) open_session(2)]
    let ?own = "own(next_chan (mgr w) := next_id (mgr w))"
    have "session_ok ?own m t" if "t \<in> set (live w)" for t
      using o(2) that n(2) by (auto simp: session_ok_def)
    then show ?thesis using n(1,3) unfolding open_session(1) relay_inv_def by (intro exI [of _ ?own]) auto
  next
    case (datagram d)
    have "owned queue own (mgr w')"
      unfolding datagram using o(1) owned_dispatch [OF assms(1) o(1)] by (simp only: receive_one relay.simps split: option.splits) simp
    moreover have "\<forall>s\<in>set (live w'). session_ok own (mgr w') s"
      unfolding datagram using o(2) by (simp only: receive_one relay.simps) (auto simp: session_ok_def split: option.splits)
    ultimately show ?thesis by (auto simp: relay_inv_def)
  next
    case (receive k c c' s' p)
    then show ?thesis by (rule relay_inv_receive [OF assms(1) o])
  next
    case (close_session k)
    have "owned queue own (mgr w')"
      unfolding close_session(1) using owned_drop(2) [OF assms(1) owned_drop(3) [OF assms(1) o(1)]]
      by (simp add: session_drop_def)
    moreover have "next_chan (mgr w') = next_chan (mgr w)" unfolding close_session(1) by (simp add: session_drop_def)
    moreover have "set (live w') \<subseteq> set (live w)"
      unfolding close_session(1) by (auto dest: in_set_takeD in_set_dropD)
    ultimately show ?thesis using o(2) unfolding relay_inv_def by (intro exI [of _ own]) (auto simp: session_ok_def)
  qed
qed

lemma relay_new_inv: "relay_inv queue relay_new"
  by (auto simp: relay_inv_def relay_new_def manager_new_def owned_def)

lemma relay_reachable_inv:
  assumes "chan_ok ops queue tx" and "rtranclp (relay_step ovf ops) relay_new w"
  shows "relay_inv queue w"
  using assms(2) by induction (auto intro: relay_new_inv relay_step_inv [OF assms(1)])

lemma queue_chan_ok: "chan_ok queue_chan_ops qc_queue qc_tx"
  by (auto simp: chan_ok_def queue_chan_ops_def)

lemma log_conn_ok: "conn_ok (log_conn_ops limit) (\<lambda>q. q)"
  by (auto simp: conn_ok_def log_conn_ops_def)

section \<open>Properties\<close>

text \<open>
  Sending is faithful end to end. When \<open>send\<close> reports success for a payload with a valid
  address, within the limits of fragmentation, the datagrams the connection accepted all parse
  at a peer, and fed in order to a defragger that is not on that packet they deliver exactly
  one message, with the last of them: the payload, the address and the session id.
\<close>

theorem session_send_delivers:
  assumes "conn_ok conn sent" and "utf8_valid address" and "0 < length address" and "length address \<le> 2048"
    and "payload \<noteq> []"
    and "\<forall>q. header_size (session_msg self payload address) < datagram_limit conn q \<and>
      div_ceil (length payload) (datagram_limit conn q - header_size (session_msg self payload address)) \<le> 255"
    and "pkt_id d \<noteq> pid \<or> frags d = []"
    and "session_send ovf conn pid self payload address q = Some (q', Inr ())"
  shows "\<exists>ms d' out. sent q' = sent q @ map udp_wire ms \<and> map parse (map udp_wire ms) = map Some ms \<and>
    feed_all ovf d ms = Some (d', replicate (length ms - 1) None @ [Some out]) \<and>
    session_id out = us_id self \<and> addr out = address \<and> data out = payload"
proof -
  obtain ms m where ms: "sent q' = sent q @ map udp_wire ms" "reassembles ovf pid ms m"
    "session_id m = us_id self" "addr m = address" "data m = payload"
    using session_sends [OF assms(1-6,8)] by blast
  let ?n = "length ms"
  have n: "0 < ?n" "[0..<?n] = [0..<?n - 1] @ [?n - 1]"
    using ms(2) upt_Suc_append [of 0 "?n - 1"] by (auto simp: reassembles_def)
  have "?n - 1 \<in> {..<?n}" "?n - 1 \<notin> set [0..<?n - 1]" "set [0..<?n - 1] \<subseteq> {..<?n}" using n(1) by auto
  then have "set [0..<?n - 1] \<subset> {..<?n}" "insert (?n - 1) (set [0..<?n - 1]) = {..<?n}" by (blast, use n(1) in auto)
  then obtain d' where "feed_all ovf d (map (nth ms) ([0..<?n - 1] @ [?n - 1])) =
      Some (d', replicate (length [0..<?n - 1]) None @ [Some (m\<lparr>frag_id := 0, frag_count := 1\<rparr>)])"
    using ms(2) assms(7) unfolding reassembles_def by blast
  then have "feed_all ovf d ms = Some (d', replicate (?n - 1) None @ [Some (m\<lparr>frag_id := 0, frag_count := 1\<rparr>)])"
    unfolding n(2) [symmetric] map_nth by simp
  then show ?thesis using ms by (intro exI [of _ ms] exI [of _ d'] exI [of _ "m\<lparr>frag_id := 0, frag_count := 1\<rparr>"])
    (simp add: reassembles_def)
qed

theorem session_send_delivers_witness:
  "\<exists>q' ms d' out. session_send False (log_conn_ops 14) 9 \<lparr>us_id = 1, us_rx = 0, us_defrag = defragger_default\<rparr>
       [1, 2, 3, 4, 5] (str ''a:1'') [] = Some (q', Inr ()) \<and> length q' = 3 \<and> q' = map udp_wire ms \<and>
     feed_all False defragger_default ms = Some (d', replicate (length ms - 1) None @ [Some out]) \<and>
     data out = [1, 2, 3, 4, 5] \<and> addr out = str ''a:1''"
proof -
  let ?s = "\<lparr>us_id = 1, us_rx = 0, us_defrag = defragger_default\<rparr>"
  let ?m = "session_msg ?s [1, 2, 3, 4, 5] (str ''a:1'')"
  have u: "utf8_valid (str ''a:1'')" by (rule utf8_valid_ascii) code_simp
  have hs: "header_size ?m = 12" by code_simp
  have lim: "datagram_limit (log_conn_ops 14) q = 14" for q by (simp add: datagram_limit_def log_conn_ops_def)
  have "map_option (\<lambda>(q, r). (length q, r)) (session_send False (log_conn_ops 14) 9 ?s [1, 2, 3, 4, 5] (str ''a:1'') [])
      = Some (3, Inr ())" unfolding session_send_eq by code_simp
  then obtain q' where q': "session_send False (log_conn_ops 14) 9 ?s [1, 2, 3, 4, 5] (str ''a:1'') [] = Some (q', Inr ())"
    "length q' = 3" by auto
  have "\<forall>q. header_size ?m < datagram_limit (log_conn_ops 14) q \<and>
      div_ceil (length [1, 2, 3, 4, 5 :: u8]) (datagram_limit (log_conn_ops 14) q - header_size ?m) \<le> 255"
    unfolding lim hs by (simp add: div_ceil_def)
  from session_send_delivers [OF log_conn_ok u _ _ _ this _ q'(1), of defragger_default]
  obtain ms d' out where "q' = [] @ map udp_wire ms"
    "feed_all False defragger_default ms = Some (d', replicate (length ms - 1) None @ [Some out])"
    "addr out = str ''a:1''" "data out = [1, 2, 3, 4, 5]"
    by (auto simp: defragger_default_def)
  with q' show ?thesis by (intro exI [of _ q'] exI [of _ ms] exI [of _ d'] exI [of _ out]) simp
qed

text \<open>
  C8. Sessions are isolated. However sessions are opened and dropped, datagrams arrive and
  sessions are polled, also when the 32-bit id counter wraps, a live session's queue and its
  fragment slots hold only messages that carry its id, its channel is registered under no
  other id, and polling it returns.
\<close>

theorem relay_isolation:
  assumes "chan_ok ops queue tx" and "rtranclp (relay_step ovf ops) relay_new w"
    and "s \<in> set (live w)" and "chans (mgr w) (us_rx s) = Some c"
  shows "(\<forall>x\<in>set (queue c). session_id x = us_id s) \<and>
    (\<forall>f. Some f \<in> set (frags (us_defrag s)) \<longrightarrow> session_id f = us_id s) \<and>
    (\<forall>i. sessions (mgr w) i = Some (us_rx s) \<longrightarrow> i = us_id s) \<and>
    (\<exists>c' s' p. session_recv False ops c s = Some (Some (c', s', p)))"
proof -
  obtain own where o: "owned queue own (mgr w)" "session_ok own (mgr w) s"
    using relay_reachable_inv [OF assms(1,2)] assms(3) by (auto simp: relay_inv_def)
  then have s: "own (us_rx s) = us_id s" "carries (us_id s) (us_defrag s)" by (auto simp: session_ok_def)
  have q: "\<forall>x\<in>set (queue c). session_id x = us_id s" using owned_queue [OF o(1) assms(4)] s(1) by simp
  moreover have "\<forall>i. sessions (mgr w) i = Some (us_rx s) \<longrightarrow> i = us_id s" using o(1) s(1) by (auto simp: owned_def)
  ultimately show ?thesis
    using session_recv_total [OF assms(1) s(2) q] s(2) by (simp add: carries_def)
qed

theorem relay_isolation_witness:
  "\<exists>w s c. rtranclp (relay_step True queue_chan_ops) relay_new w \<and> s \<in> set (live w) \<and>
     chans (mgr w) (us_rx s) = Some c \<and> (\<forall>x\<in>set (qc_queue c). session_id x = us_id s)"
proof -
  let ?n = "relay_new :: queue_chan relay"
  obtain m s where n: "new_session queue_chan_ops (mgr ?n) = (m, s)" by fastforce
  let ?w = "\<lparr>mgr = m, live = live ?n @ [s]\<rparr>"
  have r: "rtranclp (relay_step True queue_chan_ops) relay_new ?w"
    by (rule r_into_rtranclp, rule relay_step.open_session [OF n])
  have l: "s \<in> set (live ?w)" by simp
  have c: "chans (mgr ?w) (us_rx s) = Some (ch_new queue_chan_ops SESSION_CHAN_SIZE)"
    using n by (auto simp: new_session_def relay_new_def manager_new_def Let_def)
  from relay_isolation [OF queue_chan_ok r l c] r l c show ?thesis by blast
qed

text \<open>
  A closed connection is not reported to sessions. When \<open>read_datagram\<close> fails the receive
  loop ends and leaves the manager as it is, with the sending end of every registered channel
  in its table: a session with nothing queued keeps waiting in \<open>recv\<close> instead of getting an
  error.
\<close>

theorem closed_connection_leaves_sessions_waiting:
  assumes "chan_ok ops queue tx" and "chans m (us_rx s) = Some c" and "queue c = []" and "tx c"
  shows "receive_loop ops (Inl e # ds) alive m = (m, True) \<and>
    session_recv ovf ops c s = Some (Some (c, s, Pending))"
proof -
  have "ch_recv ops c = (c, Wait)" using assms(1,3,4) by (simp add: chan_ok_def)
  then have "session_recv ovf ops c s = Some (Some (c, s, Pending))" by (subst session_recv.simps) simp
  then show ?thesis by simp
qed

theorem closed_connection_leaves_sessions_waiting_witness:
  "\<exists>m s c. new_session queue_chan_ops manager_new = (m, s) \<and> chans m (us_rx s) = Some c \<and>
     receive_loop queue_chan_ops [Inl []] [] m = (m, True) \<and>
     session_recv True queue_chan_ops c s = Some (Some (c, s, Pending))"
proof -
  let ?c = "\<lparr>qc_cap = 1024, qc_queue = [], qc_tx = True, qc_rx = True\<rparr>"
  obtain m s where n: "new_session queue_chan_ops manager_new = (m, s)" by fastforce
  then have c: "chans m (us_rx s) = Some ?c"
    by (auto simp: new_session_def manager_new_def Let_def queue_chan_ops_def SESSION_CHAN_SIZE_def)
  have "qc_queue ?c = []" "qc_tx ?c" by simp_all
  from closed_connection_leaves_sessions_waiting [OF queue_chan_ok c this] n c show ?thesis by blast
qed

text \<open>
  A datagram limit that does not exceed the message header makes \<open>send\<close> report success
  without sending anything: fragmentation returns no fragments, and sending none succeeds.
\<close>

theorem send_reports_success_without_sending:
  assumes "conn_ok conn sent" and "send_datagram conn q (udp_wire (session_msg self payload address)) = (q1, Inl TooLarge)"
    and "datagram_limit conn q1 \<le> header_size (session_msg self payload address)" and "payload \<noteq> []"
  shows "session_send ovf conn pid self payload address q = Some (q1, Inr ()) \<and> sent q1 = sent q"
proof -
  let ?f = "(session_msg self payload address)\<lparr>packet_id := pid\<rparr>"
  have "header_size ?f = header_size (session_msg self payload address)" "length (data ?f) = length payload"
    by (simp_all add: header_size_def session_msg_def)
  moreover from this have "datagram_limit conn q1 < msg_size ?f"
    using assms(3,4) unfolding msg_size_def by (cases payload) auto
  ultimately have "frag_udp_message ovf ?f (datagram_limit conn q1) = Some []"
    using assms(3) by (simp add: frag_udp_message_def Let_def)
  moreover have "sent q1 = sent q" using assms(1,2) unfolding conn_ok_def by blast
  ultimately show ?thesis using assms(2) by (simp add: session_send_eq)
qed

theorem send_reports_success_without_sending_witness:
  "session_send True (log_conn_ops 5) 9 \<lparr>us_id = 1, us_rx = 0, us_defrag = defragger_default\<rparr> [7] (str ''a:1'') []
     = Some ([], Inr ())"
proof -
  let ?s = "\<lparr>us_id = 1, us_rx = 0, us_defrag = defragger_default\<rparr>"
  let ?m = "session_msg ?s [7] (str ''a:1'')"
  have h: "header_size ?m = 12" "msg_size ?m = 13" by code_simp+
  have "send_datagram (log_conn_ops 5) [] (udp_wire ?m) = ([], Inl TooLarge)"
    using h by (simp add: log_conn_ops_def)
  moreover have "datagram_limit (log_conn_ops 5) [] \<le> header_size ?m"
    using h by (simp add: datagram_limit_def log_conn_ops_def)
  ultimately show ?thesis using send_reports_success_without_sending [OF log_conn_ok, of 5 "[]" ?s "[7]" "str ''a:1''" "[]"]
    by simp
qed

end
