(* ===== verification/Reconnect.thy ===== *)
theory Reconnect
  imports Rs_Io
begin

text \<open>
  The reconnecting client, \<^verbatim>\<open>src/src/reconnect.rs\<close>.

  A \<open>HysteriaClient\<close> is known by the number of its connection. \<open>rc_ops\<close> are the operations of a
  client that the wrapper calls: \<open>dial\<close> is \<open>connect\<close>, \<open>is_closed\<close> is
  \<open>close_reason().is_some()\<close>, \<open>open_tcp\<close> and \<open>open_udp\<close> are \<open>HysteriaClient::tcp_connect\<close> and
  \<open>udp\<close>, and \<open>close_conn\<close> is what its \<open>Drop\<close> does. A client is shared by \<open>Arc\<close>: \<open>arcs h\<close> counts
  its owners, and the last one to go drops it, which closes the connection.

  The methods hold the state's lock for the whole of \<open>current\<close>, \<open>invalidate\<close> and \<open>close\<close>, and
  nowhere else: these are the atomic steps when several tasks share the client, and
  \<open>task_step\<close> is the interleaving of \<open>tcp_connect\<close> and \<open>udp\<close> calls made of them. The count of connects is a
  \<open>u64\<close> that wraps, as in a release build; a debug build would panic at the connect after
  \<open>2 ^ 64 - 1\<close> of them.
\<close>

section \<open>The code\<close>

record ('n, 't, 'u) rc_ops =
  dial :: "'n \<Rightarrow> 'n \<times> nat rs_result"
  is_closed :: "'n \<Rightarrow> nat \<Rightarrow> bool"
  open_tcp :: "'n \<Rightarrow> nat \<Rightarrow> bytes \<Rightarrow> 'n \<times> 't rs_result"
  open_udp :: "'n \<Rightarrow> nat \<Rightarrow> 'n \<times> 'u rs_result"
  close_conn :: "'n \<Rightarrow> nat \<Rightarrow> 'n"

record rc_state =
  rc_client :: "nat option"
  rc_count :: u64
  rc_closed :: bool

record 'n world =
  net :: 'n
  arcs :: "nat \<Rightarrow> nat"

type_synonym 'n rc = "rc_state \<times> 'n world"

definition rc_new :: rc_state where
  "rc_new = \<lparr>rc_client = None, rc_count = 0, rc_closed = False\<rparr>"

text \<open>\<open>Arc::clone\<close> and the end of an owner.\<close>

definition retain :: "'n world \<Rightarrow> nat \<Rightarrow> 'n world" where
  "retain w h = w\<lparr>arcs := (arcs w)(h := arcs w h + 1)\<rparr>"

definition release :: "('n, 't, 'u) rc_ops \<Rightarrow> 'n world \<Rightarrow> nat \<Rightarrow> 'n world" where
  "release ops w h =
     (let w = w\<lparr>arcs := (arcs w)(h := arcs w h - 1)\<rparr> in
      if arcs w h = 0 then w\<lparr>net := close_conn ops (net w) h\<rparr> else w)"

definition release_opt :: "('n, 't, 'u) rc_ops \<Rightarrow> 'n world \<Rightarrow> nat option \<Rightarrow> 'n world" where
  "release_opt ops w h = (case h of None \<Rightarrow> w | Some h \<Rightarrow> release ops w h)"

definition err_closed_client :: error where
  "err_closed_client = Protocol (str ''client permanently closed'')"

definition current :: "('n, 't, 'u) rc_ops \<Rightarrow> 'n rc \<Rightarrow> 'n rc \<times> nat rs_result" where
  "current ops = (\<lambda>(st, w).
     if rc_closed st then ((st, w), Inl err_closed_client)
     else let stale = (case rc_client st of Some c \<Rightarrow> is_closed ops (net w) c | None \<Rightarrow> True) in
     if stale then
       (case dial ops (net w) of
          (n, Inl e) \<Rightarrow> ((st, w\<lparr>net := n\<rparr>), Inl e)
        | (n, Inr h) \<Rightarrow>
            let w = w\<lparr>net := n, arcs := (arcs w)(h := 1)\<rparr>;
                w = retain w h;
                w = release_opt ops w (rc_client st);
                st = st\<lparr>rc_client := Some h, rc_count := rc_count st + 1\<rparr>
            in ((st, w), Inr h))
     else (case rc_client st of
             Some c \<Rightarrow> ((st, retain w c), Inr c)
           | None \<Rightarrow> ((st, w), Inl err_closed_client)))"

definition invalidate :: "('n, 't, 'u) rc_ops \<Rightarrow> 'n rc \<Rightarrow> 'n rc" where
  "invalidate ops = (\<lambda>(st, w). (st\<lparr>rc_client := None\<rparr>, release_opt ops w (rc_client st)))"

definition rc_close :: "('n, 't, 'u) rc_ops \<Rightarrow> 'n rc \<Rightarrow> 'n rc" where
  "rc_close ops = (\<lambda>(st, w).
     (st\<lparr>rc_closed := True, rc_client := None\<rparr>, release_opt ops w (rc_client st)))"

definition connect_count :: "'n rc \<Rightarrow> u64" where
  "connect_count s = rc_count (fst s)"

definition rc_tcp_connect ::
    "('n, 't, 'u) rc_ops \<Rightarrow> bytes \<Rightarrow> 'n rc \<Rightarrow> 'n rc \<times> 't rs_result" where
  "rc_tcp_connect ops address s =
     (case current ops s of
        (s, Inl e) \<Rightarrow> (s, Inl e)
      | ((st, w), Inr c) \<Rightarrow>
          (case open_tcp ops (net w) c address of
             (n, Inr x) \<Rightarrow> ((st, release ops (w\<lparr>net := n\<rparr>) c), Inr x)
           | (n, Inl e) \<Rightarrow>
               if is_closed ops n c then
                 (case current ops (invalidate ops (st, w\<lparr>net := n\<rparr>)) of
                    ((st, w), Inl e) \<Rightarrow> ((st, release ops w c), Inl e)
                  | ((st, w), Inr c2) \<Rightarrow>
                      (case open_tcp ops (net w) c2 address of
                         (n, r) \<Rightarrow> ((st, release ops (release ops (w\<lparr>net := n\<rparr>) c2) c), r)))
               else ((st, release ops (w\<lparr>net := n\<rparr>) c), Inl e)))"

definition rc_udp :: "('n, 't, 'u) rc_ops \<Rightarrow> 'n rc \<Rightarrow> 'n rc \<times> 'u rs_result" where
  "rc_udp ops s =
     (case current ops s of
        (s, Inl e) \<Rightarrow> (s, Inl e)
      | ((st, w), Inr c) \<Rightarrow>
          (case open_udp ops (net w) c of (n, r) \<Rightarrow> ((st, release ops (w\<lparr>net := n\<rparr>) c), r)))"

definition connect_now :: "('n, 't, 'u) rc_ops \<Rightarrow> 'n world \<Rightarrow> 'n rc \<times> unit rs_result" where
  "connect_now ops w =
     (case current ops (rc_new, w) of
        (s, Inl e) \<Rightarrow> (s, Inl e)
      | ((st, w), Inr c) \<Rightarrow> ((st, release ops w c), Inr ()))"

section \<open>Tasks\<close>

text \<open>Where a task is in \<open>tcp_connect\<close> or in \<open>udp\<close>; the numbers are the clients it owns.\<close>

datatype ('t, 'u) task =
    Start bytes
  | Got nat bytes
  | Dead nat bytes
  | Retry nat bytes
  | Got2 nat nat bytes
  | Fin "'t rs_result"
  | UdpStart
  | UdpGot nat
  | UdpFin "'u rs_result"

definition task_turn :: "('n, 't, 'u) rc_ops \<Rightarrow> 'n rc \<Rightarrow> ('t, 'u) task \<Rightarrow> 'n rc \<times> ('t, 'u) task" where
  "task_turn ops s t =
     (case t of
        Start a \<Rightarrow>
          (case current ops s of (s, Inl e) \<Rightarrow> (s, Fin (Inl e)) | (s, Inr c) \<Rightarrow> (s, Got c a))
      | Got c a \<Rightarrow>
          (case s of (st, w) \<Rightarrow>
          (case open_tcp ops (net w) c a of
             (n, Inr x) \<Rightarrow> ((st, release ops (w\<lparr>net := n\<rparr>) c), Fin (Inr x))
           | (n, Inl e) \<Rightarrow>
               if is_closed ops n c then ((st, w\<lparr>net := n\<rparr>), Dead c a)
               else ((st, release ops (w\<lparr>net := n\<rparr>) c), Fin (Inl e))))
      | Dead c a \<Rightarrow> (invalidate ops s, Retry c a)
      | Retry c a \<Rightarrow>
          (case current ops s of
             ((st, w), Inl e) \<Rightarrow> ((st, release ops w c), Fin (Inl e))
           | (s, Inr c2) \<Rightarrow> (s, Got2 c c2 a))
      | Got2 c c2 a \<Rightarrow>
          (case s of (st, w) \<Rightarrow>
          (case open_tcp ops (net w) c2 a of
             (n, r) \<Rightarrow> ((st, release ops (release ops (w\<lparr>net := n\<rparr>) c2) c), Fin r)))
      | Fin r \<Rightarrow> (s, Fin r)
      | UdpStart \<Rightarrow>
          (case current ops s of (s, Inl e) \<Rightarrow> (s, UdpFin (Inl e)) | (s, Inr c) \<Rightarrow> (s, UdpGot c))
      | UdpGot c \<Rightarrow>
          (case s of (st, w) \<Rightarrow>
          (case open_udp ops (net w) c of
             (n, r) \<Rightarrow> ((st, release ops (w\<lparr>net := n\<rparr>) c), UdpFin r)))
      | UdpFin r \<Rightarrow> (s, UdpFin r))"

primrec task_run :: "('n, 't, 'u) rc_ops \<Rightarrow> nat \<Rightarrow> 'n rc \<Rightarrow> ('t, 'u) task \<Rightarrow> 'n rc \<times> ('t, 'u) task" where
  "task_run ops 0 s t = (s, t)"
| "task_run ops (Suc n) s t = (case task_turn ops s t of (s, t) \<Rightarrow> task_run ops n s t)"

text \<open>
  The tasks of a program and its explicit calls, interleaved. The network changes on its own
  too, as \<open>ext\<close> allows.
\<close>

inductive task_step ::
    "('n, 't, 'u) rc_ops \<Rightarrow> ('n \<Rightarrow> 'n \<Rightarrow> bool) \<Rightarrow> 'n rc \<times> ('t, 'u) task list \<Rightarrow> 'n rc \<times> ('t, 'u) task list \<Rightarrow> bool"
  for ops :: "('n, 't, 'u) rc_ops" and ext :: "'n \<Rightarrow> 'n \<Rightarrow> bool" where
  turn: "k < length ts \<Longrightarrow> task_turn ops s (ts ! k) = (s', t) \<Longrightarrow> task_step ops ext (s, ts) (s', ts[k := t])"
| spawn: "task_step ops ext (s, ts) (s, ts @ [Start a])"
| spawn_udp: "task_step ops ext (s, ts) (s, ts @ [UdpStart])"
| close: "task_step ops ext (s, ts) (rc_close ops s, ts)"
| invalidates: "task_step ops ext (s, ts) (invalidate ops s, ts)"
| network: "ext (net w) n \<Longrightarrow> task_step ops ext ((st, w), ts) ((st, w\<lparr>net := n\<rparr>), ts)"

section \<open>Ownership\<close>

text \<open>
  What the wrapper relies on of the clients it gets: they are numbered afresh, and the numbers
  only grow.
\<close>

locale client_handles =
  fixes ops :: "('n, 't, 'u) rc_ops"
    and nxt :: "'n \<Rightarrow> nat"
    and ext :: "'n \<Rightarrow> 'n \<Rightarrow> bool"
  assumes dial_next: "nxt n \<le> nxt (fst (dial ops n))"
    and dial_fresh: "dial ops n = (n', Inr h) \<Longrightarrow> nxt n \<le> h \<and> h < nxt n'"
    and tcp_next: "nxt n \<le> nxt (fst (open_tcp ops n h address))"
    and udp_next: "nxt n \<le> nxt (fst (open_udp ops n h))"
    and close_next: "nxt n \<le> nxt (close_conn ops n h)"
    and ext_next: "ext n n' \<Longrightarrow> nxt n \<le> nxt n'"

text \<open>The owners of a client: the shared state and the tasks that hold it.\<close>

fun held :: "('t, 'u) task \<Rightarrow> nat list" where
  "held (Start a) = []"
| "held (Got c a) = [c]"
| "held (Dead c a) = [c]"
| "held (Retry c a) = [c]"
| "held (Got2 c c2 a) = [c, c2]"
| "held (Fin r) = []"
| "held UdpStart = []"
| "held (UdpGot c) = [c]"
| "held (UdpFin r) = []"

definition state_owns :: "rc_state \<Rightarrow> nat \<Rightarrow> nat" where
  "state_owns st h = (if rc_client st = Some h then 1 else 0)"

definition task_owns :: "('t, 'u) task \<Rightarrow> nat \<Rightarrow> nat" where
  "task_owns t h = count_list (held t) h"

definition owners :: "rc_state \<Rightarrow> ('t, 'u) task list \<Rightarrow> nat \<Rightarrow> nat" where
  "owners st ts h = state_owns st h + sum_list (map (\<lambda>t. task_owns t h) ts)"

definition rc_inv :: "('n \<Rightarrow> nat) \<Rightarrow> 'n rc \<Rightarrow> ('t, 'u) task list \<Rightarrow> bool" where
  "rc_inv nxt s ts \<longleftrightarrow> (\<forall>h. arcs (snd s) h = owners (fst s) ts h) \<and>
     (\<forall>h. 0 < arcs (snd s) h \<longrightarrow> h < nxt (net (snd s)))"

text \<open>A network for the witnesses: the open connections, and the next number.\<close>

record toy_net =
  tn_open :: "nat list"
  tn_next :: nat

definition toy_ops :: "(toy_net, nat, nat) rc_ops" where
  "toy_ops = \<lparr>dial = (\<lambda>n. (\<lparr>tn_open = tn_next n # tn_open n, tn_next = tn_next n + 1\<rparr>, Inr (tn_next n))),
     is_closed = (\<lambda>n h. h \<notin> set (tn_open n)),
     open_tcp = (\<lambda>n h a. (n, if h \<in> set (tn_open n) then Inr h else Inl (Connection []))),
     open_udp = (\<lambda>n h. (n, if h \<in> set (tn_open n) then Inr h else Inl (Connection []))),
     close_conn = (\<lambda>n h. n\<lparr>tn_open := filter (\<lambda>x. x \<noteq> h) (tn_open n)\<rparr>)\<rparr>"

definition toy_ext :: "toy_net \<Rightarrow> toy_net \<Rightarrow> bool" where
  "toy_ext n n' \<longleftrightarrow> tn_next n \<le> tn_next n'"

interpretation toy: client_handles toy_ops tn_next toy_ext
  by unfold_locales (auto simp: toy_ops_def toy_ext_def)

lemma arcs_release [simp]: "arcs (release ops w h) = (arcs w)(h := arcs w h - 1)"
  by (simp add: release_def Let_def)

lemma arcs_retain [simp]: "arcs (retain w h) = (arcs w)(h := arcs w h + 1)"
  by (simp add: retain_def)

lemma net_retain [simp]: "net (retain w h) = net w"
  by (simp add: retain_def)

text \<open>Owners that move between a task and the shared state, exactly.\<close>

definition moves :: "('n \<Rightarrow> nat) \<Rightarrow> 'n rc \<Rightarrow> ('t, 'u) task \<Rightarrow> 'n rc \<Rightarrow> ('t, 'u) task \<Rightarrow> bool" where
  "moves nxt s t s' t' \<longleftrightarrow>
     (\<forall>h. arcs (snd s') h + (state_owns (fst s) h + task_owns t h) =
        arcs (snd s) h + (state_owns (fst s') h + task_owns t' h)) \<and>
     (\<forall>h. 0 < arcs (snd s') h \<longrightarrow> h < nxt (net (snd s')))"

lemma network_below:
  "nxt (net w) \<le> nxt n \<Longrightarrow> \<forall>h. 0 < arcs w h \<longrightarrow> h < nxt (net w) \<Longrightarrow>
   \<forall>h. 0 < arcs (w\<lparr>net := n\<rparr>) h \<longrightarrow> h < nxt (net (w\<lparr>net := n\<rparr>))"
  by (auto dest: less_le_trans)

lemma owners_update:
  "k < length ts \<Longrightarrow> owners st (ts[k := t]) h + task_owns (ts ! k) h + state_owns st0 h =
   owners st0 ts h + task_owns t h + state_owns st h"
proof -
  assume k: "k < length ts"
  have "task_owns (ts ! k) h \<le> sum_list (map (\<lambda>t. task_owns t h) ts)"
    using elem_le_sum_list [of k "map (\<lambda>t. task_owns t h) ts"] k by simp
  then show ?thesis
    using k by (simp add: owners_def map_update sum_list_update)
qed

lemma owners_task: "k < length ts \<Longrightarrow> state_owns st h + task_owns (ts ! k) h \<le> owners st ts h"
  using elem_le_sum_list [of k "map (\<lambda>t. task_owns t h) ts"] by (simp add: owners_def)

context client_handles
begin

lemma nxt_release: "nxt (net w) \<le> nxt (net (release ops w h))"
  by (simp add: release_def Let_def close_next)

lemma release_opt_simps:
  "nxt (net w) \<le> nxt (net (release_opt ops w c))"
  "arcs (release_opt ops w c) h = arcs w h - (if c = Some h then 1 else 0)"
  by (auto simp: release_opt_def nxt_release split: option.splits)

text \<open>
  The arithmetic of one atomic operation: how much the owner counts of the state change, what
  the operation hands to its caller, and that the handles stay below the next number.
\<close>

lemma current_arcs:
  assumes "current ops (st, w) = ((st', w'), r)"
    and "\<forall>h. state_owns st h \<le> arcs w h" and "\<forall>h. 0 < arcs w h \<longrightarrow> h < nxt (net w)"
  shows "(\<forall>h. arcs w' h + state_owns st h = arcs w h + state_owns st' h + (if r = Inr h then 1 else 0)) \<and>
    (\<forall>h. 0 < arcs w' h \<longrightarrow> h < nxt (net w')) \<and> (\<forall>h. state_owns st' h \<le> arcs w' h)"
proof (cases "rc_closed st \<or> \<not> (case rc_client st of Some c \<Rightarrow> is_closed ops (net w) c | None \<Rightarrow> True)")
  case True
  then show ?thesis
    using assms by (auto simp: current_def state_owns_def split: option.splits if_splits)
next
  case False
  obtain n d where d: "dial ops (net w) = (n, d)" by fastforce
  have n: "nxt (net w) \<le> nxt n" using dial_next [of "net w"] d by simp
  show ?thesis
  proof (cases d)
    case (Inl e)
    then have "st' = st" "w' = w\<lparr>net := n\<rparr>" "r = Inl e"
      using False d assms(1) by (auto simp: current_def Let_def)
    then show ?thesis using assms(2,3) n by (auto dest: less_le_trans)
  next
    case (Inr h0)
    then have h0: "nxt (net w) \<le> h0" "h0 < nxt n"
      using dial_fresh [of "net w"] d by simp_all
    then have z: "arcs w h0 = 0" using assms(3) by (metis gr0I leD)
    let ?w = "retain (w\<lparr>net := n, arcs := (arcs w)(h0 := 1)\<rparr>) h0"
    have e: "st' = st\<lparr>rc_client := Some h0, rc_count := rc_count st + 1\<rparr>" "r = Inr h0"
      "w' = release_opt ops ?w (rc_client st)"
      using False d Inr assms(1) by (auto simp: current_def Let_def)
    have a: "arcs w' h = (if h = h0 then 2 else arcs w h) - (if rc_client st = Some h then 1 else 0)" for h
      unfolding e(3) by (simp add: release_opt_simps(2))
    have ne: "rc_client st \<noteq> Some h0" using assms(2) z by (metis not_one_le_zero state_owns_def)
    have "nxt n \<le> nxt (net w')" unfolding e(3) using release_opt_simps(1) [of ?w] by simp
    then have "h < nxt (net w')" if "0 < arcs w' h" for h
      using that h0 n assms(3) [rule_format, of h] a [of h] by (cases "h = h0") (auto split: if_splits)
    moreover have "arcs w' h + state_owns st h = arcs w h + state_owns st' h + (if r = Inr h then 1 else 0)" for h
      using a [of h] assms(2) [rule_format, of h] z ne e(1,2) by (auto simp: state_owns_def)
    moreover have "state_owns st' h \<le> arcs w' h" for h
      using a [of h] ne e(1) by (auto simp: state_owns_def)
    ultimately show ?thesis by blast
  qed
qed

lemma invalidate_arcs:
  assumes "\<forall>h. state_owns st h \<le> arcs w h" and "\<forall>h. 0 < arcs w h \<longrightarrow> h < nxt (net w)"
    and "w' = release_opt ops w (rc_client st)"
  shows "arcs w' h + state_owns st h = arcs w h" and "0 < arcs w' h \<longrightarrow> h < nxt (net w')"
proof -
  show "arcs w' h + state_owns st h = arcs w h"
    using assms(1) [rule_format, of h] by (auto simp: assms(3) release_opt_simps(2) state_owns_def)
  then have "0 < arcs w' h \<Longrightarrow> h < nxt (net w)" using assms(2) [rule_format, of h] by simp
  then show "0 < arcs w' h \<longrightarrow> h < nxt (net w')"
    using release_opt_simps(1) [of w "rc_client st"] by (auto simp: assms(3) intro: less_le_trans)
qed

lemma release_below:
  assumes "\<forall>h. 0 < arcs w h \<longrightarrow> h < nxt (net w)"
  shows "\<forall>h. 0 < arcs (release ops w c) h \<longrightarrow> h < nxt (net (release ops w c))"
  using assms nxt_release [of w c] by (auto dest: less_le_trans split: if_splits)

lemma open_below: "open_tcp ops m c a = (n, r) \<Longrightarrow> nxt m \<le> nxt n"
  using tcp_next [of m c a] by simp

text \<open>The turns of a task, by what it does: \<open>current\<close>, a request, or \<open>invalidate\<close>.\<close>

lemma current_moves:
  assumes turn: "task_turn ops (st, w) t = (s', t')" and t: "t = Start a \<or> t = UdpStart \<or> t = Retry c a"
    and enough: "\<forall>h. state_owns st h + task_owns t h \<le> arcs w h"
    and below: "\<forall>h. 0 < arcs w h \<longrightarrow> h < nxt (net w)"
  shows "moves nxt (st, w) t s' t'"
proof -
  obtain st1 w1 r where cur: "current ops (st, w) = ((st1, w1), r)" by (metis surj_pair)
  have "\<forall>h. state_owns st h \<le> arcs w h" using enough add_leD1 by blast
  note f = current_arcs [OF cur this below]
  then have b: "\<forall>h. 0 < arcs w1 h \<longrightarrow> h < nxt (net w1)" by blast
  from t show ?thesis
  proof (elim disjE)
    assume t: "t = Retry c a"
    have "state_owns st c + 1 \<le> arcs w c" using enough [rule_format, of c] t by (simp add: task_owns_def)
    then have "1 \<le> arcs w1 c" using f [THEN conjunct1, rule_format, of c] by linarith
    then show ?thesis
      using f release_below [OF b, of c] turn cur t by (cases r) (auto simp: task_turn_def moves_def task_owns_def)
  qed (use f turn cur in \<open>cases r, auto simp: task_turn_def moves_def task_owns_def\<close>)+
qed

lemma request_moves:
  assumes turn: "task_turn ops (st, w) t = (s', t')" and t: "t = Got c a \<or> t = Got2 c0 c a"
    and enough: "\<forall>h. state_owns st h + task_owns t h \<le> arcs w h"
    and below: "\<forall>h. 0 < arcs w h \<longrightarrow> h < nxt (net w)"
  shows "moves nxt (st, w) t s' t'"
proof -
  obtain n r where o: "open_tcp ops (net w) c a = (n, r)" by fastforce
  note b = network_below [OF open_below [OF o] below]
  note b1 = release_below [OF b, of c]
  note b2 = release_below [OF b1, of c0]
  from t show ?thesis
  proof
    assume "t = Got c a"
    then show ?thesis
      using turn o b b1 enough by (cases r) (auto simp: task_turn_def moves_def task_owns_def split: if_splits)
  next
    assume "t = Got2 c0 c a"
    then show ?thesis
      using turn o b2 enough [rule_format, of c0] enough [rule_format, of c]
      by (auto simp: task_turn_def moves_def task_owns_def)
  qed
qed

lemma udp_moves:
  assumes turn: "task_turn ops (st, w) (UdpGot c) = (s', t')"
    and enough: "\<forall>h. state_owns st h + task_owns (UdpGot c) h \<le> arcs w h"
    and below: "\<forall>h. 0 < arcs w h \<longrightarrow> h < nxt (net w)"
  shows "moves nxt (st, w) (UdpGot c) s' t'"
proof -
  obtain n r where o: "open_udp ops (net w) c = (n, r)" by fastforce
  then have "nxt (net w) \<le> nxt n" using udp_next [of "net w" c] by simp
  note b = release_below [OF network_below [OF this below], of c]
  show ?thesis
    using turn o b enough [rule_format, of c] by (auto simp: task_turn_def moves_def task_owns_def)
qed

lemma turn_moves:
  assumes turn: "task_turn ops (st, w) t = (s', t')"
    and enough: "\<forall>h. state_owns st h + task_owns t h \<le> arcs w h"
    and below: "\<forall>h. 0 < arcs w h \<longrightarrow> h < nxt (net w)"
  shows "moves nxt (st, w) t s' t'"
proof (cases t)
  case (Dead c a)
  let ?w = "release_opt ops w (rc_client st)"
  have "s' = (st\<lparr>rc_client := None\<rparr>, ?w)" "t' = Retry c a" using turn Dead by (simp_all add: task_turn_def invalidate_def)
  moreover have "\<forall>h. state_owns st h \<le> arcs w h" using enough add_leD1 by blast
  ultimately show ?thesis
    using Dead invalidate_arcs [OF _ below, of st ?w] by (simp add: moves_def task_owns_def state_owns_def)
next
  case (Fin r)
  then show ?thesis using turn below by (auto simp: task_turn_def moves_def)
next
  case (UdpGot c)
  then show ?thesis using udp_moves turn enough below by simp
next
  case (UdpFin r)
  then show ?thesis using turn below by (auto simp: task_turn_def moves_def)
qed (use current_moves [OF turn _ enough below] request_moves [OF turn _ enough below] in blast)+

lemma inv_turn:
  assumes inv: "rc_inv nxt s ts" and k: "k < length ts"
    and turn: "task_turn ops s (ts ! k) = (s', t)"
  shows "rc_inv nxt s' (ts[k := t])"
proof -
  obtain st w where s: "s = (st, w)" by fastforce
  have "moves nxt (st, w) (ts ! k) s' t"
    using assms owners_task [OF k] unfolding s by (intro turn_moves) (auto simp: rc_inv_def)
  then have m: "arcs (snd s') h + (state_owns st h + task_owns (ts ! k) h) =
      arcs w h + (state_owns (fst s') h + task_owns t h)" and b: "0 < arcs (snd s') h \<longrightarrow> h < nxt (net (snd s'))" for h
    by (simp_all add: moves_def)
  have "arcs (snd s') h = owners (fst s') (ts[k := t]) h" for h
  proof -
    have "arcs w h = owners st ts h" using inv s by (simp add: rc_inv_def)
    then show ?thesis using m [of h] owners_update [OF k, of "fst s'" t h st] by linarith
  qed
  then show ?thesis using b by (simp add: rc_inv_def)
qed

lemma inv_drop_client:
  assumes inv: "rc_inv nxt (st, w) ts" and "rc_client st' = None"
  shows "rc_inv nxt (st', release_opt ops w (rc_client st)) ts"
proof -
  have e: "\<forall>h. state_owns st h \<le> arcs w h" and b: "\<forall>h. 0 < arcs w h \<longrightarrow> h < nxt (net w)"
    using inv by (simp_all add: rc_inv_def owners_def)
  note f = invalidate_arcs [OF e b refl]
  have "arcs (release_opt ops w (rc_client st)) h = owners st' ts h" for h
    using f(1) [of h] inv assms(2) by (simp add: rc_inv_def owners_def state_owns_def)
  then show ?thesis using f(2) by (simp add: rc_inv_def)
qed

lemma inv_step:
  assumes "task_step ops ext a b" and "rc_inv nxt (fst a) (snd a)"
  shows "rc_inv nxt (fst b) (snd b)"
  using assms
proof cases
  case (turn k ts s s' t)
  then show ?thesis using inv_turn assms(2) by auto
next
  case (spawn s ts a)
  then show ?thesis using assms(2) by (simp add: rc_inv_def owners_def task_owns_def)
next
  case (spawn_udp s ts)
  then show ?thesis using assms(2) by (simp add: rc_inv_def owners_def task_owns_def)
next
  case (close s ts)
  then show ?thesis
    using assms(2) inv_drop_client [of "fst s" "snd s" ts "fst s\<lparr>rc_closed := True, rc_client := None\<rparr>"]
    by (simp add: rc_close_def split_beta)
next
  case (invalidates s ts)
  then show ?thesis
    using assms(2) inv_drop_client [of "fst s" "snd s" ts "fst s\<lparr>rc_client := None\<rparr>"]
    by (simp add: invalidate_def split_beta)
next
  case (network w n st ts)
  then show ?thesis using assms(2) network_below [of nxt w n] ext_next by (simp add: rc_inv_def)
qed

lemma inv_steps:
  assumes "(task_step ops ext)\<^sup>*\<^sup>* a b" and "rc_inv nxt (fst a) (snd a)"
  shows "rc_inv nxt (fst b) (snd b)"
  using assms by (induction rule: rtranclp_induct) (auto dest: inv_step)

end

text \<open>
  A store of clients: \<open>present n\<close> are the clients that exist. Dialling adds one, dropping the last
  owner removes it, and nothing else changes the store. Proved once: under any interleaving
  the clients that exist are those that have an owner.
\<close>

locale client_store = client_handles ops nxt ext
  for ops :: "('n, 't, 'u) rc_ops" and nxt :: "'n \<Rightarrow> nat" and ext :: "'n \<Rightarrow> 'n \<Rightarrow> bool" +
  fixes present :: "'n \<Rightarrow> nat set"
  assumes present_dial: "dial ops n = (n', r) \<Longrightarrow> present n' = present n \<union> {h. r = Inr h}"
    and present_tcp: "present (fst (open_tcp ops n h address)) = present n"
    and present_udp: "present (fst (open_udp ops n h)) = present n"
    and present_close: "present (close_conn ops n h) = present n - {h}"
    and present_ext: "ext n n' \<Longrightarrow> present n' = present n"
begin

definition stored :: "'n world \<Rightarrow> bool" where
  "stored w \<longleftrightarrow> present (net w) = {h. 0 < arcs w h}"

lemma stored_release: "stored w \<Longrightarrow> stored (release ops w h)"
  by (auto simp: stored_def release_def Let_def present_close)

lemma stored_release_opt: "stored w \<Longrightarrow> stored (release_opt ops w c)"
  by (simp add: release_opt_def stored_release split: option.splits)

lemma stored_invalidate: "stored (snd s) \<Longrightarrow> stored (snd (invalidate ops s))"
  by (simp add: invalidate_def split_beta stored_release_opt)

lemma stored_net: "stored w \<Longrightarrow> present n = present (net w) \<Longrightarrow> stored (w\<lparr>net := n\<rparr>)"
  by (simp add: stored_def)

lemma stored_tcp: "stored w \<Longrightarrow> open_tcp ops (net w) c a = (n, r) \<Longrightarrow> stored (w\<lparr>net := n\<rparr>)"
  by (rule stored_net) (use present_tcp [of "net w" c a] in simp_all)

lemma stored_udp: "stored w \<Longrightarrow> open_udp ops (net w) c = (n, r) \<Longrightarrow> stored (w\<lparr>net := n\<rparr>)"
  by (rule stored_net) (use present_udp [of "net w" c] in simp_all)

lemma stored_current:
  assumes "stored w" and "\<forall>h. state_owns st h \<le> arcs w h" and "current ops (st, w) = (s', r)"
  shows "stored (snd s')"
proof (cases "rc_closed st \<or> \<not> (case rc_client st of Some c \<Rightarrow> is_closed ops (net w) c | None \<Rightarrow> True)")
  case True
  have "0 < arcs w c" if "rc_client st = Some c" for c
    using assms(2) [rule_format, of c] that by (simp add: state_owns_def)
  then have "stored (retain w c)" if "rc_client st = Some c" for c
    using assms(1) that by (auto simp: stored_def retain_def)
  then show ?thesis
    using True assms(1,3) by (auto simp: current_def split: option.splits if_splits)
next
  case False
  obtain n d where d: "dial ops (net w) = (n, d)" by fastforce
  note p = present_dial [OF d]
  show ?thesis
  proof (cases d)
    case (Inl e)
    then show ?thesis using False d p assms(1,3) stored_net by (auto simp: current_def Let_def)
  next
    case (Inr h)
    have "stored (retain (w\<lparr>net := n, arcs := (arcs w)(h := 1)\<rparr>) h)"
      using assms(1) p Inr by (auto simp: stored_def retain_def)
    then show ?thesis using False d Inr assms(3) stored_release_opt by (auto simp: current_def Let_def)
  qed
qed

lemma stored_turn:
  assumes "stored (snd s)" and "\<forall>h. state_owns (fst s) h \<le> arcs (snd s) h" and "task_turn ops s t = (s', t')"
  shows "stored (snd s')"
proof -
  obtain st w where s: "s = (st, w)" by fastforce
  show ?thesis
    using assms stored_current [of w st] unfolding s
    by (auto simp: task_turn_def intro!: stored_release stored_invalidate dest: stored_tcp stored_udp
        split: task.splits prod.splits sum.splits if_splits)
qed

lemma stored_step:
  assumes "task_step ops ext a b" and "rc_inv nxt (fst a) (snd a)" and "stored (snd (fst a))"
  shows "stored (snd (fst b))"
proof -
  have "\<forall>h. state_owns (fst (fst a)) h \<le> arcs (snd (fst a)) h" using assms(2) by (simp add: rc_inv_def owners_def)
  with assms(1,3) show ?thesis
    by cases (auto simp: rc_close_def split_beta
        intro: stored_turn stored_release_opt stored_invalidate stored_net dest: present_ext)
qed

lemma stored_steps:
  assumes "(task_step ops ext)\<^sup>*\<^sup>* a b" and "rc_inv nxt (fst a) (snd a)" and "stored (snd (fst a))"
  shows "rc_inv nxt (fst b) (snd b) \<and> stored (snd (fst b))"
  using assms by (induction rule: rtranclp_induct) (auto dest: inv_step stored_step)

end

lemma inv_new: "(\<forall>h. arcs w h = 0) \<Longrightarrow> rc_inv nxt (rc_new, w) []"
  by (simp add: rc_inv_def rc_new_def owners_def state_owns_def)

section \<open>Closing\<close>

lemma current_closed: "rc_closed st \<Longrightarrow> current ops (st, w) = ((st, w), Inl err_closed_client)"
  by (simp add: current_def)

definition closed_at :: "u64 \<Rightarrow> 'n rc \<Rightarrow> bool" where
  "closed_at n s \<longleftrightarrow> rc_closed (fst s) \<and> rc_client (fst s) = None \<and> connect_count s = n"

lemma closed_at_turn: "closed_at n s \<Longrightarrow> task_turn ops s t = (s', t') \<Longrightarrow> closed_at n s'"
  by (cases s; cases t)
    (auto simp: closed_at_def connect_count_def task_turn_def current_closed invalidate_def
      split: prod.splits sum.splits if_splits)

lemma closed_at_step: "task_step ops ext a b \<Longrightarrow> closed_at n (fst a) \<Longrightarrow> closed_at n (fst b)"
  by (induction rule: task_step.induct)
    (auto simp: closed_at_turn, auto simp: closed_at_def connect_count_def rc_close_def invalidate_def split: prod.splits)

lemma closed_at_steps: "(task_step ops ext)\<^sup>*\<^sup>* a b \<Longrightarrow> closed_at n (fst a) \<Longrightarrow> closed_at n (fst b)"
  by (induction rule: rtranclp_induct) (auto dest: closed_at_step)

section \<open>Counting connects\<close>

lemma current_count:
  "current ops s = (s', r) \<Longrightarrow>
   connect_count s' = connect_count s \<or> connect_count s' = connect_count s + 1"
  by (cases s) (auto simp: current_def connect_count_def Let_def split: if_splits prod.splits sum.splits option.splits)

lemma invalidate_count: "connect_count (invalidate ops s) = connect_count s"
  by (simp add: invalidate_def connect_count_def split_beta)

section \<open>A scheduled run\<close>

text \<open>
  Tasks run to a schedule on the toy network: two calls share connection 0, it dies under both,
  and the first has found that out, redialled and returned its stream.
\<close>

definition sched :: "toy_net rc \<times> (nat, nat) task list \<Rightarrow> nat list \<Rightarrow> toy_net rc \<times> (nat, nat) task list" where
  "sched = foldl (\<lambda>(s, ts) k. case task_turn toy_ops s (ts ! k) of (s', t) \<Rightarrow> (s', ts[k := t]))"

lemma sched_steps:
  "list_all (\<lambda>k. k < length ts) ks \<Longrightarrow>
   (task_step toy_ops toy_ext)\<^sup>*\<^sup>* (s, ts) (sched (s, ts) ks) \<and> length (snd (sched (s, ts) ks)) = length ts"
proof (induction ks arbitrary: s ts)
  case (Cons k ks)
  obtain s' t where t: "task_turn toy_ops s (ts ! k) = (s', t)" by fastforce
  have "task_step toy_ops toy_ext (s, ts) (s', ts[k := t])" using Cons.prems t by (auto intro: task_step.turn)
  then show ?case
    using Cons.IH [of "ts[k := t]" s'] Cons.prems t by (simp add: sched_def converse_rtranclp_into_rtranclp)
qed (simp add: sched_def)

definition quiet :: "toy_net world" where
  "quiet = \<lparr>net = \<lparr>tn_open = [], tn_next = 0\<rparr>, arcs = (\<lambda>h. 0)\<rparr>"

definition lose_all :: "toy_net rc \<times> (nat, nat) task list \<Rightarrow> toy_net rc \<times> (nat, nat) task list" where
  "lose_all = (\<lambda>((st, w), ts). ((st, w\<lparr>net := (net w)\<lparr>tn_open := []\<rparr>\<rparr>), ts))"

definition race_before :: "toy_net rc \<times> (nat, nat) task list" where
  "race_before = sched (lose_all (sched ((rc_new, quiet), [Start [], Start []]) [0, 1])) [0, 1, 0, 0, 0]"

lemma race_reachable: "(task_step toy_ops toy_ext)\<^sup>*\<^sup>* ((rc_new, quiet), []) race_before"
proof -
  let ?step = "task_step toy_ops toy_ext" and ?s = "(rc_new, quiet)" and ?ts = "[Start [], Start []]"
  have 1: "?step\<^sup>*\<^sup>* (?s, []) (?s, ?ts)"
    using task_step.spawn [of toy_ops toy_ext ?s "[]" "[]"] task_step.spawn [of toy_ops toy_ext ?s "[Start []]" "[]"]
    by (simp add: converse_rtranclp_into_rtranclp)
  obtain st w ts where two: "sched (?s, ?ts) [0, 1] = ((st, w), ts)" by (metis surj_pair)
  have 2: "?step\<^sup>*\<^sup>* (?s, ?ts) ((st, w), ts)" and len: "length ts = 2"
    using sched_steps [of ?ts "[0, 1]" ?s] two by simp_all
  have 3: "?step ((st, w), ts) (lose_all ((st, w), ts))"
    unfolding lose_all_def prod.case by (rule task_step.network) (simp add: toy_ext_def)
  have "?step\<^sup>*\<^sup>* (lose_all ((st, w), ts)) race_before"
    unfolding race_before_def two
    using sched_steps [of ts "[0, 1, 0, 0, 0]"] len by (simp add: lose_all_def)
  then show ?thesis using 1 2 3 by (meson converse_rtranclp_into_rtranclp rtranclp_trans)
qed

lemmas sched_eval = race_before_def sched_def lose_all_def quiet_def rc_new_def task_turn_def current_def
  toy_ops_def retain_def release_def release_opt_def invalidate_def Let_def

lemma race_before_eq:
  "race_before = ((\<lparr>rc_client = Some 1, rc_count = 2, rc_closed = False\<rparr>,
     \<lparr>net = \<lparr>tn_open = [1], tn_next = 2\<rparr>, arcs = arcs (snd (fst race_before))\<rparr>), [Fin (Inr 1), Dead 0 []])"
  by (simp add: sched_eval)

lemma race_before_arcs: "arcs (snd (fst race_before)) 1 = 1"
  by (simp add: sched_eval)

section \<open>The properties\<close>

text \<open>
  Ownership is exact. In every state that any interleaving of calls, explicit
  \<open>invalidate\<close> and \<open>close\<close> calls and network changes can reach, the reference count of each
  connection is the number of its owners, the shared state and the tasks between their
  \<open>current\<close> and their return. So a connection that a task or the state still holds is never
  closed by the release of another owner, and one that nobody holds has been closed.
\<close>

lemma arcs_are_owners:
  assumes "client_handles ops nxt ext" and "\<forall>h. arcs w h = 0"
    and "(task_step ops ext)\<^sup>*\<^sup>* ((rc_new, w), []) ((st, w'), ts)"
  shows "arcs w' h = owners st ts h"
proof -
  have "rc_inv nxt (st, w') ts" using client_handles.inv_steps [OF assms(1,3)] inv_new [OF assms(2), of nxt] by simp
  then show ?thesis by (simp add: rc_inv_def)
qed

text \<open>
  So the shared client of a reachable state has an owner, and dialling gives another one: what
  \<open>survives_one_loss\<close> assumes of its state.
\<close>

lemma shared_client_owned:
  assumes "client_handles ops nxt ext" and "\<forall>h. arcs w h = 0"
    and "(task_step ops ext)\<^sup>*\<^sup>* ((rc_new, w), []) ((st, w'), ts)" and "rc_client st = Some c"
  shows "1 \<le> arcs w' c" and "nxt (net w') \<le> nxt n \<Longrightarrow> dial ops n = (n', Inr h) \<Longrightarrow> h \<noteq> c"
proof -
  have inv: "rc_inv nxt (st, w') ts" using client_handles.inv_steps [OF assms(1,3)] inv_new [OF assms(2), of nxt] by simp
  then show one: "1 \<le> arcs w' c" using assms(4) by (simp add: rc_inv_def owners_def state_owns_def)
  then have "c < nxt (net w')" using inv by (simp add: rc_inv_def)
  then show "nxt (net w') \<le> nxt n \<Longrightarrow> dial ops n = (n', Inr h) \<Longrightarrow> h \<noteq> c"
    using client_handles.dial_fresh [OF assms(1), of n n' h] by linarith
qed

text \<open>
  C15. Closing is permanent. From the moment \<open>close\<close> returns, whatever the other tasks and the
  network do, the client stays closed, holds no connection, never connects again, and every
  \<open>tcp_connect\<close> and \<open>udp\<close> fails with the error \<open>client permanently closed\<close> and changes nothing.
\<close>

theorem closed_for_good:
  assumes "(task_step ops ext)\<^sup>*\<^sup>* (rc_close ops s, ts) (s', ts')"
  shows "rc_client (fst s') = None \<and> connect_count s' = connect_count s \<and>
    rc_tcp_connect ops address s' = (s', Inl err_closed_client) \<and> rc_udp ops s' = (s', Inl err_closed_client)"
proof -
  have "closed_at (connect_count s) (rc_close ops s)"
    by (simp add: closed_at_def rc_close_def connect_count_def split_beta)
  then have "closed_at (connect_count s) s'" using closed_at_steps [OF assms] by simp
  then show ?thesis
    using current_closed [of "fst s'" ops "snd s'"]
    by (simp add: closed_at_def rc_tcp_connect_def rc_udp_def split_beta)
qed

theorem closed_for_good_witness:
  "rc_udp toy_ops (rc_close toy_ops (fst race_before)) =
     (rc_close toy_ops (fst race_before), Inl err_closed_client)"
  using closed_for_good [of toy_ops toy_ext "fst race_before" "[]" _ "[]"] by blast

text \<open>
  A call that runs alone is its task run to the end: five turns of the task, from before
  the first \<open>current\<close>, give the result and the state of \<open>tcp_connect\<close>. It connects at most
  twice, once in each \<open>current\<close>.
\<close>

lemma tcp_connect_is_its_task:
  "task_run ops 5 s (Start address) =
     (fst (rc_tcp_connect ops address s), Fin (snd (rc_tcp_connect ops address s))) \<and>
   connect_count (fst (rc_tcp_connect ops address s)) \<in>
     {connect_count s, connect_count s + 1, connect_count s + 2}"
proof -
  obtain st w r where c: "current ops s = ((st, w), r)" by (metis surj_pair)
  show ?thesis
  proof (cases r)
    case (Inl e)
    then show ?thesis
      using c current_count [OF c] by (simp add: numeral_eq_Suc task_turn_def rc_tcp_connect_def, blast)
  next
    case (Inr h)
    obtain n x where o: "open_tcp ops (net w) h address = (n, x)" by fastforce
    obtain st2 w2 r2 where c2: "current ops (invalidate ops (st, w\<lparr>net := n\<rparr>)) = ((st2, w2), r2)" by (metis surj_pair)
    obtain n2 x2 where o2: "open_tcp ops (net w2) (projr r2) address = (n2, x2)" by fastforce
    have counts: "rc_count st \<in> {connect_count s, connect_count s + 1}"
      "rc_count st2 \<in> {rc_count st, rc_count st + 1}"
      using current_count [OF c] current_count [OF c2] by (auto simp: invalidate_count) (auto simp: connect_count_def)
    show ?thesis
      using c c2 o o2 Inr counts
      by (cases x; cases r2) (simp_all add: numeral_eq_Suc task_turn_def rc_tcp_connect_def connect_count_def, auto)
  qed
qed

lemma udp_is_its_task: "task_run ops 2 s UdpStart = (fst (rc_udp ops s), UdpFin (snd (rc_udp ops s)))"
  by (simp add: numeral_2_eq_2 task_turn_def rc_udp_def split: prod.splits sum.splits)

text \<open>
  C39. The retry of \<open>tcp_connect\<close> can close a connection that is alive and in use. There is a
  reachable state in which one call has reconnected, and its stream runs on the live connection
  \<open>h\<close>, while a second call, which saw the older connection \<open>c\<close> die, is about to invalidate:
  its next turn drops the client of \<open>h\<close>, which is not the one it found dead, and closes it.
\<close>

theorem invalidate_closes_live_connection:
  "\<exists>s ts h c s' t.
     (task_step toy_ops toy_ext)\<^sup>*\<^sup>* ((rc_new, quiet), []) (s, ts) \<and>
     ts = [Fin (Inr h), Dead c []] \<and> c \<noteq> h \<and> \<not> is_closed toy_ops (net (snd s)) h \<and>
     task_turn toy_ops s (ts ! 1) = (s', t) \<and> is_closed toy_ops (net (snd s')) h"
proof -
  have "is_closed toy_ops (net (snd (fst (task_turn toy_ops (fst race_before) (Dead 0 []))))) 1"
    using race_before_arcs by (subst race_before_eq)
      (simp add: task_turn_def invalidate_def release_opt_def release_def toy_ops_def)
  moreover have "\<not> is_closed toy_ops (net (snd (fst race_before))) 1"
    by (subst race_before_eq) (simp add: toy_ops_def)
  moreover have "snd race_before = [Fin (Inr 1), Dead 0 []]" by (subst race_before_eq) simp
  moreover have "(task_step toy_ops toy_ext)\<^sup>*\<^sup>* ((rc_new, quiet), []) (fst race_before, snd race_before)"
    using race_reachable by simp
  ultimately have "\<not> is_closed toy_ops (net (snd s)) 1 \<and> is_closed toy_ops (net (snd s')) 1 \<and>
      ts = [Fin (Inr 1), Dead 0 []] \<and> (task_step toy_ops toy_ext)\<^sup>*\<^sup>* ((rc_new, quiet), []) (s, ts)"
    if "s = fst race_before" "ts = snd race_before" "s' = fst (task_turn toy_ops s (Dead 0 []))" for s ts s'
    using that by simp
  then show ?thesis by (metis One_nat_def nth_Cons_0 nth_Cons_Suc prod.collapse zero_neq_one)
qed

end
