(* ===== verification/Rs_Float.thy ===== *)
theory Rs_Float
  imports Rs_Prelude "HOL-Library.Log_Nat"
begin

text \<open>
  The \<open>f64\<close> arithmetic of the congestion controller. A non-negative finite binary64 number is
  the rational it stands for; every operation computes the exact result and rounds it to the
  nearest number with a significand of 53 bits, ties to even. The exponent is not bounded here:
  \<open>f64_normal\<close> is the range in which binary64 has no subnormals and no infinities, and the
  controller's values are shown to stay inside it.

  The locale \<open>rounding\<close> is the interface the controller's proofs use: rounding is monotone,
  exact on zero and one, and has a relative error of at most \<open>u\<close>.
\<close>

section \<open>Rounding\<close>

type_synonym f64 = rat

text \<open>Nearest integer, ties to even.\<close>

definition round_even :: "rat \<Rightarrow> int" where
  "round_even x =
     (let m = \<lfloor>x\<rfloor>; d = x - of_int m in
      if d < 1 / 2 then m else if 1 / 2 < d then m + 1 else if even m then m else m + 1)"

text \<open>The least \<open>e\<close> with \<open>x < 2 powi e\<close>.\<close>

definition exponent :: "rat \<Rightarrow> int" where
  "exponent x =
     (let (p, q) = quotient_of x; e = bitlen p - bitlen q in if 2 powi e \<le> x then e + 1 else e)"

definition rnd :: "rat \<Rightarrow> f64" where
  "rnd x =
     (if x \<le> 0 then 0
      else let k = 53 - exponent x in of_int (round_even (x * 2 powi k)) * 2 powi (- k))"

text \<open>The operations the sources use: integer casts both ways, and the four roundings.\<close>

definition f64_of_u64 :: "u64 \<Rightarrow> f64" where
  "f64_of_u64 w = rnd (of_nat (unat w))"

definition f64_add :: "f64 \<Rightarrow> f64 \<Rightarrow> f64" where "f64_add a b = rnd (a + b)"

definition f64_mul :: "f64 \<Rightarrow> f64 \<Rightarrow> f64" where "f64_mul a b = rnd (a * b)"

definition f64_div :: "f64 \<Rightarrow> f64 \<Rightarrow> f64" where "f64_div a b = rnd (a / b)"

text \<open>\<open>x as u64\<close> truncates and saturates.\<close>

definition f64_to_u64 :: "f64 \<Rightarrow> u64" where
  "f64_to_u64 x = of_nat (min (nat \<lfloor>x\<rfloor>) (2 ^ 64 - 1))"

definition f64_normal :: "f64 \<Rightarrow> bool" where
  "f64_normal x \<longleftrightarrow> x = 0 \<or> 2 powi (- 1022) \<le> x \<and> x < 2 powi 1024"

section \<open>The interface\<close>

text \<open>\<open>y\<close> is \<open>x\<close> up to \<open>n\<close> roundings.\<close>

definition rounded :: "rat \<Rightarrow> nat \<Rightarrow> rat \<Rightarrow> rat \<Rightarrow> bool" where
  "rounded u n x y \<longleftrightarrow> (1 - u) ^ n * x \<le> y \<and> y \<le> (1 + u) ^ n * x"

locale rounding =
  fixes rd :: "rat \<Rightarrow> rat"
    and u :: rat
  assumes mono: "x \<le> y \<Longrightarrow> rd x \<le> rd y"
    and zero: "rd 0 = 0"
    and one: "rd 1 = 1"
    and err: "0 \<le> x \<Longrightarrow> \<bar>rd x - x\<bar> \<le> u * x"
    and unit: "0 \<le> u" "u < 1"
begin

lemma nonneg: "0 \<le> x \<Longrightarrow> 0 \<le> rd x"
  using mono [of 0 x] zero by simp

lemma quotient_le_one: "0 \<le> a \<Longrightarrow> a \<le> b \<Longrightarrow> rd (a / b) \<le> 1"
  using mono [of "a / b" 1] one by (cases "b = 0") (simp_all add: zero)

lemma rounded_nonneg:
  assumes "0 \<le> x" and "rounded u n x y"
  shows "0 \<le> y"
proof -
  have "0 \<le> (1 - u) ^ n * x" using unit assms(1) by simp
  then show ?thesis using assms(2) by (simp add: rounded_def)
qed

lemma rounded_exact:
  assumes "0 \<le> x"
  shows "rounded u n x x"
proof -
  have "(1 - u) ^ n \<le> 1" "1 \<le> (1 + u) ^ n" using unit by (simp_all add: power_le_one)
  then show ?thesis
    using assms mult_right_mono [of "(1 - u) ^ n" 1 x] mult_right_mono [of 1 "(1 + u) ^ n" x] by (simp add: rounded_def)
qed

lemma rounded_round:
  assumes "0 \<le> x" and "rounded u n x y"
  shows "rounded u (Suc n) x (rd y)"
proof -
  have y: "0 \<le> y" by (rule rounded_nonneg [OF assms])
  have e: "(1 - u) * y \<le> rd y" "rd y \<le> (1 + u) * y" using err [OF y] by (auto simp: abs_le_iff algebra_simps)
  have "(1 - u) * ((1 - u) ^ n * x) \<le> (1 - u) * y" "(1 + u) * y \<le> (1 + u) * ((1 + u) ^ n * x)"
    using assms(2) unit by (auto simp: rounded_def intro!: mult_left_mono)
  then show ?thesis using e by (simp add: rounded_def mult.assoc)
qed

lemma rounded_once: "0 \<le> x \<Longrightarrow> rounded u 1 x (rd x)"
  using rounded_round [of x 0 x] rounded_exact [of x 0] by simp

lemma rounded_add:
  "rounded u n x y \<Longrightarrow> rounded u n x' y' \<Longrightarrow> rounded u n (x + x') (y + y')"
  by (simp add: rounded_def distrib_left)

lemma rounded_mult:
  assumes "0 \<le> x" and "0 \<le> x'" and "rounded u n x y" and "rounded u m x' y'"
  shows "rounded u (n + m) (x * x') (y * y')"
proof -
  have "((1 - u) ^ n * x) * ((1 - u) ^ m * x') \<le> y * y'"
    using assms unit by (intro mult_mono) (auto simp: rounded_def intro: rounded_nonneg [unfolded rounded_def])
  moreover have "y * y' \<le> ((1 + u) ^ n * x) * ((1 + u) ^ m * x')"
    using assms unit rounded_nonneg [OF assms(1,3)] rounded_nonneg [OF assms(2,4)]
    by (intro mult_mono) (auto simp: rounded_def)
  ultimately show ?thesis by (simp add: rounded_def power_add mult.assoc mult.left_commute)
qed

lemma rounded_div: "0 < c \<Longrightarrow> rounded u n x y \<Longrightarrow> rounded u n (x / c) (y / c)"
  using divide_right_mono [of "(1 - u) ^ n * x" y c] divide_right_mono [of y "(1 + u) ^ n * x" c]
  by (simp add: rounded_def)

end

section \<open>Rounding to an integer\<close>

lemma round_even_bounds: "\<lfloor>x\<rfloor> \<le> round_even x" "round_even x \<le> \<lfloor>x\<rfloor> + 1"
  by (auto simp: round_even_def Let_def)

lemma round_even_mono:
  assumes "x \<le> y"
  shows "round_even x \<le> round_even y"
proof (cases "\<lfloor>x\<rfloor> = \<lfloor>y\<rfloor>")
  case True
  then show ?thesis using assms by (auto simp: round_even_def Let_def)
next
  case False
  then have "\<lfloor>x\<rfloor> + 1 \<le> \<lfloor>y\<rfloor>" using floor_mono [OF assms] by linarith
  then show ?thesis using round_even_bounds [of x] round_even_bounds [of y] by linarith
qed

lemma round_even_of_int: "round_even (of_int n) = n"
  by (simp add: round_even_def)

lemma round_even_err: "\<bar>of_int (round_even x) - x\<bar> \<le> 1 / 2"
proof -
  have "of_int \<lfloor>x\<rfloor> \<le> x" "x < of_int \<lfloor>x\<rfloor> + 1" by linarith+
  then show ?thesis by (auto simp: round_even_def Let_def abs_le_iff)
qed

section \<open>Exponents\<close>

lemma powi_2_less_iff [simp]: "(2 :: rat) powi i < 2 powi j \<longleftrightarrow> i < j"
  using power_int_strict_increasing [of i j "2 :: rat"] power_int_increasing [of j i "2 :: rat"] by force

lemma powi_2_le_iff [simp]: "(2 :: rat) powi i \<le> 2 powi j \<longleftrightarrow> i \<le> j"
  by (simp flip: not_less)

lemma bitlen_powi:
  assumes "0 < p"
  shows "2 powi (bitlen p - 1) \<le> (of_int p :: rat)" and "(of_int p :: rat) < 2 powi bitlen p"
proof -
  have b: "2 ^ nat (bitlen p - 1) \<le> p" "p < 2 ^ nat (bitlen p)" using bitlen_bounds [OF assms] by simp_all
  have "(of_int (2 ^ nat (bitlen p - 1)) :: rat) \<le> of_int p" "(of_int p :: rat) < of_int (2 ^ nat (bitlen p))"
    using b of_int_le_iff of_int_less_iff by blast+
  moreover have "1 \<le> bitlen p" using assms bitlen_eq_zero_iff [of p] bitlen_nonneg [of p] by linarith
  ultimately show "2 powi (bitlen p - 1) \<le> (of_int p :: rat)" "(of_int p :: rat) < 2 powi bitlen p"
    by (simp_all add: power_int_def)
qed

lemma exponent_bounds:
  assumes "0 < x"
  shows "2 powi (exponent x - 1) \<le> x" and "x < 2 powi exponent x"
proof -
  obtain p q where pq: "quotient_of x = (p, q)" by fastforce
  have q: "0 < q" using quotient_of_denom_pos [OF pq] .
  have x: "x = of_int p / of_int q" using quotient_of_div [OF pq] .
  then have p: "0 < p" using assms q by (simp add: zero_less_divide_iff)
  let ?e = "bitlen p - bitlen q"
  have "2 powi (bitlen p - 1) / 2 powi bitlen q \<le> x"
    unfolding x using bitlen_powi [OF p] bitlen_powi [OF q] p q by (intro frac_le) simp_all
  moreover have "bitlen p - 1 - bitlen q = ?e - 1" by simp
  ultimately have lo: "2 powi (?e - 1) \<le> x" by (metis power_int_diff zero_neq_numeral)
  have "x < 2 powi bitlen p / 2 powi (bitlen q - 1)"
    unfolding x using bitlen_powi [OF p] bitlen_powi [OF q] p q by (intro frac_less) simp_all
  moreover have "bitlen p - (bitlen q - 1) = ?e + 1" by simp
  ultimately have hi: "x < 2 powi (?e + 1)" by (metis power_int_diff zero_neq_numeral)
  show "2 powi (exponent x - 1) \<le> x" "x < 2 powi exponent x"
    using lo hi by (auto simp: exponent_def pq Let_def)
qed

lemma exponent_unique:
  assumes "2 powi (e - 1) \<le> x" and "x < 2 powi e"
  shows "exponent x = e"
proof -
  have x: "0 < x" using assms(1) less_le_trans [of 0 "2 powi (e - 1)" x] by simp
  have "2 powi (exponent x - 1) < (2 :: rat) powi e" "2 powi (e - 1) < (2 :: rat) powi exponent x"
    using exponent_bounds [OF x] assms by linarith+
  then show ?thesis by simp
qed

lemma exponent_mono:
  assumes "0 < x" and "x \<le> y"
  shows "exponent x \<le> exponent y"
proof -
  have "2 powi (exponent x - 1) < (2 :: rat) powi exponent y"
    using exponent_bounds(1) [OF assms(1)] exponent_bounds(2) [of y] assms by linarith
  then show ?thesis by simp
qed

section \<open>Rounding to 53 bits\<close>

text \<open>The significand before rounding lies in \<open>[2 ^ 52, 2 ^ 53)\<close>.\<close>

lemma scaled_bounds:
  assumes "0 < x"
  shows "2 ^ 52 \<le> x * 2 powi (53 - exponent x)" and "x * 2 powi (53 - exponent x) < 2 ^ 53"
proof -
  have e: "(2 :: rat) powi (exponent x - 1) * 2 powi (53 - exponent x) = 2 ^ 52"
    "(2 :: rat) powi exponent x * 2 powi (53 - exponent x) = 2 ^ 53"
    by (simp_all flip: power_int_add)
  show "2 ^ 52 \<le> x * 2 powi (53 - exponent x)"
    unfolding e(1) [symmetric] using exponent_bounds(1) [OF assms] by (intro mult_right_mono) simp_all
  show "x * 2 powi (53 - exponent x) < 2 ^ 53"
    unfolding e(2) [symmetric] using exponent_bounds(2) [OF assms] by (intro mult_strict_right_mono) simp_all
qed

lemma rnd_between:
  assumes "0 < x"
  shows "2 powi (exponent x - 1) \<le> rnd x" and "rnd x \<le> 2 powi exponent x"
proof -
  let ?k = "53 - exponent x"
  have "round_even (of_int (2 ^ 52)) \<le> round_even (x * 2 powi ?k)"
    "round_even (x * 2 powi ?k) \<le> round_even (of_int (2 ^ 53))"
    using scaled_bounds [OF assms] by (intro round_even_mono; simp)+
  then have "2 ^ 52 \<le> round_even (x * 2 powi ?k)" "round_even (x * 2 powi ?k) \<le> 2 ^ 53"
    unfolding round_even_of_int .
  then have r: "(of_int (2 ^ 52) :: rat) \<le> of_int (round_even (x * 2 powi ?k))"
    "(of_int (round_even (x * 2 powi ?k)) :: rat) \<le> of_int (2 ^ 53)"
    using of_int_le_iff by blast+
  have e: "(2 :: rat) powi (exponent x - 1) = of_int (2 ^ 52) * 2 powi (- ?k)"
    "(2 :: rat) powi exponent x = of_int (2 ^ 53) * 2 powi (- ?k)"
    using power_int_add [of "2 :: rat" 52 "- ?k"] power_int_add [of "2 :: rat" 53 "- ?k"] by simp_all
  show "2 powi (exponent x - 1) \<le> rnd x" "rnd x \<le> 2 powi exponent x"
    unfolding e using assms r by (simp_all add: rnd_def Let_def mult_right_mono)
qed

lemma rnd_mono:
  assumes "x \<le> y"
  shows "rnd x \<le> rnd y"
proof (cases "0 < x")
  case True
  show ?thesis
  proof (cases "exponent x = exponent y")
    case True
    have "round_even (x * 2 powi (53 - exponent x)) \<le> round_even (y * 2 powi (53 - exponent x))"
      using assms by (intro round_even_mono mult_right_mono) simp_all
    then show ?thesis using True assms \<open>0 < x\<close> by (simp add: rnd_def Let_def mult_right_mono)
  next
    case False
    then have "exponent x \<le> exponent y - 1" using exponent_mono [OF \<open>0 < x\<close> assms] by simp
    then have "2 powi exponent x \<le> (2 :: rat) powi (exponent y - 1)" by simp
    then show ?thesis using rnd_between(2) [OF True] rnd_between(1) [of y] True assms by linarith
  qed
next
  case False
  have "0 \<le> rnd y" using rnd_between(1) [of y] by (cases "0 < y") (auto simp: rnd_def intro: order_trans [rotated])
  then show ?thesis using False by (simp add: rnd_def)
qed

lemma rnd_error:
  assumes "0 \<le> x"
  shows "\<bar>rnd x - x\<bar> \<le> 1 / 2 ^ 53 * x"
proof (cases "x = 0")
  case False
  then have x: "0 < x" using assms by simp
  let ?k = "53 - exponent x"
  have "x = (x * 2 powi ?k) * 2 powi (- ?k)" by (simp flip: power_int_add mult.assoc add: mult.assoc)
  then have "rnd x - x = (of_int (round_even (x * 2 powi ?k)) - x * 2 powi ?k) * 2 powi (- ?k)"
    using x by (simp add: rnd_def Let_def left_diff_distrib)
  then have "\<bar>rnd x - x\<bar> = \<bar>of_int (round_even (x * 2 powi ?k)) - x * 2 powi ?k\<bar> * 2 powi (- ?k)"
    by (simp add: abs_mult)
  also have "\<dots> \<le> 1 / 2 * 2 powi (- ?k)" using round_even_err by (intro mult_right_mono) simp_all
  also have "\<dots> = 1 / 2 ^ 53 * 2 powi (exponent x - 1)"
    using power_int_add [of "2 :: rat" "- 53" "exponent x"] power_int_diff [of "2 :: rat" "exponent x" 1]
    by (simp add: power_int_minus field_simps)
  also have "\<dots> \<le> 1 / 2 ^ 53 * x" using exponent_bounds(1) [OF x] by (intro mult_left_mono) simp_all
  finally show ?thesis .
qed (simp add: rnd_def)

text \<open>Integers below \<open>2 ^ 53\<close> and powers of two are exact.\<close>

lemma rnd_powi: "rnd (2 powi j) = 2 powi j"
proof -
  have e: "exponent (2 powi j) = j + 1" by (rule exponent_unique) simp_all
  have "(2 :: rat) powi j * 2 powi (53 - (j + 1)) = of_int (2 ^ 52)" by (simp flip: power_int_add)
  then have r: "round_even (2 powi j * 2 powi (53 - (j + 1))) = 2 ^ 52" by (simp only: round_even_of_int)
  have "(2 :: rat) powi j = of_int (2 ^ 52) * 2 powi (- (53 - (j + 1)))"
    using power_int_add [of "2 :: rat" 52 "- (53 - (j + 1))"] by simp
  moreover have "\<not> (2 :: rat) powi j \<le> 0" by (simp add: not_le)
  ultimately show ?thesis unfolding rnd_def Let_def e r by simp
qed

lemma rnd_nat:
  assumes "n < 2 ^ 53"
  shows "rnd (of_nat n) = of_nat n"
proof (cases "n = 0")
  case False
  let ?x = "of_nat n :: rat" and ?k = "53 - exponent (of_nat n)"
  have x: "0 < ?x" using False by simp
  have "?x < of_nat (2 ^ 53)" using assms of_nat_less_iff by blast
  then have "2 powi (exponent ?x - 1) < (2 :: rat) powi 53" using exponent_bounds(1) [OF x] by simp
  then have k: "0 \<le> ?k" unfolding powi_2_less_iff by simp
  have "?x * 2 powi ?k = of_int (int n * 2 ^ nat ?k)" using k by (simp add: power_int_def)
  then have "of_int (round_even (?x * 2 powi ?k)) = ?x * 2 powi ?k" by (simp only: round_even_of_int)
  then have "rnd ?x = ?x * (2 powi ?k * 2 powi (- ?k))" using x by (simp add: rnd_def Let_def)
  then show ?thesis by (simp flip: power_int_add)
qed (simp add: rnd_def)

interpretation f64: rounding rnd "1 / 2 ^ 53"
proof
  show "rnd 1 = 1" using rnd_nat [of 1] by simp
  show "rnd 0 = 0" by (simp add: rnd_def)
  show "\<bar>rnd x - x\<bar> \<le> 1 / 2 ^ 53 * x" if "0 \<le> x" for x by (rule rnd_error [OF that])
qed (simp_all add: rnd_mono)

section \<open>Magnitudes\<close>

text \<open>Zero, or between \<open>1 / 2 ^ k\<close> and \<open>2 ^ k\<close>.\<close>

definition magnitude :: "nat \<Rightarrow> rat \<Rightarrow> bool" where
  "magnitude k x \<longleftrightarrow> x = 0 \<or> 1 / 2 ^ k \<le> x \<and> x \<le> 2 ^ k"

lemma magnitude_nonneg: "magnitude k x \<Longrightarrow> 0 \<le> x"
  by (auto simp: magnitude_def intro: order_trans [rotated])

lemma magnitude_weaken:
  assumes "magnitude k x" and "k \<le> j"
  shows "magnitude j x"
proof -
  have "(2 :: rat) ^ k \<le> 2 ^ j" using assms(2) by (intro power_increasing) simp_all
  moreover from this have "(1 :: rat) / 2 ^ j \<le> 1 / 2 ^ k" by (intro divide_left_mono) simp_all
  ultimately show ?thesis using assms(1) unfolding magnitude_def by linarith
qed

lemma magnitude_rnd:
  assumes "magnitude k x"
  shows "magnitude k (rnd x)"
proof -
  have "rnd (1 / 2 ^ k) = 1 / 2 ^ k" "rnd (2 ^ k) = 2 ^ k"
    using rnd_powi [of "- int k"] rnd_powi [of "int k"] by (simp_all add: power_int_minus inverse_eq_divide)
  then show ?thesis
    using assms rnd_mono [of "1 / 2 ^ k" x] rnd_mono [of x "2 ^ k"] f64.zero by (auto simp: magnitude_def)
qed

lemma magnitude_nat:
  assumes "n \<le> 2 ^ k"
  shows "magnitude k (of_nat n)"
proof -
  have "(of_nat n :: rat) \<le> of_nat (2 ^ k)" using assms of_nat_le_iff by blast
  then have "(of_nat n :: rat) \<le> 2 ^ k" by simp
  moreover have "1 / 2 ^ k \<le> (of_nat n :: rat)" if "n \<noteq> 0"
  proof -
    have "1 / 2 ^ k \<le> (1 :: rat)" "(1 :: rat) \<le> of_nat n" using that by (cases n; simp)+
    then show ?thesis by linarith
  qed
  ultimately show ?thesis unfolding magnitude_def by (cases "n = 0") simp_all
qed

lemma magnitude_mult:
  assumes "magnitude k x" and "magnitude j y"
  shows "magnitude (k + j) (x * y)"
proof (cases "x = 0 \<or> y = 0")
  case False
  then have b: "1 / 2 ^ k \<le> x" "x \<le> 2 ^ k" "1 / 2 ^ j \<le> y" "y \<le> 2 ^ j" using assms by (auto simp: magnitude_def)
  have "1 / 2 ^ k * (1 / 2 ^ j) \<le> x * y" using magnitude_nonneg [OF assms(1)] by (intro mult_mono b) simp_all
  moreover have "x * y \<le> 2 ^ k * 2 ^ j" using magnitude_nonneg [OF assms(2)] by (intro mult_mono b) simp_all
  ultimately show ?thesis by (simp add: magnitude_def power_add)
qed (auto simp: magnitude_def)

lemma magnitude_inverse:
  assumes "magnitude k x"
  shows "magnitude k (inverse x)"
proof (cases "x = 0")
  case False
  then have b: "1 / 2 ^ k \<le> x" "x \<le> 2 ^ k" using assms by (auto simp: magnitude_def)
  then have x: "0 < x" using False magnitude_nonneg [OF assms] by simp
  show ?thesis
    using le_imp_inverse_le [OF b(1)] le_imp_inverse_le [OF b(2) x] by (simp add: magnitude_def inverse_eq_divide)
qed (simp add: magnitude_def)

lemma magnitude_div: "magnitude k x \<Longrightarrow> magnitude j y \<Longrightarrow> magnitude (k + j) (x / y)"
  using magnitude_mult [of k x j "inverse y"] magnitude_inverse [of j y] by (simp add: divide_inverse)

lemma magnitude_add:
  assumes "magnitude k x" and "magnitude k y"
  shows "magnitude (Suc k) (x + y)"
proof -
  have n: "0 \<le> x" "0 \<le> y" using assms magnitude_nonneg by auto
  have "x \<le> 2 ^ k" "y \<le> 2 ^ k" using assms by (auto simp: magnitude_def)
  then have "x + y \<le> 2 ^ Suc k" by simp
  moreover have "1 / 2 ^ Suc k \<le> x + y" if "x + y \<noteq> 0"
  proof -
    have "(1 :: rat) / 2 ^ Suc k \<le> 1 / 2 ^ k" by (intro divide_left_mono) simp_all
    moreover have "1 / 2 ^ k \<le> x \<or> 1 / 2 ^ k \<le> y" using assms that by (auto simp: magnitude_def)
    ultimately show ?thesis using n by linarith
  qed
  ultimately show ?thesis unfolding magnitude_def by blast
qed

lemma magnitude_normal:
  assumes "magnitude k x" and "k \<le> 1000"
  shows "f64_normal x"
proof -
  have "(2 :: rat) powi (- 1022) \<le> 2 powi (- int k)" unfolding powi_2_le_iff using assms(2) by simp
  moreover have "(2 :: rat) powi int k < 2 powi 1024" unfolding powi_2_less_iff using assms(2) by simp
  moreover have "(2 :: rat) powi (- int k) = 1 / 2 ^ k" "(2 :: rat) powi int k = 2 ^ k"
    by (simp_all add: power_int_minus inverse_eq_divide)
  ultimately show ?thesis using assms(1) unfolding magnitude_def f64_normal_def by (metis le_less_trans order_trans)
qed

end
