(* ===== verification/Brutal_CC.thy ===== *)
theory Brutal_CC
  imports Rs_Float Client_Config
begin

text \<open>
  Congestion control, \<^verbatim>\<open>src/src/congestion.rs\<close>: the fixed-rate controller \<open>Brutal\<close>, its ring of
  per-second acknowledgement counts, and the controller that runs it beside BBR.

  An \<open>Instant\<close> is a number of nanoseconds. The target rate and the BBR flag are shared atomics:
  a controller holds the address of a cell of \<open>cells\<close>, which other holders write. The RTT
  estimator, the BBR controller and the empty default methods of the \<open>Controller\<close> trait belong
  to quinn and are parameters.
\<close>

section \<open>Brutal\<close>

type_synonym instant = nat
type_synonym i64 = "64 word"

record cells =
  rate_at :: "nat \<Rightarrow> u64"
  flag_at :: "nat \<Rightarrow> bool"
  next_cell :: nat

definition SLOT_COUNT :: nat where "SLOT_COUNT = 5"

definition MIN_SAMPLE_COUNT :: u64 where "MIN_SAMPLE_COUNT = 50"

definition MIN_ACK_RATE :: f64 where "MIN_ACK_RATE = rnd (8 / 10)"

record slot =
  ts :: i64
  ack :: u64
  loss :: u64

definition slot_default :: slot where "slot_default = \<lparr>ts = 0, ack = 0, loss = 0\<rparr>"

record brutal =
  rate :: nat
  mtu :: u64
  base :: instant
  srtt :: duration
  ack_rate :: f64
  slots :: "slot list"

text \<open>\<open>now\<close> is what \<open>Instant::now()\<close> returns.\<close>

definition brutal_new :: "instant \<Rightarrow> nat \<Rightarrow> u16 \<Rightarrow> brutal" where
  "brutal_new now r m =
     \<lparr>rate = r, mtu = ucast m, base = now, srtt = 0, ack_rate = 1,
      slots = replicate SLOT_COUNT slot_default\<rparr>"

text \<open>\<open>as_secs() as i64\<close>: the subtraction on instants saturates, the cast keeps the bits.\<close>

definition secs :: "brutal \<Rightarrow> instant \<Rightarrow> i64" where
  "secs self now = of_nat ((now - base self) div 1000000000)"

text \<open>\<open>a - b\<close> on \<open>i64\<close>.\<close>

definition sub_i64 :: "bool \<Rightarrow> i64 \<Rightarrow> i64 \<Rightarrow> i64 run" where
  "sub_i64 ovf a b = (if ovf \<and> sint a - sint b < - (2 ^ 63) then None else Some (a - b))"

fun sum_slots :: "bool \<Rightarrow> i64 \<Rightarrow> slot list \<Rightarrow> u64 \<Rightarrow> u64 \<Rightarrow> (u64 \<times> u64) run" where
  "sum_slots ovf min_ts [] acks losses = Some (acks, losses)"
| "sum_slots ovf min_ts (s # ss) acks losses =
     (if sint (ts s) < sint min_ts then sum_slots ovf min_ts ss acks losses
      else do {
        acks \<leftarrow> add_word ovf acks (ack s);
        losses \<leftarrow> add_word ovf losses (loss s);
        sum_slots ovf min_ts ss acks losses })"

definition update_ack_rate :: "bool \<Rightarrow> brutal \<Rightarrow> i64 \<Rightarrow> brutal run" where
  "update_ack_rate ovf self now_ts = do {
     min_ts \<leftarrow> sub_i64 ovf now_ts (of_nat SLOT_COUNT);
     (acks, losses) \<leftarrow> sum_slots ovf min_ts (slots self) 0 0;
     total \<leftarrow> add_word ovf acks losses;
     if total < MIN_SAMPLE_COUNT then Some (self\<lparr>ack_rate := 1\<rparr>)
     else do {
       let r = f64_div (f64_of_u64 acks) (f64_of_u64 total);
       Some (self\<lparr>ack_rate := max r MIN_ACK_RATE\<rparr>) } }"

definition record_sample :: "bool \<Rightarrow> brutal \<Rightarrow> instant \<Rightarrow> u64 \<Rightarrow> u64 \<Rightarrow> brutal run" where
  "record_sample ovf self now a l = do {
     let t = secs self now;
     let i = unat t mod SLOT_COUNT;
     s \<leftarrow> index (slots self) i;
     s \<leftarrow> (if ts s = t then do {
             x \<leftarrow> add_word ovf (ack s) a;
             y \<leftarrow> add_word ovf (loss s) l;
             Some (s\<lparr>ack := x, loss := y\<rparr>) }
           else Some \<lparr>ts = t, ack = a, loss = l\<rparr>);
     update_ack_rate ovf (self\<lparr>slots := (slots self)[i := s]\<rparr>) t }"

definition on_ack ::
    "('e \<Rightarrow> duration) \<Rightarrow> bool \<Rightarrow> brutal \<Rightarrow> instant \<Rightarrow> instant \<Rightarrow> u64 \<Rightarrow> bool \<Rightarrow> 'e \<Rightarrow> brutal run" where
  "on_ack rtt_get ovf self now sent bs app_limited rtt =
     record_sample ovf (self\<lparr>srtt := rtt_get rtt\<rparr>) now 1 0"

definition on_congestion_event ::
    "bool \<Rightarrow> brutal \<Rightarrow> instant \<Rightarrow> instant \<Rightarrow> bool \<Rightarrow> u64 \<Rightarrow> brutal run" where
  "on_congestion_event ovf self now sent persistent lost_bytes =
     (let lost_pkts = max (lost_bytes div max (mtu self) 1) 1
      in record_sample ovf self now 0 lost_pkts)"

definition on_mtu_update :: "brutal \<Rightarrow> u16 \<Rightarrow> brutal" where
  "on_mtu_update self new_mtu = self\<lparr>mtu := ucast new_mtu\<rparr>"

text \<open>\<open>Duration::as_secs_f64\<close>.\<close>

definition as_secs_f64 :: "duration \<Rightarrow> f64" where
  "as_secs_f64 d =
     f64_add (f64_of_u64 (of_nat (d div 1000000000)))
       (f64_div (rnd (of_nat (d mod 1000000000))) (rnd 1000000000))"

definition window :: "cells \<Rightarrow> brutal \<Rightarrow> u64" where
  "window cs self =
     (let flr = max (mtu self * 2) 10240 in
      if srtt self = 0 then flr
      else let bps = f64_of_u64 (rate_at cs (rate self));
               cwnd = f64_div (f64_mul bps (as_secs_f64 (srtt self))) (ack_rate self)
           in max (f64_to_u64 cwnd) flr)"

definition initial_window :: "brutal \<Rightarrow> u64" where
  "initial_window self = max (mtu self * 2) 10240"

text \<open>\<open>BrutalFactory::build\<close>.\<close>

definition brutal_build :: "nat \<Rightarrow> instant \<Rightarrow> u16 \<Rightarrow> brutal" where
  "brutal_build r now current_mtu = brutal_new now r current_mtu"

section \<open>Brutal beside BBR\<close>

record ('c, 'e) controller_ops =
  c_on_sent :: "'c \<Rightarrow> instant \<Rightarrow> u64 \<Rightarrow> u64 \<Rightarrow> 'c run"
  c_on_ack :: "'c \<Rightarrow> instant \<Rightarrow> instant \<Rightarrow> u64 \<Rightarrow> bool \<Rightarrow> 'e \<Rightarrow> 'c run"
  c_on_end_acks :: "'c \<Rightarrow> instant \<Rightarrow> u64 \<Rightarrow> bool \<Rightarrow> u64 option \<Rightarrow> 'c run"
  c_on_congestion_event :: "'c \<Rightarrow> instant \<Rightarrow> instant \<Rightarrow> bool \<Rightarrow> u64 \<Rightarrow> 'c run"
  c_on_mtu_update :: "'c \<Rightarrow> u16 \<Rightarrow> 'c run"
  c_window :: "'c \<Rightarrow> u64"
  c_initial_window :: "'c \<Rightarrow> u64"
  c_clone_box :: "'c \<Rightarrow> 'c"

text \<open>
  Brutal's implementation of the trait; \<open>dflt\<close> has the trait's default methods, which Brutal
  does not override.
\<close>

definition brutal_ops ::
    "('e \<Rightarrow> duration) \<Rightarrow> bool \<Rightarrow> cells \<Rightarrow> (brutal, 'e) controller_ops \<Rightarrow> (brutal, 'e) controller_ops" where
  "brutal_ops rtt_get ovf cs dflt =
     dflt\<lparr>c_on_ack := on_ack rtt_get ovf,
          c_on_congestion_event := on_congestion_event ovf,
          c_on_mtu_update := (\<lambda>self m. Some (on_mtu_update self m)),
          c_window := window cs,
          c_initial_window := initial_window,
          c_clone_box := (\<lambda>self. self)\<rparr>"

record 'b switchable =
  sw_brutal :: brutal
  sw_bbr :: 'b
  sw_use_bbr :: nat

definition bbr_active :: "cells \<Rightarrow> 'b switchable \<Rightarrow> bool" where
  "bbr_active cs self = flag_at cs (sw_use_bbr self)"

definition switchable_ops ::
    "cells \<Rightarrow> (brutal, 'e) controller_ops \<Rightarrow> ('b, 'e) controller_ops \<Rightarrow> ('b switchable, 'e) controller_ops" where
  "switchable_ops cs br bb =
     \<lparr>c_on_sent = (\<lambda>self now bs pn. do {
        x \<leftarrow> c_on_sent br (sw_brutal self) now bs pn;
        y \<leftarrow> c_on_sent bb (sw_bbr self) now bs pn;
        Some (self\<lparr>sw_brutal := x, sw_bbr := y\<rparr>) }),
      c_on_ack = (\<lambda>self now sent bs app rtt. do {
        x \<leftarrow> c_on_ack br (sw_brutal self) now sent bs app rtt;
        y \<leftarrow> c_on_ack bb (sw_bbr self) now sent bs app rtt;
        Some (self\<lparr>sw_brutal := x, sw_bbr := y\<rparr>) }),
      c_on_end_acks = (\<lambda>self now inflight app largest. do {
        x \<leftarrow> c_on_end_acks br (sw_brutal self) now inflight app largest;
        y \<leftarrow> c_on_end_acks bb (sw_bbr self) now inflight app largest;
        Some (self\<lparr>sw_brutal := x, sw_bbr := y\<rparr>) }),
      c_on_congestion_event = (\<lambda>self now sent pers lost. do {
        x \<leftarrow> c_on_congestion_event br (sw_brutal self) now sent pers lost;
        y \<leftarrow> c_on_congestion_event bb (sw_bbr self) now sent pers lost;
        Some (self\<lparr>sw_brutal := x, sw_bbr := y\<rparr>) }),
      c_on_mtu_update = (\<lambda>self m. do {
        x \<leftarrow> c_on_mtu_update br (sw_brutal self) m;
        y \<leftarrow> c_on_mtu_update bb (sw_bbr self) m;
        Some (self\<lparr>sw_brutal := x, sw_bbr := y\<rparr>) }),
      c_window = (\<lambda>self. if bbr_active cs self then c_window bb (sw_bbr self) else c_window br (sw_brutal self)),
      c_initial_window =
        (\<lambda>self. if bbr_active cs self then c_initial_window bb (sw_bbr self)
                else c_initial_window br (sw_brutal self)),
      c_clone_box = (\<lambda>self.
        \<lparr>sw_brutal = c_clone_box br (sw_brutal self), sw_bbr = c_clone_box bb (sw_bbr self),
         sw_use_bbr = sw_use_bbr self\<rparr>)\<rparr>"

text \<open>\<open>SwitchableFactory\<close>: the two cells; \<open>bbr_build\<close> is the factory of \<open>BbrConfig::default()\<close>.\<close>

record switchable_factory =
  sf_rate :: nat
  sf_use_bbr :: nat

definition switchable_build ::
    "(instant \<Rightarrow> u16 \<Rightarrow> 'b) \<Rightarrow> instant \<Rightarrow> switchable_factory \<Rightarrow> instant \<Rightarrow> u16 \<Rightarrow> 'b switchable" where
  "switchable_build bbr_build clock self now current_mtu =
     \<lparr>sw_brutal = brutal_new clock (sf_rate self) current_mtu, sw_bbr = bbr_build now current_mtu,
      sw_use_bbr = sf_use_bbr self\<rparr>"

section \<open>What the controller is about\<close>

text \<open>The events a controller receives, and running a controller over them.\<close>

datatype 'e cc_event =
    Sent instant u64 u64
  | Acked instant instant u64 bool 'e
  | EndAcks instant u64 bool "u64 option"
  | Congestion instant instant bool u64
  | Mtu u16

fun cc_step :: "('c, 'e) controller_ops \<Rightarrow> 'c \<Rightarrow> 'e cc_event \<Rightarrow> 'c run" where
  "cc_step ops c (Sent now bs pn) = c_on_sent ops c now bs pn"
| "cc_step ops c (Acked now sent bs app rtt) = c_on_ack ops c now sent bs app rtt"
| "cc_step ops c (EndAcks now inflight app largest) = c_on_end_acks ops c now inflight app largest"
| "cc_step ops c (Congestion now sent pers lost) = c_on_congestion_event ops c now sent pers lost"
| "cc_step ops c (Mtu m) = c_on_mtu_update ops c m"

fun cc_run :: "('c, 'e) controller_ops \<Rightarrow> 'c \<Rightarrow> 'e cc_event list \<Rightarrow> 'c run" where
  "cc_run ops c [] = Some c"
| "cc_run ops c (e # es) = do { c \<leftarrow> cc_step ops c e; cc_run ops c es }"

text \<open>The default methods of the trait, as documented: they do nothing.\<close>

definition empty_defaults :: "(brutal, 'e) controller_ops \<Rightarrow> bool" where
  "empty_defaults dflt \<longleftrightarrow>
     (\<forall>c now bs pn. c_on_sent dflt c now bs pn = Some c) \<and>
     (\<forall>c now inflight app largest. c_on_end_acks dflt c now inflight app largest = Some c)"

text \<open>
  The samples a run of events makes: the second, counted from the controller's start, the
  acknowledged and the lost packets.
\<close>

type_synonym sample = "nat \<times> nat \<times> nat"

fun samples :: "instant \<Rightarrow> u64 \<Rightarrow> 'e cc_event list \<Rightarrow> sample list" where
  "samples b m [] = []"
| "samples b m (Acked now sent bs app rtt # es) = ((now - b) div 1000000000, 1, 0) # samples b m es"
| "samples b m (Congestion now sent pers lost # es) =
     ((now - b) div 1000000000, 0, unat (max (lost div max m 1) 1)) # samples b m es"
| "samples b m (Mtu m' # es) = samples b (ucast m') es"
| "samples b m (e # es) = samples b m es"

definition sum_samples :: "(sample \<Rightarrow> bool) \<Rightarrow> (sample \<Rightarrow> nat) \<Rightarrow> sample list \<Rightarrow> nat" where
  "sum_samples P f h = sum_list (map f (filter P h))"

definition acked :: "sample \<Rightarrow> nat" where "acked = (\<lambda>(t, a, l). a)"
definition lost :: "sample \<Rightarrow> nat" where "lost = (\<lambda>(t, a, l). l)"

text \<open>The ack rate that a history of samples stands for: that of the last five seconds.\<close>

definition recent :: "nat \<Rightarrow> sample \<Rightarrow> bool" where
  "recent now = (\<lambda>(t, a, l). now < t + 5)"

definition rate_of :: "sample list \<Rightarrow> f64" where
  "rate_of h =
     (if h = [] then 1
      else let now = fst (last h);
               a = sum_samples (recent now) acked h;
               l = sum_samples (recent now) lost h
           in if a + l < 50 then 1 else max (rnd (rnd (of_nat a) / rnd (of_nat (a + l)))) (rnd (8 / 10)))"

section \<open>Sums of samples\<close>

lemma sum_samples_Nil [simp]: "sum_samples P f [] = 0"
  by (simp add: sum_samples_def)

lemma sum_samples_append [simp]: "sum_samples P f (h @ h') = sum_samples P f h + sum_samples P f h'"
  by (simp add: sum_samples_def)

lemma sum_samples_Cons [simp]: "sum_samples P f (x # h) = (if P x then f x else 0) + sum_samples P f h"
  by (simp add: sum_samples_def)

lemma sum_samples_le: "sum_samples P f h \<le> sum_samples (\<lambda>_. True) f h"
  by (induction h) auto

lemma sum_samples_cong:
  "(\<And>x. x \<in> set h \<Longrightarrow> P x \<longleftrightarrow> Q x) \<Longrightarrow> sum_samples P f h = sum_samples Q f h"
  by (induction h) auto

lemma sum_samples_partition:
  "(\<Sum>i = 0..<5. sum_samples (\<lambda>x. fst x mod 5 = i \<and> P x) f h) = sum_samples P f h"
proof (induction h)
  case (Cons x h)
  have "(\<Sum>i = 0..<5. if fst x mod 5 = i \<and> P x then f x else 0) = (if P x then f x else 0)"
    using sum.delta [of "{0..<5}" "fst x mod 5" "\<lambda>_. if P x then f x else 0"]
    by (auto simp: if_distrib cong: if_cong intro!: sum.cong)
  then show ?case using Cons by (simp add: sum.distrib)
qed simp

section \<open>The ring of slots\<close>

text \<open>
  Slot \<open>i\<close> holds the counts of the latest second congruent to \<open>i\<close> that has a sample. \<open>T\<close> is the
  latest second of all.
\<close>

definition slot_ok :: "nat \<Rightarrow> sample list \<Rightarrow> nat \<Rightarrow> slot \<Rightarrow> bool" where
  "slot_ok T h i s \<longleftrightarrow>
     unat (ts s) \<le> T \<and> (\<forall>x\<in>set h. fst x mod 5 = i \<longrightarrow> unat (ts s) mod 5 = i \<and> fst x \<le> unat (ts s)) \<and>
     unat (ack s) = sum_samples (\<lambda>x. fst x mod 5 = i \<and> fst x = unat (ts s)) acked h \<and>
     unat (loss s) = sum_samples (\<lambda>x. fst x mod 5 = i \<and> fst x = unat (ts s)) lost h"

definition ring_ok :: "nat \<Rightarrow> sample list \<Rightarrow> slot list \<Rightarrow> bool" where
  "ring_ok T h ss \<longleftrightarrow> length ss = 5 \<and> (\<forall>i < 5. slot_ok T h i (ss ! i))"

lemma ring_ok_new: "ring_ok T [] (replicate SLOT_COUNT slot_default)"
  by (simp add: ring_ok_def slot_ok_def slot_default_def SLOT_COUNT_def)

lemma slot_ok_other:
  assumes "slot_ok T h i s" and "T \<le> t" and "t mod 5 \<noteq> i"
  shows "slot_ok t (h @ [(t, a, l)]) i s"
  using assms by (auto simp: slot_ok_def)

lemma slot_ok_same:
  assumes "slot_ok T h (t mod 5) s" and "unat (ts s) = t" and "unat x = unat (ack s) + a" and "unat y = unat (loss s) + l"
  shows "slot_ok t (h @ [(t, a, l)]) (t mod 5) (s\<lparr>ack := x, loss := y\<rparr>)"
  using assms by (auto simp: slot_ok_def acked_def lost_def)

lemma slot_ok_fresh:
  assumes "slot_ok T h (t mod 5) s" and "unat (ts s) \<noteq> t" and "T \<le> t" and "unat w = t" and "unat x = a" and "unat y = l"
  shows "slot_ok t (h @ [(t, a, l)]) (t mod 5) \<lparr>ts = w, ack = x, loss = y\<rparr>"
proof -
  have "z \<in> set h \<Longrightarrow> fst z mod 5 = t mod 5 \<Longrightarrow> fst z \<le> t \<and> fst z \<noteq> t" for z
    using assms(1-3) unfolding slot_ok_def by fastforce
  then have "sum_samples (\<lambda>x. fst x mod 5 = t mod 5 \<and> fst x = t) f h = sum_samples (\<lambda>_. False) f h" for f
    by (intro sum_samples_cong) blast
  moreover have "sum_samples (\<lambda>_. False) f h = 0" for f by (simp add: sum_samples_def)
  moreover have "\<forall>z\<in>set h. fst z mod 5 = t mod 5 \<longrightarrow> fst z \<le> t"
    using assms(1,3) unfolding slot_ok_def by fastforce
  ultimately show ?thesis using assms(4-6) by (auto simp: slot_ok_def acked_def lost_def)
qed

lemma ring_ok_update:
  assumes "ring_ok T h ss" and "T \<le> t" and "slot_ok t (h @ [(t, a, l)]) (t mod 5) s"
  shows "ring_ok t (h @ [(t, a, l)]) (ss[t mod 5 := s])"
  using assms slot_ok_other [of T h _ _ t a l] by (auto simp: ring_ok_def nth_list_update)

lemma residue_unique: "a \<le> b \<Longrightarrow> b < a + 5 \<Longrightarrow> a mod 5 = b mod 5 \<Longrightarrow> a = (b :: nat)"
  using mod_eq_dvd_iff_nat [of a b 5] dvd_imp_le [of 5 "b - a"] by (cases "b - a = 0") simp_all

text \<open>What the kept slots add up to: the samples of the last five seconds.\<close>

lemma slot_window:
  assumes "slot_ok T h i s" and "i = T mod 5 \<longrightarrow> unat (ts s) = T" and "f = acked \<and> n = unat (ack s) \<or> f = lost \<and> n = unat (loss s)"
  shows "(if T \<le> unat (ts s) + 5 then n else 0) = sum_samples (\<lambda>x. fst x mod 5 = i \<and> recent T x) f h"
proof -
  have n: "n = sum_samples (\<lambda>x. fst x mod 5 = i \<and> fst x = unat (ts s)) f h" using assms(1,3) by (auto simp: slot_ok_def)
  have key: "fst x = unat (ts s) \<and> T \<le> unat (ts s) + 5 \<longleftrightarrow> recent T x" if x: "x \<in> set h" "fst x mod 5 = i" for x
  proof -
    have b: "unat (ts s) mod 5 = i" "fst x \<le> unat (ts s)" "unat (ts s) \<le> T" using assms(1) x by (auto simp: slot_ok_def)
    have "unat (ts s) + 5 \<noteq> T" using assms(2) b(1) by (metis add_cancel_right_right mod_add_self2 zero_neq_numeral)
    moreover have "fst x = unat (ts s)" if "T < fst x + 5"
      by (rule residue_unique) (use b x(2) that in simp_all)
    ultimately show ?thesis using b by (auto simp: recent_def split: prod.splits)
  qed
  show ?thesis
  proof (cases "T \<le> unat (ts s) + 5")
    case True
    then show ?thesis unfolding n using key by (simp, intro sum_samples_cong) blast
  next
    case False
    then have "sum_samples (\<lambda>x. fst x mod 5 = i \<and> recent T x) f h = sum_samples (\<lambda>_. False) f h"
      using key by (intro sum_samples_cong) blast
    then show ?thesis using False by (simp add: sum_samples_def)
  qed
qed

lemma ring_window:
  assumes "ring_ok T h ss" and "unat (ts (ss ! (T mod 5))) = T"
    and "f = acked \<and> g = ack \<or> f = lost \<and> g = loss"
  shows "sum_list (map (\<lambda>s. if T \<le> unat (ts s) + 5 then unat (g s) else 0) ss) = sum_samples (recent T) f h"
proof -
  have "sum_list (map (\<lambda>s. if T \<le> unat (ts s) + 5 then unat (g s) else 0) ss) =
      (\<Sum>i = 0..<5. if T \<le> unat (ts (ss ! i)) + 5 then unat (g (ss ! i)) else 0)"
    using assms(1) by (simp add: ring_ok_def sum_list_sum_nth)
  also have "\<dots> = (\<Sum>i = 0..<5. sum_samples (\<lambda>x. fst x mod 5 = i \<and> recent T x) f h)"
    using assms by (intro sum.cong refl slot_window) (auto simp: ring_ok_def)
  finally show ?thesis by (simp add: sum_samples_partition)
qed

lemma sum_slots_eq:
  assumes "\<And>s. s \<in> set ss \<Longrightarrow> sint (ts s) < sint m \<longleftrightarrow> \<not> keep s"
    and "unat A + sum_list (map (\<lambda>s. if keep s then unat (ack s) else 0) ss) < 2 ^ 64"
    and "unat L + sum_list (map (\<lambda>s. if keep s then unat (loss s) else 0) ss) < 2 ^ 64"
  shows "\<exists>A' L'. sum_slots ovf m ss A L = Some (A', L') \<and>
    unat A' = unat A + sum_list (map (\<lambda>s. if keep s then unat (ack s) else 0) ss) \<and>
    unat L' = unat L + sum_list (map (\<lambda>s. if keep s then unat (loss s) else 0) ss)"
  using assms
proof (induction ss arbitrary: A L)
  case (Cons s ss)
  show ?case
  proof (cases "keep s")
    case True
    have a: "unat A + unat (ack s) < 2 ^ 64" "unat L + unat (loss s) < 2 ^ 64" using Cons.prems True by simp_all
    then have "add_word ovf A (ack s) = Some (A + ack s)" "add_word ovf L (loss s) = Some (L + loss s)"
      "unat (A + ack s) = unat A + unat (ack s)" "unat (L + loss s) = unat L + unat (loss s)"
      by (simp_all add: add_word_no_overflow unat_add_lem [THEN iffD1])
    then show ?thesis using Cons.IH [of "A + ack s" "L + loss s"] Cons.prems True by (simp add: add.assoc)
  qed (use Cons in simp)
qed simp

lemma sint_word_of_int:
  "- (2 ^ 63) \<le> i \<Longrightarrow> i < 2 ^ 63 \<Longrightarrow> sint (word_of_int i :: i64) = i"
  by (simp add: sint_uint uint_word_of_int_eq signed_take_bit_take_bit signed_take_bit_int_eq_self)

lemma sint_small: "unat (w :: i64) < 2 ^ 63 \<Longrightarrow> sint w = int (unat w)"
proof -
  assume "unat w < 2 ^ 63"
  then have "int (unat w) < int (2 ^ 63)" by (simp only: of_nat_less_iff)
  then have "uint w < 2 ^ 63" by simp
  moreover have "- (2 ^ 63) \<le> uint w" by (rule order_trans [OF _ uint_ge_0]) simp
  ultimately show ?thesis using sint_word_of_int [of "uint w"] by simp
qed

lemma min_ts_eq:
  assumes "T < 2 ^ 63"
  shows "sub_i64 ovf (of_nat T) (of_nat SLOT_COUNT) = Some (word_of_int (int T - 5))"
    and "sint (word_of_int (int T - 5) :: i64) = int T - 5"
proof -
  have w: "(of_nat T :: i64) - 5 = word_of_int (int T - 5)" by simp
  have "unat (of_nat T :: i64) = T" using assms by (simp add: unsigned_of_nat take_bit_nat_eq_self)
  then have "sint (of_nat T :: i64) = int T" using sint_small [of "of_nat T"] assms by simp
  moreover have "sint (5 :: i64) = 5" by simp
  ultimately have "\<not> sint (of_nat T :: i64) - sint (5 :: i64) < - (2 ^ 63)" by simp
  then show "sub_i64 ovf (of_nat T) (of_nat SLOT_COUNT) = Some (word_of_int (int T - 5))"
    unfolding sub_i64_def SLOT_COUNT_def of_nat_numeral w by (simp only: if_False simp_thms)
  show "sint (word_of_int (int T - 5) :: i64) = int T - 5" using assms by (intro sint_word_of_int) simp_all
qed

lemma update_ack_rate_ring:
  assumes "ring_ok T h (slots self)" and "unat (ts (slots self ! (T mod 5))) = T" and "T < 2 ^ 63"
    and "sum_samples (\<lambda>_. True) acked h + sum_samples (\<lambda>_. True) lost h < 2 ^ 64"
    and "h \<noteq> []" and "fst (last h) = T"
  shows "update_ack_rate ovf self (of_nat T) = Some (self\<lparr>ack_rate := rate_of h\<rparr>)"
proof -
  let ?m = "word_of_int (int T - 5) :: i64" and ?keep = "\<lambda>s. T \<le> unat (ts s) + 5"
  let ?a = "sum_samples (recent T) acked h" and ?l = "sum_samples (recent T) lost h"
  note sums = ring_window [OF assms(1,2), of acked ack] ring_window [OF assms(1,2), of lost loss]
  have "sint (ts s) < sint ?m \<longleftrightarrow> \<not> ?keep s" if "s \<in> set (slots self)" for s
  proof -
    have "unat (ts s) \<le> T" using assms(1) that by (auto simp: ring_ok_def slot_ok_def in_set_conv_nth)
    then have "sint (ts s) = int (unat (ts s))" using assms(3) by (intro sint_small) simp
    then show ?thesis using min_ts_eq(2) [OF assms(3)] by linarith
  qed
  moreover have b: "?a + ?l < 2 ^ 64"
    using assms(4) sum_samples_le [of "recent T" acked h] sum_samples_le [of "recent T" lost h] by linarith
  ultimately obtain A L where al: "sum_slots ovf ?m (slots self) 0 0 = Some (A, L)" "unat A = ?a" "unat L = ?l"
    using sum_slots_eq [of "slots self" ?m ?keep 0 0 ovf] sums by auto
  then have t: "add_word ovf A L = Some (A + L)" "unat (A + L) = ?a + ?l"
    using b by (simp_all add: add_word_no_overflow unat_add_lem [THEN iffD1])
  have lt: "A + L < MIN_SAMPLE_COUNT \<longleftrightarrow> ?a + ?l < 50"
    by (simp add: word_less_nat_alt t(2) MIN_SAMPLE_COUNT_def)
  show ?thesis
    using min_ts_eq(1) [OF assms(3), of ovf] al t lt assms(5,6)
    by (simp add: update_ack_rate_def rate_of_def Let_def f64_div_def f64_of_u64_def MIN_ACK_RATE_def)
qed

lemma record_sample_ring:
  assumes "ring_ok T h (slots self)" and "T \<le> t" and "t < 2 ^ 63" and "t = (now - base self) div 1000000000"
    and "sum_samples (\<lambda>_. True) acked (h @ [(t, unat a, unat l)]) + sum_samples (\<lambda>_. True) lost (h @ [(t, unat a, unat l)]) < 2 ^ 64"
  shows "\<exists>ss. record_sample ovf self now a l =
      Some (self\<lparr>slots := ss, ack_rate := rate_of (h @ [(t, unat a, unat l)])\<rparr>) \<and>
    ring_ok t (h @ [(t, unat a, unat l)]) ss"
proof -
  let ?w = "of_nat t :: i64" and ?i = "t mod 5" and ?h = "h @ [(t, unat a, unat l)]"
  let ?s = "slots self ! (t mod 5)"
  have w: "unat ?w = t" using assms(3) by (simp add: unsigned_of_nat take_bit_nat_eq_self)
  have sec: "secs self now = ?w" by (simp add: secs_def assms(4))
  have len: "length (slots self) = 5" and s: "slot_ok T h ?i ?s" using assms(1) by (simp_all add: ring_ok_def)
  have bound: "unat (ack ?s) + unat a < 2 ^ 64" "unat (loss ?s) + unat l < 2 ^ 64"
    using s assms(5) sum_samples_le [of "\<lambda>x. fst x mod 5 = ?i \<and> fst x = unat (ts ?s)" acked h]
      sum_samples_le [of "\<lambda>x. fst x mod 5 = ?i \<and> fst x = unat (ts ?s)" lost h]
    by (simp_all add: slot_ok_def acked_def lost_def)
  define s' where "s' = (if ts ?s = ?w then ?s\<lparr>ack := ack ?s + a, loss := loss ?s + l\<rparr>
    else \<lparr>ts = ?w, ack = a, loss = l\<rparr>)"
  have ts': "unat (ts s') = t" using w by (auto simp: s'_def)
  have "slot_ok t ?h ?i s'"
  proof (cases "ts ?s = ?w")
    case True
    then show ?thesis
      unfolding s'_def using slot_ok_same [OF s, of "ack ?s + a" "unat a" "loss ?s + l" "unat l"] w bound
      by (simp add: unat_add_lem [THEN iffD1])
  next
    case False
    then have "unat (ts ?s) \<noteq> t" using w by (metis word_unat_eq_iff)
    then show ?thesis unfolding s'_def using slot_ok_fresh [OF s _ assms(2) w refl refl] False by simp
  qed
  then have r: "ring_ok t ?h (slots (self\<lparr>slots := (slots self)[?i := s']\<rparr>))"
    using ring_ok_update [OF assms(1,2)] by simp
  have "record_sample ovf self now a l = update_ack_rate ovf (self\<lparr>slots := (slots self)[?i := s']\<rparr>) ?w"
    using bound len by (simp add: record_sample_def Let_def sec w SLOT_COUNT_def s'_def add_word_no_overflow)
  also have "\<dots> = Some (self\<lparr>slots := (slots self)[?i := s'], ack_rate := rate_of ?h\<rparr>)"
    using update_ack_rate_ring [OF r, of ovf] ts' len assms(3,5) by simp
  finally show ?thesis using r by auto
qed

section \<open>Runs\<close>

text \<open>What stays true after the samples \<open>h\<close> when the samples \<open>rest\<close> are still to come.\<close>

definition tracks :: "sample list \<Rightarrow> sample list \<Rightarrow> brutal \<Rightarrow> bool" where
  "tracks h rest self \<longleftrightarrow>
     (\<exists>T. ring_ok T h (slots self) \<and> sorted (T # map fst rest)) \<and> ack_rate self = rate_of h \<and>
     (\<forall>x\<in>set rest. fst x < 2 ^ 63) \<and>
     sum_samples (\<lambda>_. True) acked (h @ rest) + sum_samples (\<lambda>_. True) lost (h @ rest) < 2 ^ 64"

lemma tracks_record:
  assumes "tracks h (((now - base self) div 1000000000, unat a, unat l) # rest) self0"
    and "slots self = slots self0"
  shows "\<exists>self'. record_sample ovf self now a l = Some self' \<and> base self' = base self \<and> mtu self' = mtu self \<and>
    srtt self' = srtt self \<and> rate self' = rate self \<and>
    tracks (h @ [((now - base self) div 1000000000, unat a, unat l)]) rest self'"
proof -
  let ?t = "(now - base self) div 1000000000"
  let ?h = "h @ [(?t, unat a, unat l)]"
  obtain T where T: "ring_ok T h (slots self)" "T \<le> ?t" "sorted (?t # map fst rest)"
    using assms by (auto simp: tracks_def)
  have t: "?t < 2 ^ 63" using assms(1) by (simp add: tracks_def)
  have total: "sum_samples (\<lambda>_. True) acked (?h @ rest) + sum_samples (\<lambda>_. True) lost (?h @ rest) < 2 ^ 64"
    using assms(1) unfolding tracks_def by simp
  then have "sum_samples (\<lambda>_. True) acked ?h + sum_samples (\<lambda>_. True) lost ?h < 2 ^ 64"
    unfolding sum_samples_append [of _ _ ?h] by linarith
  from record_sample_ring [OF T(1,2) t refl this, of ovf] obtain ss where
    ss: "record_sample ovf self now a l = Some (self\<lparr>slots := ss, ack_rate := rate_of ?h\<rparr>)" "ring_ok ?t ?h ss" by blast
  have "tracks ?h rest (self\<lparr>slots := ss, ack_rate := rate_of ?h\<rparr>)"
    unfolding tracks_def using ss(2) T(3) total assms(1) by (auto simp: tracks_def)
  then show ?thesis using ss(1) by simp
qed

lemma brutal_step:
  assumes "empty_defaults dflt" and "tracks h (samples (base self) (mtu self) (e # es)) self"
  shows "\<exists>self' p. cc_step (brutal_ops rtt_get ovf cs dflt) self e = Some self' \<and> base self' = base self \<and>
    samples (base self) (mtu self) (e # es) = p @ samples (base self) (mtu self') es \<and>
    tracks (h @ p) (samples (base self) (mtu self') es) self'"
proof (cases e)
  case (Acked now sent bs app rtt)
  have "tracks h (((now - base (self\<lparr>srtt := rtt_get rtt\<rparr>)) div 1000000000, unat (1 :: u64), unat (0 :: u64)) #
      samples (base self) (mtu self) es) self" using assms(2) Acked by simp
  from tracks_record [OF this, of ovf] Acked show ?thesis by (force simp: brutal_ops_def on_ack_def)
next
  case (Congestion now sent pers lst)
  define l where "l = max (lst div max (mtu self) 1) 1"
  have "tracks h (((now - base self) div 1000000000, unat (0 :: u64), unat l) # samples (base self) (mtu self) es) self"
    using assms(2) Congestion by (simp add: l_def)
  from tracks_record [OF this refl, of ovf] obtain self' where
    "record_sample ovf self now 0 l = Some self'" "base self' = base self" "mtu self' = mtu self"
    "tracks (h @ [((now - base self) div 1000000000, 0, unat l)]) (samples (base self) (mtu self) es) self'" by auto
  then show ?thesis
    using Congestion by (intro exI [of _ self'] exI [of _ "[((now - base self) div 1000000000, 0, unat l)]"])
      (simp add: brutal_ops_def on_congestion_event_def Let_def flip: l_def)
next
  case (Mtu m)
  then show ?thesis
    using assms by (intro exI [of _ "on_mtu_update self m"] exI [of _ "[]"])
      (simp add: brutal_ops_def on_mtu_update_def tracks_def)
next
  case (Sent now bs pn)
  then show ?thesis
    using assms by (intro exI [of _ self] exI [of _ "[]"]) (simp add: brutal_ops_def empty_defaults_def)
next
  case (EndAcks now inflight app largest)
  then show ?thesis
    using assms by (intro exI [of _ self] exI [of _ "[]"]) (simp add: brutal_ops_def empty_defaults_def)
qed

lemma brutal_run_tracks:
  assumes "empty_defaults dflt" and "tracks h (samples (base self) (mtu self) es) self"
  shows "\<exists>self'. cc_run (brutal_ops rtt_get ovf cs dflt) self es = Some self' \<and>
    tracks (h @ samples (base self) (mtu self) es) [] self'"
  using assms(2)
proof (induction es arbitrary: self h)
  case (Cons e es)
  from brutal_step [OF assms(1) Cons.prems, of rtt_get ovf cs] obtain self' p where
    s: "cc_step (brutal_ops rtt_get ovf cs dflt) self e = Some self'" "base self' = base self"
    "samples (base self) (mtu self) (e # es) = p @ samples (base self) (mtu self') es"
    "tracks (h @ p) (samples (base self) (mtu self') es) self'" by blast
  from Cons.IH [of "h @ p" self'] s show ?case by auto
qed (simp add: tracks_def)

section \<open>The range of the ack rate\<close>

lemma MIN_ACK_RATE_bounds: "4 / 5 \<le> MIN_ACK_RATE" "MIN_ACK_RATE \<le> 1"
  by (code_simp, code_simp)

lemma add_word_checked:
  fixes a b :: "'a::len word"
  assumes "add_word True a b = Some c"
  shows "unat c = unat a + unat b"
  using assms by (auto simp: add_word_def unat_add_lem [THEN iffD1] split: if_splits)

definition ratio :: "nat \<Rightarrow> nat \<Rightarrow> f64" where
  "ratio a l = (if a + l < 50 then 1 else max (rnd (rnd (of_nat a) / rnd (of_nat (a + l)))) MIN_ACK_RATE)"

lemma ratio_range: "4 / 5 \<le> ratio a l" "ratio a l \<le> 1"
proof -
  have "rnd (rnd (of_nat a) / rnd (of_nat (a + l))) \<le> 1"
    by (rule f64.quotient_le_one) (simp_all add: f64.nonneg rnd_mono)
  then show "4 / 5 \<le> ratio a l" "ratio a l \<le> 1" using MIN_ACK_RATE_bounds by (auto simp: ratio_def)
qed

lemma ratio_antimono:
  assumes "l \<le> l'"
  shows "ratio a l' \<le> ratio a l"
proof (cases "a + l < 50")
  case True
  then show ?thesis using ratio_range(2) [of a l'] by (simp add: ratio_def)
next
  case False
  have p: "0 < rnd (of_nat (a + l))" using rnd_mono [of 1 "of_nat (a + l)"] False f64.one by simp
  have le: "rnd (of_nat (a + l)) \<le> rnd (of_nat (a + l'))" using assms by (intro rnd_mono) simp
  then have "0 < rnd (of_nat (a + l')) * rnd (of_nat (a + l))" using p by (intro mult_pos_pos) linarith+
  with le have "rnd (rnd (of_nat a) / rnd (of_nat (a + l'))) \<le> rnd (rnd (of_nat a) / rnd (of_nat (a + l)))"
    by (intro rnd_mono [OF divide_left_mono]) (simp_all add: f64.nonneg)
  then show ?thesis using False assms by (simp add: ratio_def max.coboundedI1)
qed

text \<open>With overflow checks the counters are the exact sums over the kept slots.\<close>

definition kept :: "i64 \<Rightarrow> (slot \<Rightarrow> u64) \<Rightarrow> slot list \<Rightarrow> nat" where
  "kept m g ss = sum_list (map (\<lambda>s. if sint (ts s) < sint m then 0 else unat (g s)) ss)"

lemma sum_slots_checked:
  "sum_slots True m ss A L = Some (A', L') \<Longrightarrow> unat A' = unat A + kept m ack ss \<and> unat L' = unat L + kept m loss ss"
proof (induction ss arbitrary: A L)
  case (Cons s ss)
  show ?case
  proof (cases "sint (ts s) < sint m")
    case True
    then show ?thesis using Cons by (simp add: kept_def)
  next
    case False
    then obtain x y where "add_word True A (ack s) = Some x" "add_word True L (loss s) = Some y"
      "sum_slots True m ss x y = Some (A', L')" using Cons.prems by (auto split: Option.bind_splits)
    then show ?thesis
      using Cons.IH [of x y] add_word_checked [of A "ack s" x] add_word_checked [of L "loss s" y] False
      by (simp add: kept_def)
  qed
qed (simp add: kept_def)

lemma update_ack_rate_checked:
  assumes "update_ack_rate True self t = Some self'"
  shows "\<exists>m. sub_i64 True t (of_nat SLOT_COUNT) = Some m \<and>
    self' = self\<lparr>ack_rate := ratio (kept m ack (slots self)) (kept m loss (slots self))\<rparr>"
proof -
  from assms obtain m A L total where m: "sub_i64 True t (of_nat SLOT_COUNT) = Some m"
    "sum_slots True m (slots self) 0 0 = Some (A, L)" "add_word True A L = Some total"
    by (auto simp: update_ack_rate_def split: Option.bind_splits)
  have u: "unat total = unat A + unat L" "unat A = kept m ack (slots self)" "unat L = kept m loss (slots self)"
    using add_word_checked [OF m(3)] sum_slots_checked [OF m(2)] by simp_all
  have "total < MIN_SAMPLE_COUNT \<longleftrightarrow> unat A + unat L < 50"
    by (simp add: word_less_nat_alt u(1) MIN_SAMPLE_COUNT_def)
  then have "self' = self\<lparr>ack_rate := ratio (unat A) (unat L)\<rparr>"
    using assms m u(1) by (simp add: update_ack_rate_def ratio_def f64_div_def f64_of_u64_def Let_def split: if_splits)
  then show ?thesis using m(1) u by auto
qed

definition brutal_ok :: "brutal \<Rightarrow> bool" where
  "brutal_ok c \<longleftrightarrow> 4 / 5 \<le> ack_rate c \<and> ack_rate c \<le> 1 \<and> unat (mtu c) < 2 ^ 16 \<and> length (slots c) = 5"

lemma record_sample_checked:
  assumes "record_sample True self now a l = Some self'"
  shows "\<exists>m s. sub_i64 True (secs self now) (of_nat SLOT_COUNT) = Some m \<and>
    slots self' = (slots self)[unat (secs self now) mod 5 := s] \<and> ts s = secs self now \<and>
    (ts (slots self ! (unat (secs self now) mod 5)) = secs self now \<longrightarrow>
       unat (ack s) = unat (ack (slots self ! (unat (secs self now) mod 5))) + unat a \<and>
       unat (loss s) = unat (loss (slots self ! (unat (secs self now) mod 5))) + unat l) \<and>
    self' = self\<lparr>slots := slots self', ack_rate := ratio (kept m ack (slots self')) (kept m loss (slots self'))\<rparr>"
proof -
  let ?t = "secs self now" and ?i = "unat (secs self now) mod 5"
  from assms obtain s where s: "update_ack_rate True (self\<lparr>slots := (slots self)[?i := s]\<rparr>) ?t = Some self'"
    "ts s = ?t" "ts (slots self ! ?i) = ?t \<longrightarrow> add_word True (ack (slots self ! ?i)) a = Some (ack s) \<and>
      add_word True (loss (slots self ! ?i)) l = Some (loss s)"
    by (auto simp: record_sample_def Let_def SLOT_COUNT_def index_def split: Option.bind_splits if_splits)
  from update_ack_rate_checked [OF s(1)] obtain m where "sub_i64 True ?t (of_nat SLOT_COUNT) = Some m"
    "self' = self\<lparr>slots := (slots self)[?i := s],
       ack_rate := ratio (kept m ack ((slots self)[?i := s])) (kept m loss ((slots self)[?i := s]))\<rparr>" by auto
  then show ?thesis using s(2,3) add_word_checked by (intro exI [of _ m] exI [of _ s]) auto
qed

lemma brutal_ok_record: "record_sample True self now a l = Some self' \<Longrightarrow> brutal_ok self \<Longrightarrow>
    brutal_ok self' \<and> rate self' = rate self"
  using record_sample_checked [of self now a l self'] ratio_range
  by (auto simp: brutal_ok_def)

lemma mtu_small: "unat (ucast (m :: u16) :: u64) < 2 ^ 16"
proof -
  have "unat m < 2 ^ LENGTH(16)" by (rule unsigned_less)
  then have "unat m < 2 ^ 16" by simp
  then show ?thesis unfolding unsigned_ucast_eq by (rule le_less_trans [OF take_bit_nat_less_eq_self])
qed

lemma brutal_ok_step:
  assumes "empty_defaults dflt" and "brutal_ok self" and "cc_step (brutal_ops rtt_get True cs dflt) self e = Some self'"
  shows "brutal_ok self' \<and> rate self' = rate self"
proof (cases e)
  case (Acked now sent bs app rtt)
  then have "record_sample True (self\<lparr>srtt := rtt_get rtt\<rparr>) now 1 0 = Some self'"
    using assms(3) by (simp add: brutal_ops_def on_ack_def)
  from brutal_ok_record [OF this] assms(2) show ?thesis by (simp add: brutal_ok_def)
next
  case (Congestion now sent pers lst)
  then have "record_sample True self now 0 (max (lst div max (mtu self) 1) 1) = Some self'"
    using assms(3) by (simp add: brutal_ops_def on_congestion_event_def)
  from brutal_ok_record [OF this assms(2)] show ?thesis .
next
  case (Mtu m)
  then show ?thesis using assms(2,3) mtu_small [of m] by (auto simp: brutal_ops_def brutal_ok_def on_mtu_update_def)
qed (use assms in \<open>simp_all add: brutal_ops_def empty_defaults_def\<close>)

lemma brutal_ok_run:
  assumes "empty_defaults dflt" and "brutal_ok self" and "cc_run (brutal_ops rtt_get True cs dflt) self es = Some c"
  shows "brutal_ok c \<and> rate c = rate self"
  using assms(2,3)
proof (induction es arbitrary: self)
  case (Cons e es)
  then obtain s1 where s1: "cc_step (brutal_ops rtt_get True cs dflt) self e = Some s1"
    "cc_run (brutal_ops rtt_get True cs dflt) s1 es = Some c" by (auto split: Option.bind_splits)
  then show ?case using brutal_ok_step [OF assms(1) Cons.prems(1) s1(1)] Cons.IH by auto
qed simp

lemma brutal_ok_new: "brutal_ok (brutal_new now r m)"
  using mtu_small [of m] by (simp add: brutal_ok_def brutal_new_def SLOT_COUNT_def)

section \<open>The window\<close>

lemma unat_max: "unat (max a b) = max (unat a) (unat b)"
  by (simp add: max_def word_le_nat_alt)

lemma f64_to_u64_value: "unat (f64_to_u64 x) = min (nat \<lfloor>x\<rfloor>) (2 ^ 64 - 1)"
proof -
  have "min (nat \<lfloor>x\<rfloor>) (2 ^ 64 - 1) < 2 ^ 64" by (simp add: min.strict_coboundedI2)
  then show ?thesis by (simp only: f64_to_u64_def unsigned_of_nat) (simp add: take_bit_nat_eq_self)
qed

lemma floor_window:
  assumes "unat (mtu c) < 2 ^ 16"
  shows "unat (initial_window c) = max (2 * unat (mtu c)) 10240"
proof -
  have "unat (mtu c) * unat (2 :: u64) < 2 ^ 64" using assms by simp
  then have "unat (mtu c * 2) = unat (mtu c) * 2" by (simp add: unat_mult_lem [THEN iffD1])
  then show ?thesis by (simp add: initial_window_def unat_max)
qed

lemma as_secs_rounded:
  assumes "d div 1000000000 < 2 ^ 64"
  shows "rounded (1 / 2 ^ 53) 2 (of_nat d / 1000000000) (as_secs_f64 d)"
proof -
  let ?q = "d div 1000000000" and ?r = "d mod 1000000000"
  have q: "unat (of_nat ?q :: u64) = ?q" using assms by (simp add: unsigned_of_nat take_bit_nat_eq_self)
  have "?r < 1000000000" by simp
  then have r: "rnd (of_nat ?r) = of_nat ?r" "rnd 1000000000 = 1000000000"
    using rnd_nat [of ?r] rnd_nat [of 1000000000] by simp_all
  have "0 \<le> (of_nat ?q :: rat)" "0 \<le> (of_nat ?r / 1000000000 :: rat)" by simp_all
  note f64.rounded_add [OF this [THEN f64.rounded_once]]
  then have "rounded (1 / 2 ^ 53) 2 (of_nat ?q + of_nat ?r / 1000000000) (as_secs_f64 d)"
    using f64.rounded_round [of "of_nat ?q + of_nat ?r / 1000000000" 1]
    by (simp add: as_secs_f64_def f64_add_def f64_div_def f64_of_u64_def q r numeral_2_eq_2)
  moreover have "(of_nat d :: rat) = of_nat ?q * 1000000000 + of_nat ?r"
    by (metis div_mult_mod_eq of_nat_add of_nat_mult of_nat_numeral)
  ultimately show ?thesis by (simp add: add_divide_distrib)
qed

text \<open>The window before truncation, up to the five roundings on the way.\<close>

definition cwnd :: "cells \<Rightarrow> brutal \<Rightarrow> f64" where
  "cwnd cs c = f64_div (f64_mul (f64_of_u64 (rate_at cs (rate c))) (as_secs_f64 (srtt c))) (ack_rate c)"

lemma cwnd_rounded:
  assumes "brutal_ok c" and "srtt c div 1000000000 < 2 ^ 64"
  shows "rounded (1 / 2 ^ 53) 5 (of_nat (unat (rate_at cs (rate c))) * (of_nat (srtt c) / 1000000000) / ack_rate c) (cwnd cs c)"
proof -
  define R :: rat where "R = of_nat (unat (rate_at cs (rate c)))"
  define S :: rat where "S = of_nat (srtt c) / 1000000000"
  let ?r = "f64_of_u64 (rate_at cs (rate c))" and ?s = "as_secs_f64 (srtt c)"
  have pos: "0 \<le> R" "0 \<le> S" "0 \<le> R * S" "0 < ack_rate c" "0 \<le> R * S / ack_rate c"
    using assms(1) of_nat_0_le_iff [of "unat (rate_at cs (rate c))"] by (simp_all add: R_def S_def brutal_ok_def del: of_nat_unat)
  have "rounded (1 / 2 ^ 53) 1 R ?r" unfolding f64_of_u64_def R_def [symmetric] by (rule f64.rounded_once [OF pos(1)])
  note f64.rounded_mult [OF pos(1,2) this as_secs_rounded [OF assms(2), folded S_def]]
  note f64.rounded_round [OF pos(3) this, folded f64_mul_def]
  note f64.rounded_round [OF pos(5) f64.rounded_div [OF pos(4) this], folded f64_div_def]
  moreover have "Suc (Suc (1 + 2)) = 5" by simp
  ultimately show ?thesis unfolding R_def S_def cwnd_def by (simp only:)
qed

lemma window_value:
  assumes "brutal_ok c" and "srtt c \<noteq> 0"
  shows "unat (window cs c) = max (min (nat \<lfloor>cwnd cs c\<rfloor>) (2 ^ 64 - 1)) (max (2 * unat (mtu c)) 10240)"
proof -
  have "window cs c = max (f64_to_u64 (cwnd cs c)) (initial_window c)"
    using assms(2) by (simp add: window_def cwnd_def initial_window_def Let_def)
  moreover have "unat (mtu c) < 2 ^ 16" using assms(1) by (simp add: brutal_ok_def)
  ultimately show ?thesis by (simp only: unat_max f64_to_u64_value floor_window)
qed

text \<open>No value on the way leaves the range of normal binary64 numbers.\<close>

lemma u64_magnitude: "magnitude 64 (f64_of_u64 w)"
proof -
  have "unat w < 2 ^ LENGTH(64)" by (rule unsigned_less)
  then show ?thesis unfolding f64_of_u64_def by (intro magnitude_rnd magnitude_nat) simp
qed

lemma as_secs_magnitude: "magnitude 65 (as_secs_f64 d)"
proof -
  have "magnitude 30 (rnd (of_nat (d mod 1000000000)))" "magnitude 30 (rnd (of_nat 1000000000))"
    by (intro magnitude_rnd magnitude_nat; simp add: less_imp_le_nat order_trans [OF less_imp_le [OF mod_less_divisor]])+
  then have "magnitude (30 + 30) (f64_div (rnd (of_nat (d mod 1000000000))) (rnd 1000000000))"
    unfolding f64_div_def of_nat_numeral by (rule magnitude_rnd [OF magnitude_div])
  then have "magnitude 64 (f64_div (rnd (of_nat (d mod 1000000000))) (rnd 1000000000))"
    by (rule magnitude_weaken) simp
  from magnitude_rnd [OF magnitude_add [OF u64_magnitude this]] show ?thesis
    by (simp add: as_secs_f64_def f64_add_def)
qed

lemma ratio_magnitude: "brutal_ok c \<Longrightarrow> magnitude 1 (ack_rate c)"
  by (simp add: brutal_ok_def magnitude_def power_int_minus)

lemma cwnd_normal:
  assumes "brutal_ok c"
  shows "f64_normal (f64_mul (f64_of_u64 (rate_at cs (rate c))) (as_secs_f64 (srtt c)))" and "f64_normal (cwnd cs c)"
proof -
  have p: "magnitude (64 + 65) (f64_mul (f64_of_u64 (rate_at cs (rate c))) (as_secs_f64 (srtt c)))"
    unfolding f64_mul_def by (intro magnitude_rnd magnitude_mult u64_magnitude as_secs_magnitude)
  then show "f64_normal (f64_mul (f64_of_u64 (rate_at cs (rate c))) (as_secs_f64 (srtt c)))"
    by (rule magnitude_normal) simp
  have "magnitude (64 + 65 + 1) (cwnd cs c)"
    unfolding cwnd_def f64_div_def by (rule magnitude_rnd [OF magnitude_div [OF p ratio_magnitude [OF assms]]])
  then show "f64_normal (cwnd cs c)" by (rule magnitude_normal) simp
qed

text \<open>A smaller ack rate means a larger window; more losses in a kept slot mean more losses.\<close>

lemma f64_to_u64_mono: "x \<le> y \<Longrightarrow> f64_to_u64 x \<le> f64_to_u64 y"
proof -
  assume "x \<le> y"
  then have "nat \<lfloor>x\<rfloor> \<le> nat \<lfloor>y\<rfloor>" by (intro nat_mono floor_mono)
  then have "min (nat \<lfloor>x\<rfloor>) (2 ^ 64 - 1) \<le> min (nat \<lfloor>y\<rfloor>) (2 ^ 64 - 1)" by (rule min.mono) simp
  then show ?thesis unfolding word_le_nat_alt f64_to_u64_value .
qed

lemma window_antimono:
  assumes "ack_rate c' \<le> ack_rate c" and "0 < ack_rate c'" and "mtu c' = mtu c" and "srtt c' = srtt c" and "rate c' = rate c"
  shows "window cs c \<le> window cs c'"
proof -
  have "0 \<le> f64_mul (f64_of_u64 (rate_at cs (rate c))) (as_secs_f64 (srtt c))"
    unfolding f64_mul_def f64_of_u64_def as_secs_f64_def f64_add_def f64_div_def
    by (intro f64.nonneg mult_nonneg_nonneg add_nonneg_nonneg divide_nonneg_nonneg) (simp_all del: of_nat_unat)
  then have "cwnd cs c \<le> cwnd cs c'"
    unfolding cwnd_def f64_div_def assms(4,5) using assms(1,2) by (intro rnd_mono divide_left_mono) auto
  from f64_to_u64_mono [OF this] show ?thesis
    by (simp add: window_def Let_def assms(3) assms(4) flip: cwnd_def) (simp add: cwnd_def assms max.coboundedI1 max.coboundedI2)
qed

lemma kept_update:
  assumes "i < length ss" and "ts s = ts (ss ! i)"
  shows "unat (ack s) = unat (ack (ss ! i)) \<Longrightarrow> kept m ack (ss[i := s]) = kept m ack ss"
    and "unat (loss (ss ! i)) \<le> unat (loss s) \<Longrightarrow> kept m loss ss \<le> kept m loss (ss[i := s])"
  using assms
proof (induction ss arbitrary: i)
  case (Cons x ss)
  { case 1 then show ?case using Cons.IH(1) by (cases i) (auto simp: kept_def) }
  { case 2 then show ?case using Cons.IH(2) by (cases i) (auto simp: kept_def) }
qed simp_all

text \<open>The window in terms of the rate, and the two controllers of a switch.\<close>

lemma window_near_rate:
  fixes target :: rat
  assumes "empty_defaults dflt" and "cc_run (brutal_ops rtt_get True cs dflt) (brutal_new b r m) es = Some c"
    and "srtt c \<noteq> 0" and "srtt c div 1000000000 < 2 ^ 64"
    and "target = of_nat (unat (rate_at cs' r)) * (of_nat (srtt c) / 1000000000)"
  shows "\<exists>x. unat (window cs' c) = max (min (nat \<lfloor>x\<rfloor>) (2 ^ 64 - 1)) (max (2 * unat (mtu c)) 10240) \<and>
    (1 - 1 / 2 ^ 53) ^ 5 * target \<le> x \<and> x \<le> (1 + 1 / 2 ^ 53) ^ 5 * (5 / 4 * target)"
proof -
  have c: "brutal_ok c" "rate c = r" using brutal_ok_run [OF assms(1) brutal_ok_new assms(2)] by (simp_all add: brutal_new_def)
  have t: "0 \<le> target" unfolding assms(5) by (intro mult_nonneg_nonneg) (simp_all del: of_nat_unat)
  have a: "4 / 5 \<le> ack_rate c" "ack_rate c \<le> 1" using c(1) by (simp_all add: brutal_ok_def)
  have q: "target \<le> target / ack_rate c" "target / ack_rate c \<le> 5 / 4 * target"
    using a t mult_left_mono [OF a(2) t] mult_left_mono [OF a(1) t] by (simp_all add: field_simps)
  have r: "(1 - 1 / 2 ^ 53) ^ 5 * (target / ack_rate c) \<le> cwnd cs' c"
    "cwnd cs' c \<le> (1 + 1 / 2 ^ 53) ^ 5 * (target / ack_rate c)"
    using cwnd_rounded [OF c(1) assms(4), of cs'] unfolding rounded_def c(2) assms(5) by simp_all
  have "(1 - 1 / 2 ^ 53) ^ 5 * target \<le> cwnd cs' c"
    by (rule order_trans [OF mult_left_mono [OF q(1)] r(1)]) simp
  moreover have "cwnd cs' c \<le> (1 + 1 / 2 ^ 53) ^ 5 * (5 / 4 * target)"
    by (rule order_trans [OF r(2) mult_left_mono [OF q(2)]]) simp
  ultimately show ?thesis using window_value [OF c(1) assms(3), of cs'] by blast
qed

lemma switchable_window:
  "c_window (switchable_ops cs br bb) self =
     (if flag_at cs (sw_use_bbr self) then c_window bb (sw_bbr self) else c_window br (sw_brutal self))"
  by (simp add: switchable_ops_def bbr_active_def)

lemma switchable_run:
  "cc_run (switchable_ops cs br bb) self es = do {
     x \<leftarrow> cc_run br (sw_brutal self) es;
     y \<leftarrow> cc_run bb (sw_bbr self) es;
     Some (self\<lparr>sw_brutal := x, sw_bbr := y\<rparr>) }"
proof (induction es arbitrary: self)
  case (Cons e es)
  have "cc_step (switchable_ops cs br bb) self e = do {
     x \<leftarrow> cc_step br (sw_brutal self) e;
     y \<leftarrow> cc_step bb (sw_bbr self) e;
     Some (self\<lparr>sw_brutal := x, sw_bbr := y\<rparr>) }"
    by (cases e) (simp_all add: switchable_ops_def)
  then show ?case using Cons
    by (cases "cc_step br (sw_brutal self) e"; cases "cc_step bb (sw_bbr self) e") (auto split: Option.bind_splits)
qed simp

section \<open>Properties\<close>

text \<open>A concrete controller for the witnesses: the trait's defaults, and an RTT estimator that is its value.\<close>

definition plain_defaults :: "(brutal, duration) controller_ops" where
  "plain_defaults =
     \<lparr>c_on_sent = (\<lambda>c now bs pn. Some c), c_on_ack = (\<lambda>c now sent bs app rtt. Some c),
      c_on_end_acks = (\<lambda>c now inflight app largest. Some c),
      c_on_congestion_event = (\<lambda>c now sent pers lst. Some c), c_on_mtu_update = (\<lambda>c m. Some c),
      c_window = (\<lambda>c. 0), c_initial_window = (\<lambda>c. 0), c_clone_box = (\<lambda>c. c)\<rparr>"

lemma plain_defaults_empty: "empty_defaults plain_defaults"
  by (simp add: empty_defaults_def plain_defaults_def)

definition one_cell :: "u64 \<Rightarrow> cells" where
  "one_cell r = \<lparr>rate_at = (\<lambda>_. r), flag_at = (\<lambda>_. False), next_cell = 1\<rparr>"

definition one_ack :: "duration cc_event list" where
  "one_ack = [Acked 1000000000 0 1200 False 50000000]"

lemma one_ack_run:
  "\<exists>c. cc_run (brutal_ops (\<lambda>d. d) True cs plain_defaults) (brutal_new 0 r 1200) one_ack = Some c \<and> srtt c = 50000000"
proof -
  let ?s = "(brutal_new 0 r 1200)\<lparr>srtt := 50000000\<rparr>"
  have "tracks [] [((1000000000 - base ?s) div 1000000000, unat (1 :: u64), unat (0 :: u64))] (brutal_new 0 r 1200)"
    using ring_ok_new [of 0] by (auto simp: tracks_def brutal_new_def rate_of_def acked_def lost_def)
  from tracks_record [OF this, of True] obtain c where "record_sample True ?s 1000000000 1 0 = Some c" "srtt c = 50000000"
    by auto
  then show ?thesis by (simp add: brutal_ops_def on_ack_def one_ack_def)
qed

text \<open>
  C6. The ring of five slots implements a sliding window. For any sequence of events in the
  order of time, and with counts that fit the counters, the controller does not panic, and
  its ack rate is that of the packets acknowledged and lost in the last five seconds before the
  latest sample: their quotient, at least 0.8, or 1 while there are fewer than 50 of them.
\<close>

theorem brutal_ack_rate:
  assumes "empty_defaults dflt"
    and "sorted (map fst (samples b (ucast m) es))" and "\<forall>x\<in>set (samples b (ucast m) es). fst x < 2 ^ 63"
    and "sum_samples (\<lambda>_. True) acked (samples b (ucast m) es) +
      sum_samples (\<lambda>_. True) lost (samples b (ucast m) es) < 2 ^ 64"
  shows "\<exists>c. cc_run (brutal_ops rtt_get ovf cs dflt) (brutal_new b r m) es = Some c \<and>
    ack_rate c = rate_of (samples b (ucast m) es)"
proof -
  have "tracks [] (samples b (ucast m) es) (brutal_new b r m)"
    using assms(2-4) ring_ok_new [of 0] by (auto simp: tracks_def brutal_new_def rate_of_def)
  moreover have "base (brutal_new b r m) = b" "mtu (brutal_new b r m) = ucast m" by (simp_all add: brutal_new_def)
  ultimately show ?thesis
    using brutal_run_tracks [OF assms(1), of "[]" "brutal_new b r m" es rtt_get ovf cs] by (auto simp: tracks_def)
qed

definition lossy_run :: "duration cc_event list" where
  "lossy_run = replicate 45 (Acked 1000000000 0 1200 False 50000000) @ [Congestion 7000000000 0 False 6000] @
     replicate 45 (Acked 8000000000 0 1200 False 50000000)"

lemma samples_acked:
  "samples b m (replicate n (Acked now sent bs app rtt) @ es) =
     replicate n ((now - b) div 1000000000, 1, 0) @ samples b m es"
  by (induction n) simp_all

lemma sum_samples_replicate: "sum_samples P f (replicate n x) = (if P x then n * f x else 0)"
  by (induction n) simp_all

theorem brutal_ack_rate_witness:
  "\<exists>c. cc_run (brutal_ops (\<lambda>d. d) True (one_cell 1000000) plain_defaults) (brutal_new 0 0 1200) lossy_run = Some c \<and>
     ack_rate c = rnd (45 / 50)"
proof -
  let ?h = "samples 0 (ucast (1200 :: u16)) lossy_run"
  have l: "unat (max ((6000 :: u64) div max (ucast (1200 :: u16)) 1) 1) = 5" by code_simp
  have "?h = replicate 45 (1, 1, 0) @ [(7, 0, 5)] @ samples 0 (ucast (1200 :: u16)) (replicate 45 (Acked 8000000000 0 1200 False (50000000 :: duration)) @ [])"
    by (simp only: lossy_run_def samples_acked samples.simps append.simps l append_Nil2) simp
  then have h: "?h = replicate 45 (1, 1, 0) @ [(7, 0, 5)] @ replicate 45 (8, 1, 0)" unfolding samples_acked by simp
  have s: "sorted (map fst ?h)" "\<forall>x\<in>set ?h. fst x < 2 ^ 63"
    "sum_samples (\<lambda>_. True) acked ?h + sum_samples (\<lambda>_. True) lost ?h < 2 ^ 64"
    unfolding h by (auto simp: sorted_append sum_samples_replicate acked_def lost_def)
  have "rate_of ?h = max (rnd (rnd 45 / rnd 50)) (rnd (8 / 10))"
    unfolding h by (simp add: rate_of_def sum_samples_replicate acked_def lost_def recent_def)
  also have "\<dots> = rnd (45 / 50)" by code_simp
  finally have "rate_of ?h = rnd (45 / 50)" .
  with brutal_ack_rate [OF plain_defaults_empty s, of "\<lambda>d. d" True "one_cell 1000000" 0] show ?thesis by simp
qed

text \<open>
  C18. Brutal sends at its configured rate whatever is lost. In any state that events lead to,
  once there is a round-trip time, the window is the truncation of a number between the
  configured rate times the round-trip time and five quarters of it, up to the rounding errors
  of five floating-point operations, and never below 10240 bytes or two packets. The rate is
  the shared cell's value at the moment of the call.
\<close>

theorem brutal_window:
  fixes target :: rat
  assumes "empty_defaults dflt" and "cc_run (brutal_ops rtt_get True cs dflt) (brutal_new b r m) es = Some c"
    and "srtt c \<noteq> 0" and "srtt c div 1000000000 < 2 ^ 64"
    and "target = of_nat (unat (rate_at cs' r)) * (of_nat (srtt c) / 1000000000)"
  shows "\<exists>x. unat (window cs' c) = max (min (nat \<lfloor>x\<rfloor>) (2 ^ 64 - 1)) (max (2 * unat (mtu c)) 10240) \<and>
    (1 - 1 / 2 ^ 53) ^ 5 * target \<le> x \<and> x \<le> (1 + 1 / 2 ^ 53) ^ 5 * (5 / 4 * target)"
  using window_near_rate [OF assms] .

theorem brutal_window_witness:
  "\<exists>c (x :: rat). cc_run (brutal_ops (\<lambda>d. d) True (one_cell 1000000) plain_defaults) (brutal_new 0 0 1200) one_ack = Some c \<and>
     unat (window (one_cell 1000000) c) = max (min (nat \<lfloor>x\<rfloor>) (2 ^ 64 - 1)) (max (2 * unat (mtu c)) 10240) \<and>
     (1 - 1 / 2 ^ 53) ^ 5 * 50000 \<le> x"
proof -
  obtain c where c: "cc_run (brutal_ops (\<lambda>d. d) True (one_cell 1000000) plain_defaults) (brutal_new 0 0 1200) one_ack = Some c"
    "srtt c = 50000000" using one_ack_run by blast
  have "srtt c \<noteq> 0" "srtt c div 1000000000 < 2 ^ 64"
    "(50000 :: rat) = of_nat (unat (rate_at (one_cell 1000000) 0)) * (of_nat (srtt c) / 1000000000)"
    using c(2) by (simp_all add: one_cell_def)
  from brutal_window [OF plain_defaults_empty c(1) this] c(1) show ?thesis by blast
qed

text \<open>
  C37. Brutal never backs off on loss. Right after a sample of the same second, a congestion
  event does not make the window smaller: the lost packets only lower the ack rate, by which
  the target is divided.
\<close>

theorem loss_never_shrinks_window:
  assumes "brutal_ok c0" and "record_sample True c0 now0 a l = Some c"
    and "secs c now = secs c now0" and "on_congestion_event True c now sent pers lost_bytes = Some c'"
  shows "window cs c \<le> window cs c'"
proof -
  let ?t = "secs c0 now0" and ?i = "unat (secs c0 now0) mod 5"
  define l where "l = max (lost_bytes div max (mtu c) 1) 1"
  from record_sample_checked [OF assms(2)] obtain m s where c: "sub_i64 True ?t (of_nat SLOT_COUNT) = Some m"
    "slots c = (slots c0)[?i := s]" "ts s = ?t"
    "c = c0\<lparr>slots := slots c, ack_rate := ratio (kept m ack (slots c)) (kept m loss (slots c))\<rparr>" by blast
  have len: "?i < length (slots c)" using c(2) assms(1) by (simp add: brutal_ok_def)
  have at: "slots c ! ?i = s" using c(2) len by simp
  have "base c = base c0" by (subst c(4)) simp
  then have t: "secs c now = ?t" using assms(3) by (simp add: secs_def)
  have "record_sample True c now 0 l = Some c'" using assms(4) by (simp add: on_congestion_event_def l_def Let_def)
  from record_sample_checked [OF this, unfolded t] obtain m' s' where c': "sub_i64 True ?t (of_nat SLOT_COUNT) = Some m'"
    "slots c' = (slots c)[?i := s']" "ts s' = ?t"
    "ts (slots c ! ?i) = ?t \<longrightarrow> unat (ack s') = unat (ack (slots c ! ?i)) + unat (0 :: u64) \<and>
       unat (loss s') = unat (loss (slots c ! ?i)) + unat l"
    "c' = c\<lparr>slots := slots c', ack_rate := ratio (kept m' ack (slots c')) (kept m' loss (slots c'))\<rparr>" by blast
  have "m' = m" using c(1) c'(1) by simp
  moreover have "kept m ack (slots c') = kept m ack (slots c)" "kept m loss (slots c) \<le> kept m loss (slots c')"
    using kept_update [OF len, of s' m] c'(2-4) c(3) at by simp_all
  moreover have ac: "ack_rate c = ratio (kept m ack (slots c)) (kept m loss (slots c))"
    using arg_cong [OF c(4), of ack_rate] by simp
  moreover have ac': "ack_rate c' = ratio (kept m' ack (slots c')) (kept m' loss (slots c'))"
    using arg_cong [OF c'(5), of ack_rate] by simp
  ultimately have "ack_rate c' \<le> ack_rate c" using ratio_antimono by (simp only:)
  moreover have "0 < ack_rate c'" unfolding ac' using less_le_trans [OF _ ratio_range(1)] by simp
  moreover have "mtu c' = mtu c" "srtt c' = srtt c" "rate c' = rate c"
    using arg_cong [OF c'(5), of mtu] arg_cong [OF c'(5), of srtt] arg_cong [OF c'(5), of rate] by simp_all
  ultimately show ?thesis by (rule window_antimono)
qed

theorem loss_never_shrinks_window_witness:
  "\<exists>c c'. record_sample True (brutal_new 0 0 1200) 7 1 0 = Some c \<and>
     on_congestion_event True c 8 0 False 99999 = Some c' \<and> window (one_cell 1000000) c \<le> window (one_cell 1000000) c'"
proof -
  let ?n = "brutal_new 0 0 1200"
  define l :: u64 where "l = max (99999 div max (ucast (1200 :: u16)) 1) 1"
  have l: "unat l = 83" unfolding l_def by code_simp
  have n: "base ?n = 0" "mtu ?n = ucast (1200 :: u16)" by (simp_all add: brutal_new_def)
  have "tracks [] [((7 - base ?n) div 1000000000, unat (1 :: u64), unat (0 :: u64)), (0, 0, unat l)] ?n"
    using ring_ok_new [of 0] l by (auto simp: tracks_def brutal_new_def rate_of_def acked_def lost_def)
  from tracks_record [OF this refl, of True] obtain c where c: "record_sample True ?n 7 1 0 = Some c"
    "base c = 0" "mtu c = ucast (1200 :: u16)" "tracks [(0, 1, 0)] [((8 - base c) div 1000000000, unat (0 :: u64), unat l)] c"
    unfolding n by auto
  from tracks_record [OF c(4) refl, of True] obtain c' where "record_sample True c 8 0 l = Some c'" by blast
  then have c': "on_congestion_event True c 8 0 False 99999 = Some c'"
    by (simp only: on_congestion_event_def c(3) Let_def l_def)
  have "secs c 8 = secs c 7" by (simp add: secs_def c(2))
  from loss_never_shrinks_window [OF brutal_ok_new c(1) this c'] c(1) c' show ?thesis by blast
qed

text \<open>
  C38. The switch between Brutal and BBR is seamless. A controller built by the factory feeds
  every event to both inner controllers: each is in the state it would have reached alone, and
  the window is at any moment that of the one the shared flag selects, whenever the flag was
  set. Clones share the flag and the rate.
\<close>

theorem switchable_runs_both:
  "cc_run (switchable_ops cs br bb) (switchable_build bbr_build clock fac now m) es = do {
     x \<leftarrow> cc_run br (brutal_new clock (sf_rate fac) m) es;
     y \<leftarrow> cc_run bb (bbr_build now m) es;
     Some \<lparr>sw_brutal = x, sw_bbr = y, sw_use_bbr = sf_use_bbr fac\<rparr> } \<and>
   map_option (c_window (switchable_ops cs' br bb))
     (cc_run (switchable_ops cs br bb) (switchable_build bbr_build clock fac now m) es) = do {
     x \<leftarrow> cc_run br (brutal_new clock (sf_rate fac) m) es;
     y \<leftarrow> cc_run bb (bbr_build now m) es;
     Some (if flag_at cs' (sf_use_bbr fac) then c_window bb y else c_window br x) }"
  unfolding switchable_run by (auto simp: switchable_build_def switchable_window split: Option.bind_splits)

end
