(* ===== verification/Quic_Transport.thy ===== *)
theory Quic_Transport
  imports Brutal_CC Hop_Socket Pin_Tls
begin

text \<open>
  The QUIC endpoint, \<^verbatim>\<open>src/src/transport/mod.rs\<close>: the transport settings and the set-up of
  the local socket.

  quinn's \<open>TransportConfig\<close> is the record of the settings the source makes; its defaults, the
  bounded integer types and everything that touches the operating system are the fields of
  \<open>quinn_env\<close>. \<open>'k\<close> is a wrapped UDP socket; an endpoint is a number.
\<close>

section \<open>The code\<close>

datatype cc_factory = SwitchableCC switchable_factory | BbrCC

text \<open>\<open>BrutalControl\<close>: the cells of the rate and of the flag.\<close>

type_synonym brutal_control = "nat \<times> nat"

record transport_settings =
  keep_alive :: "duration option"
  idle_timeout :: "nat option"
  tp_initial_rtt :: duration
  stream_window :: nat
  connection_window :: nat
  mtu_discovery :: bool
  datagram_receive_buffer :: "nat option"
  datagram_send_buffer :: nat
  controller_factory :: cc_factory

record ('n, 'k, 'w) quinn_env =
  transport_default :: transport_settings
  varint_from_u64 :: "u64 \<Rightarrow> nat option"
  varint_max :: nat
  idle_timeout_try_from :: "duration \<Rightarrow> nat option"
  quic_client_config :: "'w tls_client_config \<Rightarrow> bytes + unit"
  udp_bind :: "bytes \<Rightarrow> 'n \<Rightarrow> 'n \<times> 'k io_result"
  wrap_udp_socket :: "'k \<Rightarrow> 'n \<Rightarrow> 'n \<times> 'k io_result"
  new_with_abstract_socket :: "('k hop_socket + 'k) \<Rightarrow> 'n \<Rightarrow> 'n \<times> nat io_result"

text \<open>An endpoint, the socket it drives and its default client configuration.\<close>

record ('k, 'w) endpoint =
  ep_id :: nat
  ep_socket :: "'k hop_socket + 'k"
  ep_crypto :: "'w tls_client_config"
  ep_transport :: transport_settings

text \<open>\<open>VarInt::from_u64(v).unwrap_or(VarInt::MAX)\<close>.\<close>

definition varint_or_max :: "('n, 'k, 'w) quinn_env \<Rightarrow> u64 \<Rightarrow> nat" where
  "varint_or_max q v = (case varint_from_u64 q v of Some x \<Rightarrow> x | None \<Rightarrow> varint_max q)"

text \<open>\<open>None\<close> where \<open>expect\<close> panics.\<close>

definition transport_config ::
    "('n, 'k, 'w) quinn_env \<Rightarrow> brutal_control option \<Rightarrow> quic_params \<Rightarrow> transport_settings run" where
  "transport_config q brutal qp = do {
     let t = transport_default q;
     let t = t\<lparr>keep_alive := Some (keep_alive_interval qp)\<rparr>;
     idle \<leftarrow> idle_timeout_try_from q (max_idle_timeout qp);
     let t = t\<lparr>idle_timeout := Some idle\<rparr>;
     let t = t\<lparr>tp_initial_rtt := initial_rtt qp\<rparr>;
     let t = t\<lparr>stream_window := varint_or_max q (stream_receive_window qp)\<rparr>;
     let t = t\<lparr>connection_window := varint_or_max q (connection_receive_window qp)\<rparr>;
     let t = (if disable_path_mtu_discovery qp then t\<lparr>mtu_discovery := False\<rparr> else t);
     let t = t\<lparr>datagram_receive_buffer := Some (unat MAX_DATAGRAM_FRAME_SIZE * 1024)\<rparr>;
     let t = t\<lparr>datagram_send_buffer := unat MAX_DATAGRAM_FRAME_SIZE * 1024\<rparr>;
     Some (case brutal of
             Some (r, f) \<Rightarrow> t\<lparr>controller_factory := SwitchableCC \<lparr>sf_rate = r, sf_use_bbr = f\<rparr>\<rparr>
           | None \<Rightarrow> t\<lparr>controller_factory := BbrCC\<rparr>) }"

definition is_ipv6 :: "socket_addr \<Rightarrow> bool" where
  "is_ipv6 a = (case addr_ip a of V6 _ \<Rightarrow> True | V4 _ \<Rightarrow> False)"

definition build_endpoint ::
    "('n, 'k, 'w) quinn_env \<Rightarrow> rng \<Rightarrow> 'w tls_client_config \<Rightarrow> brutal_control option \<Rightarrow> quic_params \<Rightarrow>
     salamander option \<Rightarrow> hop_config option \<Rightarrow> socket_addr \<Rightarrow> ('n, ('k, 'w) endpoint) act" where
  "build_endpoint q rng crypto brutal qp ob hop canon =
     act_bind (act_of (map_err (\<lambda>e. Io (io_error_new InvalidInput e)) (quic_client_config q crypto))) (\<lambda>_.
     act_bind (act_run (map_option Inr (transport_config q brutal qp))) (\<lambda>tc.
     let bind_addr = (if is_ipv6 canon then str ''[::]:0'' else str ''0.0.0.0:0'') in
     act_bind (act_call Io (udp_bind q bind_addr)) (\<lambda>std_sock.
     act_bind (act_call Io (wrap_udp_socket q std_sock)) (\<lambda>inner_sock.
     act_bind (act_run (map_option Inr (hop_socket_new rng inner_sock canon ob hop))) (\<lambda>wrapped.
     let socket = (case wrapped of Some w \<Rightarrow> Inl w | None \<Rightarrow> Inr inner_sock) in
     act_bind (act_call Io (new_with_abstract_socket q socket)) (\<lambda>ep.
     act_of (Inr \<lparr>ep_id = ep, ep_socket = socket, ep_crypto = crypto, ep_transport = tc\<rparr>)))))))"

section \<open>What is relied on\<close>

text \<open>
  quinn's bounded integers, as documented: a \<open>VarInt\<close> holds values below \<open>2 ^ 62\<close>, and an
  \<open>IdleTimeout\<close> a number of milliseconds that is a \<open>VarInt\<close>.
\<close>

definition quinn_ok :: "('n, 'k, 'w) quinn_env \<Rightarrow> bool" where
  "quinn_ok q \<longleftrightarrow>
     (\<forall>v. varint_from_u64 q v = (if unat v < 2 ^ 62 then Some (unat v) else None)) \<and>
     varint_max q = 2 ^ 62 - 1 \<and>
     (\<forall>d. idle_timeout_try_from q d = (if d div 1000000 < 2 ^ 62 then Some (d div 1000000) else None))"

lemma varint_or_max_eq: "quinn_ok q \<Longrightarrow> varint_or_max q v = min (unat v) (2 ^ 62 - 1)"
  by (auto simp: varint_or_max_def quinn_ok_def)

section \<open>Properties\<close>

text \<open>
  Which transport settings a configuration gets. Set-up panics exactly when the idle
  timeout is \<open>2 ^ 62\<close> milliseconds or more; otherwise the timers are those of the
  configuration, receive windows are cut to what a QUIC integer can hold, datagrams are on, and
  the congestion controller is the switchable one exactly when there is a rate to enforce,
  reading the cells it was given.
\<close>

theorem transport_settings_of_config:
  assumes "quinn_ok q"
  shows "(transport_config q brutal qp = None \<longleftrightarrow> 2 ^ 62 \<le> max_idle_timeout qp div 1000000) \<and>
    (\<forall>t. transport_config q brutal qp = Some t \<longrightarrow>
       keep_alive t = Some (keep_alive_interval qp) \<and>
       idle_timeout t = Some (max_idle_timeout qp div 1000000) \<and> tp_initial_rtt t = initial_rtt qp \<and>
       stream_window t = min (unat (stream_receive_window qp)) (2 ^ 62 - 1) \<and>
       connection_window t = min (unat (connection_receive_window qp)) (2 ^ 62 - 1) \<and>
       (disable_path_mtu_discovery qp \<longrightarrow> \<not> mtu_discovery t) \<and>
       datagram_receive_buffer t = Some 1228800 \<and> datagram_send_buffer t = 1228800 \<and>
       controller_factory t =
         (case brutal of Some (r, f) \<Rightarrow> SwitchableCC \<lparr>sf_rate = r, sf_use_bbr = f\<rparr> | None \<Rightarrow> BbrCC))"
proof -
  have i: "idle_timeout_try_from q (max_idle_timeout qp) =
      (if max_idle_timeout qp div 1000000 < 2 ^ 62 then Some (max_idle_timeout qp div 1000000) else None)"
    using assms by (simp only: quinn_ok_def)
  show ?thesis
    by (auto simp only: transport_config_def Let_def i varint_or_max_eq [OF assms] not_less [symmetric]
        split: if_splits option.splits prod.splits) (auto simp: MAX_DATAGRAM_FRAME_SIZE_def)
qed

text \<open>An environment in which everything succeeds, for the witnesses.\<close>

definition lab_quinn :: "('n, unit, 'w) quinn_env" where
  "lab_quinn =
     \<lparr>transport_default =
        \<lparr>keep_alive = None, idle_timeout = Some 30000, tp_initial_rtt = 333000000, stream_window = 1250000,
         connection_window = 2 ^ 62 - 1, mtu_discovery = True, datagram_receive_buffer = Some 1250000,
         datagram_send_buffer = 1048576, controller_factory = BbrCC\<rparr>,
      varint_from_u64 = (\<lambda>v. if unat v < 2 ^ 62 then Some (unat v) else None), varint_max = 2 ^ 62 - 1,
      idle_timeout_try_from = (\<lambda>d. if d div 1000000 < 2 ^ 62 then Some (d div 1000000) else None),
      quic_client_config = (\<lambda>_. Inr ()), udp_bind = (\<lambda>_ n. (n, Inr ())),
      wrap_udp_socket = (\<lambda>k n. (n, Inr k)), new_with_abstract_socket = (\<lambda>_ n. (n, Inr 0))\<rparr>"

lemma lab_quinn_ok: "quinn_ok lab_quinn"
  by (simp add: quinn_ok_def lab_quinn_def)

theorem transport_settings_of_config_witness:
  "\<exists>t. transport_config lab_quinn (Some (3, 4)) quic_params_default = Some t \<and> idle_timeout t = Some 30000 \<and>
     stream_window t = 8388608 \<and> controller_factory t = SwitchableCC \<lparr>sf_rate = 3, sf_use_bbr = 4\<rparr>"
proof -
  have d: "max_idle_timeout quic_params_default div 1000000 = 30000"
    "unat (stream_receive_window quic_params_default) = 8388608"
    by (simp_all add: quic_params_default_def from_secs_def)
  note f = transport_settings_of_config [OF lab_quinn_ok, of "Some (3, 4)" quic_params_default, unfolded d]
  then obtain t where "transport_config lab_quinn (Some (3, 4)) quic_params_default = Some t" by fastforce
  with f show ?thesis by auto
qed

end
