(* ===== verification/Connect_Auth.thy ===== *)
theory Connect_Auth
  imports Quic_Transport Udp_Relay
begin

text \<open>
  Connecting, \<^verbatim>\<open>src/src/connect.rs\<close>, and the client it returns, \<^verbatim>\<open>src/src/client.rs\<close>.

  The world outside has a state \<open>'n\<close>: name resolution, QUIC and HTTP/3 are the fields of
  \<open>net_env\<close>, which work on it. A connection is a number. The cells that the congestion
  controllers read (theory \<open>Brutal_CC\<close>) are part of the state of this program; \<open>host\<close> has both.
\<close>

section \<open>Authentication\<close>

definition STATUS_AUTH_OK :: u16 where "STATUS_AUTH_OK = 233"
definition DEFAULT_HOP_INTERVAL_SECS :: u64 where "DEFAULT_HOP_INTERVAL_SECS = 30"
definition MIN_HOP_INTERVAL_SECS :: u64 where "MIN_HOP_INTERVAL_SECS = 5"

record auth_response =
  udp_enabled :: bool
  server_rx :: u64
  rx_auto :: bool

text \<open>
  A request as it is built, and what is read off a response: its status, and for a header name
  the text of its value, if it has one that \<open>to_str\<close> accepts.
\<close>

record http_request =
  req_method :: bytes
  req_uri :: bytes
  req_headers :: "(bytes \<times> bytes) list"

record http_response =
  resp_status :: u16
  resp_header :: "bytes \<Rightarrow> bytes option"

record ('n, 'k, 'w) net_env =
  env_tls :: "'w tls_env"
  env_quinn :: "('n, 'k, 'w) quinn_env"
  lookup_host :: "bytes \<Rightarrow> u16 \<Rightarrow> 'n \<Rightarrow> 'n \<times> socket_addr list io_result"
  ep_connect :: "('k, 'w) endpoint \<Rightarrow> socket_addr \<Rightarrow> bytes \<Rightarrow> 'n \<Rightarrow> 'n \<times> (bytes + nat)"
  connecting :: "nat \<Rightarrow> 'n \<Rightarrow> 'n \<times> (bytes + nat)"
  h3_client_new :: "nat \<Rightarrow> 'n \<Rightarrow> 'n \<times> (bytes + nat)"
  request_body :: "http_request \<Rightarrow> bytes + http_request"
  h3_send_request :: "nat \<Rightarrow> http_request \<Rightarrow> 'n \<Rightarrow> 'n \<times> (bytes + nat)"
  h3_finish :: "nat \<Rightarrow> 'n \<Rightarrow> 'n \<times> (bytes + unit)"
  h3_recv_response :: "nat \<Rightarrow> 'n \<Rightarrow> 'n \<times> (bytes + http_response)"

definition auth_request :: "config \<Rightarrow> bytes \<Rightarrow> http_request" where
  "auth_request cfg pad =
     \<lparr>req_method = str ''POST'', req_uri = str ''https://hysteria/auth'',
      req_headers =
        [(str ''Host'', str ''hysteria''), (str ''Hysteria-Auth'', auth cfg),
         (str ''Hysteria-CC-RX'', dec_string (unat (rx_bps cfg))), (str ''Hysteria-Padding'', pad)]\<rparr>"

definition read_auth_response :: "http_response \<Rightarrow> auth_response rs_result" where
  "read_auth_response resp =
     (let status = resp_status resp in
      if status \<noteq> STATUS_AUTH_OK then Inl (AuthFailed status)
      else
        let udp = (resp_header resp (str ''Hysteria-UDP'') = Some (str ''true''));
            (rx, auto) =
              (case resp_header resp (str ''Hysteria-CC-RX'') of
                 Some s \<Rightarrow>
                   if s = str ''auto'' then (0, True)
                   else ((case parse_u64 s of Some v \<Rightarrow> v | None \<Rightarrow> 0), False)
               | None \<Rightarrow> (0, False))
        in Inr \<lparr>udp_enabled = udp, server_rx = rx, rx_auto = auto\<rparr>)"

definition authenticate ::
    "('n, 'k, 'w) net_env \<Rightarrow> rng \<Rightarrow> nat \<Rightarrow> config \<Rightarrow> ('n, auth_response) act" where
  "authenticate env rng conn cfg =
     act_bind (act_call H3Connection (h3_client_new env conn)) (\<lambda>send_request.
     act_bind (act_run (map_option Inr (auth_request_padding rng))) (\<lambda>pad.
     act_bind (act_of (map_err (\<lambda>e. Protocol (str ''build auth request: '' @ e))
       (request_body env (auth_request cfg pad)))) (\<lambda>req.
     act_bind (act_call H3Stream (h3_send_request env send_request req)) (\<lambda>stream.
     act_bind (act_call H3Stream (h3_finish env stream)) (\<lambda>_.
     act_bind (act_call H3Stream (h3_recv_response env stream)) (\<lambda>resp.
     act_of (read_auth_response resp)))))))"

section \<open>Resolving the server\<close>

definition port_spec :: "config \<Rightarrow> bytes rs_result" where
  "port_spec cfg =
     (if hop_ports cfg \<noteq> [] then Inr (hop_ports cfg)
      else ok_or (Config (str ''server_addr missing port: '' @ server_addr cfg))
             (map_option snd (rsplit_once (of_char CHR '':'') (server_addr cfg))))"

definition hop_interval :: "config \<Rightarrow> u64 \<times> u64" where
  "hop_interval cfg =
     (let lo = (if hop_interval_min_secs cfg = 0 then DEFAULT_HOP_INTERVAL_SECS
                else max (hop_interval_min_secs cfg) MIN_HOP_INTERVAL_SECS);
          hi = (if hop_interval_max_secs cfg = 0 then lo else max (hop_interval_max_secs cfg) lo)
      in (lo, hi))"

definition resolve_endpoint ::
    "('n, 'k, 'w) net_env \<Rightarrow> config \<Rightarrow> ('n, socket_addr \<times> hop_config option) act" where
  "resolve_endpoint env cfg =
     (let host = host_part cfg in
     act_bind (act_of (port_spec cfg)) (\<lambda>spec.
     act_bind (act_of (ok_or (Config (str ''invalid ports: '' @ spec)) (parse_ports spec))) (\<lambda>ports.
     act_bind (act_run (map_option Inr (index ports 0))) (\<lambda>first_port.
     act_bind (act_call Io (lookup_host env host first_port)) (\<lambda>found.
     act_bind (act_of (ok_or (Config (str ''could not resolve server host: '' @ host))
       (case found of [] \<Rightarrow> None | a # _ \<Rightarrow> Some (addr_ip a)))) (\<lambda>ip.
     let canon = SocketAddr ip first_port in
     if length ports \<le> 1 then act_of (Inr (canon, None))
     else
       let addrs = map (SocketAddr ip) ports;
           (lo, hi) = hop_interval cfg;
           hop = \<lparr>hc_addrs = addrs, interval_min = from_secs lo, interval_max = from_secs hi\<rparr>
       in act_of (Inr (canon, Some hop))))))))"

section \<open>The client\<close>

record ('k, 'w, 'c) hysteria_client =
  hy_conn :: nat
  hy_endpoint :: "('k, 'w) endpoint"
  hy_fast_open :: bool
  hy_server_rx :: u64
  hy_udp_sm :: "'c manager option"

definition client_new ::
    "nat \<Rightarrow> ('k, 'w) endpoint \<Rightarrow> bool \<Rightarrow> bool \<Rightarrow> u64 \<Rightarrow> ('k, 'w, 'c) hysteria_client" where
  "client_new conn ep fast udp rx =
     \<lparr>hy_conn = conn, hy_endpoint = ep, hy_fast_open = fast, hy_server_rx = rx,
      hy_udp_sm = (if udp then Some manager_new else None)\<rparr>"

text \<open>The state of the program and of the world while connecting.\<close>

record 'n host =
  net_of :: 'n
  cells_of :: cells

definition on_net :: "('n, 'a) act \<Rightarrow> ('n host, 'a) act" where
  "on_net m = (\<lambda>h. map_option (\<lambda>(n, r). (h\<lparr>net_of := n\<rparr>, r)) (m (net_of h)))"

text \<open>\<open>Arc::new(AtomicU64::new(tx))\<close> and \<open>Arc::new(AtomicBool::new(false))\<close>: two fresh cells at one address.\<close>

definition new_cells :: "u64 \<Rightarrow> ('n host, brutal_control) act" where
  "new_cells tx = (\<lambda>h.
     let cs = cells_of h; a = next_cell cs in
     Some (h\<lparr>cells_of := \<lparr>rate_at = (rate_at cs)(a := tx), flag_at = (flag_at cs)(a := False), next_cell = a + 1\<rparr>\<rparr>,
           Inr (a, a)))"

text \<open>The reconciliation of the rate with the server's answer.\<close>

definition reconcile :: "config \<Rightarrow> brutal_control option \<Rightarrow> auth_response \<Rightarrow> cells \<Rightarrow> cells" where
  "reconcile cfg brutal au cs =
     (case brutal of
        None \<Rightarrow> cs
      | Some (r, f) \<Rightarrow>
          if rx_auto au then cs\<lparr>flag_at := (flag_at cs)(f := True)\<rparr>
          else if 0 < server_rx au then cs\<lparr>rate_at := (rate_at cs)(r := min (tx_bps cfg) (server_rx au))\<rparr>
          else cs)"

definition connect ::
    "('n, 'k, 'w) net_env \<Rightarrow> rng \<Rightarrow> rng \<Rightarrow> config \<Rightarrow> ('n host, ('k, 'w, 'c) hysteria_client) act" where
  "connect env rng1 rng2 cfg =
     (let server_name = resolved_server_name cfg in
     act_bind (on_net (resolve_endpoint env cfg)) (\<lambda>(canon, hop).
     act_bind (act_of (if obfs_password cfg = [] then Inr None
       else and_then (ok_or (Config (str ''obfs password must be at least 4 bytes''))
         (salamander_new (obfs_password cfg))) (\<lambda>s. Inr (Some s)))) (\<lambda>ob.
     act_bind (act_run (parse_pin (pin_sha256 cfg))) (\<lambda>pin.
     act_bind (act_of (build_client_config (env_tls env) (insecure cfg) pin (ca_pem cfg))) (\<lambda>crypto.
     act_bind (if 0 < tx_bps cfg then act_bind (new_cells (tx_bps cfg)) (\<lambda>b. act_of (Inr (Some b)))
       else act_of (Inr None)) (\<lambda>brutal.
     act_bind (on_net (build_endpoint (env_quinn env) rng1 crypto brutal (quic cfg) ob hop canon)) (\<lambda>ep.
     act_bind (on_net (act_call Connect (ep_connect env ep canon server_name))) (\<lambda>c.
     act_bind (on_net (act_call Connection (connecting env c))) (\<lambda>conn.
     act_bind (on_net (authenticate env rng2 conn cfg)) (\<lambda>au.
     \<lambda>h. Some (h\<lparr>cells_of := reconcile cfg brutal au (cells_of h)\<rparr>,
       Inr (client_new conn ep (fast_open cfg) (udp_enabled au) (server_rx au)))))))))))))"

section \<open>What a successful call has done\<close>

lemma on_net_Inr_iff:
  "on_net m h = Some (h', Inr a) \<longleftrightarrow> (\<exists>n. m (net_of h) = Some (n, Inr a) \<and> h' = h\<lparr>net_of := n\<rparr>)"
  by (auto simp: on_net_def)

lemma first_port: "parse_ports spec = Some ports \<Longrightarrow> index ports 0 = Some (hd ports)"
  using parse_ports_strict(1) [of spec ports] by (simp add: index_def hd_conv_nth)

definition hop_of :: "config \<Rightarrow> ip_addr \<Rightarrow> u16 list \<Rightarrow> hop_config option" where
  "hop_of cfg ip ports =
     (if length ports \<le> 1 then None
      else Some \<lparr>hc_addrs = map (SocketAddr ip) ports, interval_min = from_secs (fst (hop_interval cfg)),
        interval_max = from_secs (snd (hop_interval cfg))\<rparr>)"

lemma resolve_endpoint_found:
  assumes "resolve_endpoint env cfg n = Some (n', Inr (canon, hop))"
  obtains spec ports found where "port_spec cfg = Inr spec" "parse_ports spec = Some ports"
    "lookup_host env (host_part cfg) (hd ports) n = (n', Inr found)" "found \<noteq> []"
    "canon = SocketAddr (addr_ip (hd found)) (hd ports)" "hop = hop_of cfg (addr_ip canon) ports"
proof -
  from assms obtain spec ports p found ip where r: "port_spec cfg = Inr spec" "parse_ports spec = Some ports"
    "index ports 0 = Some p" "lookup_host env (host_part cfg) p n = (n', Inr found)"
    "(case found of [] \<Rightarrow> None | a # _ \<Rightarrow> Some (addr_ip a)) = Some ip"
    "(canon, hop) = (SocketAddr ip p, hop_of cfg ip ports)"
    unfolding resolve_endpoint_def Let_def hop_of_def
    by (auto simp: act_Inr_iff ok_or_Inr_iff split_beta split: if_splits)
  then show ?thesis using that first_port [OF r(2)] by (cases found) simp_all
qed

lemma resolve_endpoint_Inr:
  assumes "resolve_endpoint env cfg n = Some (n', Inr (canon, hop))"
  obtains spec ports where "port_spec cfg = Inr spec" "parse_ports spec = Some ports" "addr_port canon = hd ports"
    "hop = hop_of cfg (addr_ip canon) ports"
  using resolve_endpoint_found [OF assms] by (metis socket_addr.sel(2))

lemma hop_interval_bounds:
  "5 \<le> unat (fst (hop_interval cfg))" "unat (fst (hop_interval cfg)) \<le> unat (snd (hop_interval cfg))"
proof -
  have "MIN_HOP_INTERVAL_SECS \<le> fst (hop_interval cfg)" "fst (hop_interval cfg) \<le> snd (hop_interval cfg)"
    by (auto simp: hop_interval_def Let_def MIN_HOP_INTERVAL_SECS_def DEFAULT_HOP_INTERVAL_SECS_def)
  then show "5 \<le> unat (fst (hop_interval cfg))" "unat (fst (hop_interval cfg)) \<le> unat (snd (hop_interval cfg))"
    by (simp_all add: word_le_nat_alt MIN_HOP_INTERVAL_SECS_def)
qed

lemma resolve_endpoint_total: "resolve_endpoint env cfg n \<noteq> None"
  by (auto simp: resolve_endpoint_def Let_def act_bind_def act_run_def act_call_def ok_or_def split_beta
      split: option.splits sum.splits list.splits dest: first_port)

lemma build_endpoint_Inr:
  assumes "build_endpoint q rng crypto brutal qp ob hop canon n = Some (n', Inr ep)"
  shows "ep_crypto ep = crypto \<and> transport_config q brutal qp = Some (ep_transport ep) \<and>
    (\<exists>k w. hop_socket_new rng k canon ob hop = Some w \<and>
      ep_socket ep = (case w of Some s \<Rightarrow> Inl s | None \<Rightarrow> Inr k))"
proof -
  from assms obtain k w tc where "hop_socket_new rng k canon ob hop = Some w" "transport_config q brutal qp = Some tc"
    "ep_crypto ep = crypto" "ep_transport ep = tc" "ep_socket ep = (case w of Some s \<Rightarrow> Inl s | None \<Rightarrow> Inr k)"
    by (auto simp: build_endpoint_def Let_def act_Inr_iff)
  then show ?thesis by blast
qed

lemma transport_config_factory:
  assumes "transport_config q brutal qp = Some t"
  shows "controller_factory t = (case brutal of Some (r, f) \<Rightarrow> SwitchableCC \<lparr>sf_rate = r, sf_use_bbr = f\<rparr> | None \<Rightarrow> BbrCC)"
  using assms by (auto simp: transport_config_def Let_def split: Option.bind_splits option.splits prod.splits)

text \<open>
  The server's answer: \<open>resp\<close> is what came back, on connection \<open>conn\<close> and with the network then in
  state \<open>n'\<close>, to an authentication request made from the configuration.
\<close>

definition answered :: "('n, 'k, 'w) net_env \<Rightarrow> config \<Rightarrow> nat \<Rightarrow> 'n \<Rightarrow> http_response \<Rightarrow> bool" where
  "answered env cfg conn n' resp \<longleftrightarrow>
     (\<exists>n1 n2 n3 n4 sr pad req stream.
        h3_client_new env conn n1 = (n2, Inr sr) \<and> request_body env (auth_request cfg pad) = Inr req \<and>
        h3_send_request env sr req n2 = (n3, Inr stream) \<and> h3_finish env stream n3 = (n4, Inr ()) \<and>
        h3_recv_response env stream n4 = (n', Inr resp))"

lemma authenticate_Inr:
  assumes "authenticate env rng conn cfg n = Some (n', Inr au)"
  obtains resp where "answered env cfg conn n' resp" "read_auth_response resp = Inr au"
proof -
  have "\<exists>resp. answered env cfg conn n' resp \<and> read_auth_response resp = Inr au"
    using assms unfolding answered_def by (auto simp: authenticate_def act_Inr_iff map_err_Inr_iff) blast
  then show ?thesis using that by blast
qed

text \<open>Which of the steps can panic at all.\<close>

lemma on_net_total [simp]: "act_total (on_net m) \<longleftrightarrow> act_total m"
proof
  assume "act_total (on_net m)"
  then have "on_net m \<lparr>net_of = n, cells_of = undefined\<rparr> \<noteq> None" for n by (simp only: act_total_def) blast
  then show "act_total m" by (auto simp: act_total_def on_net_def)
qed (simp add: act_total_def on_net_def)

lemma hop_socket_new_total: "hop_socket_new rng k canon ob hop \<noteq> None"
  by (auto simp: hop_socket_new_def random_range_def split: option.splits)

lemma build_endpoint_total:
  "transport_config q brutal qp \<noteq> None \<Longrightarrow> act_total (build_endpoint q rng crypto brutal qp ob hop canon)"
  unfolding build_endpoint_def Let_def by (intro act_total_bind) (simp_all add: hop_socket_new_total)

lemma authenticate_total: "rng_ok rng \<Longrightarrow> act_total (authenticate env rng conn cfg)"
  unfolding authenticate_def using random_padding_range [of rng 256 2048]
  by (intro act_total_bind) (auto simp: auth_request_padding_def)

lemma transport_config_total:
  "quinn_ok q \<Longrightarrow> max_idle_timeout qp div 1000000 < 2 ^ 62 \<Longrightarrow> transport_config q brutal qp \<noteq> None"
  by (auto simp only: transport_config_def Let_def quinn_ok_def bind.bind_lunit if_True option.distinct)

lemma connect_total:
  assumes "quinn_ok (env_quinn env)" and "rng_ok rng2" and "is_ascii (pin_sha256 cfg)"
    and "max_idle_timeout (quic cfg) div 1000000 < 2 ^ 62"
  shows "act_total (connect env rng1 rng2 cfg)"
proof -
  have "act_total (resolve_endpoint env cfg)" by (simp add: act_total_def resolve_endpoint_total)
  moreover have "act_total (new_cells tx)" for tx by (simp add: act_total_def new_cells_def Let_def)
  moreover have "act_total (build_endpoint (env_quinn env) rng1 cr brutal (quic cfg) ob hop a)" for cr brutal ob hop a
    by (rule build_endpoint_total [OF transport_config_total [OF assms(1,4)]])
  ultimately show ?thesis
    unfolding connect_def Let_def
    by (auto simp: split_beta parse_pin_ascii_total assms intro!: act_total_bind authenticate_total)
qed

text \<open>The controls of a connection, and the cells before and after the handshake.\<close>

definition controls :: "config \<Rightarrow> cells \<Rightarrow> brutal_control option" where
  "controls cfg cs = (if 0 < tx_bps cfg then Some (next_cell cs, next_cell cs) else None)"

definition first_cells :: "config \<Rightarrow> cells \<Rightarrow> cells" where
  "first_cells cfg cs =
     (if 0 < tx_bps cfg
      then \<lparr>rate_at = (rate_at cs)(next_cell cs := tx_bps cfg), flag_at = (flag_at cs)(next_cell cs := False),
        next_cell = next_cell cs + 1\<rparr>
      else cs)"

definition obfs_of :: "config \<Rightarrow> salamander option" where
  "obfs_of cfg = (if obfs_password cfg = [] then None else Some \<lparr>psk = obfs_password cfg\<rparr>)"

lemma obfs_choice:
  "(if obfs_password cfg = [] then Inr None
    else and_then (ok_or e (salamander_new (obfs_password cfg))) (\<lambda>s. Inr (Some s))) = Inr ob \<longleftrightarrow>
   (obfs_password cfg = [] \<or> 4 \<le> length (obfs_password cfg)) \<and> ob = obfs_of cfg"
  by (auto simp: salamander_new_def obfs_of_def)

lemma controls_choice:
  "(if 0 < tx_bps cfg then act_bind (new_cells (tx_bps cfg)) (\<lambda>b. act_of (Inr (Some b))) else act_of (Inr None)) h =
   Some (h\<lparr>cells_of := first_cells cfg (cells_of h)\<rparr>, Inr (controls cfg (cells_of h)))"
  by (simp add: new_cells_def act_bind_def first_cells_def controls_def Let_def)

lemma connect_Inr:
  assumes "connect env rng1 rng2 cfg h = Some (h', Inr cl)"
  obtains n canon hop pin conn au n1 n2 where
    "resolve_endpoint env cfg (net_of h) = Some (n, Inr (canon, hop))"
    "obfs_password cfg = [] \<or> 4 \<le> length (obfs_password cfg)"
    "parse_pin (pin_sha256 cfg) = Some (Inr pin)"
    "build_client_config (env_tls env) (insecure cfg) pin (ca_pem cfg) = Inr (ep_crypto (hy_endpoint cl))"
    "transport_config (env_quinn env) (controls cfg (cells_of h)) (quic cfg) = Some (ep_transport (hy_endpoint cl))"
    "\<exists>k w. hop_socket_new rng1 k canon (obfs_of cfg) hop = Some w \<and>
      ep_socket (hy_endpoint cl) = (case w of Some s \<Rightarrow> Inl s | None \<Rightarrow> Inr k)"
    "authenticate env rng2 conn cfg n1 = Some (n2, Inr au)"
    "cells_of h' = reconcile cfg (controls cfg (cells_of h)) au (first_cells cfg (cells_of h))"
    "cl = client_new conn (hy_endpoint cl) (fast_open cfg) (udp_enabled au) (server_rx au)"
    "net_of h' = n2"
proof -
  from assms obtain n ch canon hop ob pin crypto h1 brutal n2 ep n4 conn n5 au where
    r: "resolve_endpoint env cfg (net_of h) = Some (n, Inr ch)" and ch: "canon = fst ch" "hop = snd ch" and
    ob: "(if obfs_password cfg = [] then Inr None else and_then
      (ok_or (Config (str ''obfs password must be at least 4 bytes'')) (salamander_new (obfs_password cfg)))
        (\<lambda>s. Inr (Some s))) = Inr ob" and
    pin: "parse_pin (pin_sha256 cfg) = Some (Inr pin)" and
    cr: "build_client_config (env_tls env) (insecure cfg) pin (ca_pem cfg) = Inr crypto" and
    br: "(if 0 < tx_bps cfg then act_bind (new_cells (tx_bps cfg)) (\<lambda>b. act_of (Inr (Some b)))
      else act_of (Inr None)) (h\<lparr>net_of := n\<rparr>) = Some (h1, Inr brutal)" and
    ep: "build_endpoint (env_quinn env) rng1 crypto brutal (quic cfg) ob hop canon (net_of h1) = Some (n2, Inr ep)" and
    au: "authenticate env rng2 conn cfg n4 = Some (n5, Inr au)" and
    h': "cells_of h' = reconcile cfg brutal au (cells_of h1)" "net_of h' = n5" and
    cl: "cl = client_new conn ep (fast_open cfg) (udp_enabled au) (server_rx au)"
    unfolding connect_def Let_def
  proof (auto simp only: act_bind_Inr_iff on_net_Inr_iff act_run_Inr_iff act_of_Inr_iff act_call_Inr_iff
      case_prod_beta option.inject prod.inject sum.inject host.simps, goal_cases)
    case 1
    show ?case by (rule 1(1)) (assumption | rule refl conjI 1 | simp)+
  qed
  have b: "brutal = controls cfg (cells_of h)" "cells_of h1 = first_cells cfg (cells_of h)"
    using br unfolding controls_choice by auto
  have o: "obfs_password cfg = [] \<or> 4 \<le> length (obfs_password cfg)" "ob = obfs_of cfg"
    using ob unfolding obfs_choice by auto
  have e: "hy_endpoint cl = ep" by (simp add: cl client_new_def)
  show ?thesis
    by (rule that [of n canon hop pin conn n4 n5 au, OF _ o(1) pin])
      (use build_endpoint_Inr [OF ep] r ch cr au h' cl b o e in auto)
qed

text \<open>What the client and its controller were given.\<close>

lemma connect_cells:
  assumes "connect env rng1 rng2 cfg h = Some (h', Inr cl)"
  shows "\<exists>resp au. answered env cfg (hy_conn cl) (net_of h') resp \<and> read_auth_response resp = Inr au \<and>
    hy_server_rx cl = server_rx au \<and>
    (hy_udp_sm cl \<noteq> None \<longleftrightarrow> udp_enabled au) \<and> hy_fast_open cl = fast_open cfg \<and>
    (if tx_bps cfg = 0 then controller_factory (ep_transport (hy_endpoint cl)) = BbrCC \<and> cells_of h' = cells_of h
     else \<exists>a. a = next_cell (cells_of h) \<and>
       controller_factory (ep_transport (hy_endpoint cl)) = SwitchableCC \<lparr>sf_rate = a, sf_use_bbr = a\<rparr> \<and>
       flag_at (cells_of h') a = rx_auto au \<and>
       rate_at (cells_of h') a =
         (if \<not> rx_auto au \<and> 0 < server_rx au then min (tx_bps cfg) (server_rx au) else tx_bps cfg) \<and>
       (\<forall>b. b \<noteq> a \<longrightarrow> rate_at (cells_of h') b = rate_at (cells_of h) b \<and> flag_at (cells_of h') b = flag_at (cells_of h) b))"
  using assms
proof (rule connect_Inr)
  fix n canon hop pin conn au n1 n2
  assume tc: "transport_config (env_quinn env) (controls cfg (cells_of h)) (quic cfg) = Some (ep_transport (hy_endpoint cl))"
    and au: "authenticate env rng2 conn cfg n1 = Some (n2, Inr au)"
    and cs: "cells_of h' = reconcile cfg (controls cfg (cells_of h)) au (first_cells cfg (cells_of h))"
    and cl: "cl = client_new conn (hy_endpoint cl) (fast_open cfg) (udp_enabled au) (server_rx au)" and n2: "net_of h' = n2"
  obtain resp where resp: "answered env cfg conn n2 resp" "read_auth_response resp = Inr au"
    using au by (rule authenticate_Inr)
  have "hy_conn cl = conn" by (subst cl) (simp add: client_new_def)
  moreover have "hy_server_rx cl = server_rx au" "hy_udp_sm cl \<noteq> None \<longleftrightarrow> udp_enabled au" "hy_fast_open cl = fast_open cfg"
    by (subst cl, simp add: client_new_def)+
  ultimately show ?thesis
    using transport_config_factory [OF tc] cs resp n2
    by (intro exI [of _ resp] exI [of _ au])
      (auto simp: controls_def first_cells_def reconcile_def word_neq_0_conv [symmetric])
qed

section \<open>A concrete world\<close>

text \<open>
  A network in which everything succeeds and the server answers with a given response: its
  state is the number of the next connection.
\<close>

definition lab_env :: "http_response \<Rightarrow> (nat, unit, bytes list) net_env" where
  "lab_env resp =
     \<lparr>env_tls = sample_env, env_quinn = lab_quinn,
      lookup_host = (\<lambda>host port n. (n, Inr [SocketAddr (V4 9) port])),
      ep_connect = (\<lambda>ep a name n. (n, Inr 0)), connecting = (\<lambda>c n. (n + 1, Inr n)),
      h3_client_new = (\<lambda>c n. (n, Inr 0)), request_body = Inr, h3_send_request = (\<lambda>s r n. (n, Inr 0)),
      h3_finish = (\<lambda>s n. (n, Inr ())), h3_recv_response = (\<lambda>s n. (n, Inr resp))\<rparr>"

lemma lab_answered: "answered (lab_env R) cfg conn n resp \<Longrightarrow> resp = R"
  by (auto simp: answered_def lab_env_def)

definition lab_response :: "bytes \<Rightarrow> http_response" where
  "lab_response rx = \<lparr>resp_status = 233, resp_header =
     (\<lambda>name. if name = str ''Hysteria-CC-RX'' then Some rx else if name = str ''Hysteria-UDP'' then Some (str ''true'') else None)\<rparr>"

definition lab_config :: config where
  "lab_config = config_default\<lparr>server_addr := str ''h:443'', tx_bps := 1000\<rparr>"

definition lab_host :: "nat host" where
  "lab_host = \<lparr>net_of = 7, cells_of = \<lparr>rate_at = (\<lambda>_. 0), flag_at = (\<lambda>_. False), next_cell = 5\<rparr>\<rparr>"

definition lab_rng :: rng where "lab_rng = (\<lambda>i m. 0)"

lemma lab_rng_ok: "rng_ok lab_rng"
  by (simp add: rng_ok_def lab_rng_def)

lemma lab_ports: "parse_ports (str ''443'') = Some [443]"
proof -
  have d: "str ''443'' = dec_string (unat (443 :: u16))" by (simp add: dec_string.simps byte_def)
  have "trim (str ''443'') = str ''443''" "parse_u16 (str ''443'') = Some 443" unfolding d by (rule trim_dec, rule parse_u16_dec)
  moreover have "split_once (of_char CHR ''-'') (str ''443'') = None" "split_on (of_char CHR '','') (str ''443'') = [str ''443'']"
    by simp_all
  ultimately have "collect_ports [] (split_on (of_char CHR '','') (str ''443'')) = Some [443]"
    by (simp only: part_ports_def collect_ports.simps) simp
  then show ?thesis unfolding parse_ports_def by (simp only: bind.bind_lunit) simp
qed

definition lab_obfs :: "bytes \<Rightarrow> config" where
  "lab_obfs key = lab_config\<lparr>obfs_password := key\<rparr>"

lemma lab_obfs_none: "lab_obfs [] = lab_config"
  by (simp add: lab_obfs_def lab_config_def config_default_def)

lemma lab_resolve: "resolve_endpoint (lab_env resp) (lab_obfs key) n = Some (n, Inr (SocketAddr (V4 9) 443, None))"
proof -
  have "port_spec (lab_obfs key) = Inr (str ''443'')"
    by (simp add: port_spec_def lab_obfs_def lab_config_def config_default_def rsplit_once_def)
  then show ?thesis
    by (simp add: resolve_endpoint_def lab_ports [simplified] Let_def act_call_def act_bind_def lab_env_def)
qed

lemma lab_auth:
  "authenticate (lab_env (lab_response rx)) lab_rng c cfg n = Some (n, read_auth_response (lab_response rx))"
proof -
  obtain pad where "auth_request_padding lab_rng = Some pad"
    using random_padding_range [OF lab_rng_ok, of 256 2048] by (auto simp: auth_request_padding_def)
  then show ?thesis by (simp add: authenticate_def act_call_def act_bind_def lab_env_def)
qed

lemma lab_connect_obfs:
  assumes "key = [] \<or> 4 \<le> length key"
  shows "\<exists>h' cl. connect (lab_env (lab_response rx)) lab_rng lab_rng (lab_obfs key) lab_host = Some (h', Inr cl)"
proof -
  let ?cfg = "lab_obfs key" and ?env = "lab_env (lab_response rx)" and ?cs = "cells_of lab_host"
  have c: "pin_sha256 ?cfg = []" "0 < tx_bps ?cfg" "obfs_password ?cfg = key"
    by (simp_all add: lab_obfs_def lab_config_def config_default_def)
  have ob: "(if obfs_password ?cfg = [] then Inr None
      else and_then (ok_or e (salamander_new (obfs_password ?cfg))) (\<lambda>s. Inr (Some s))) = Inr (obfs_of ?cfg)" for e :: error
    unfolding obfs_choice using assms c(3) by simp
  obtain crypto where cr: "build_client_config (env_tls ?env) (insecure ?cfg) None (ca_pem ?cfg) = Inr crypto"
    by (simp add: build_client_config_def build_roots_def lab_env_def sample_env_def lab_obfs_def lab_config_def config_default_def)
  have "idle_timeout_try_from (lab_quinn :: (nat, unit, bytes list) quinn_env) (max_idle_timeout (quic ?cfg)) = Some 30000"
    by (simp add: lab_quinn_def lab_obfs_def lab_config_def config_default_def quic_params_default_def from_secs_def)
  then obtain tc where tc: "transport_config (env_quinn ?env) (controls ?cfg ?cs) (quic ?cfg) = Some tc"
    by (auto simp: transport_config_def lab_env_def Let_def)
  obtain w where "hop_socket_new lab_rng () (SocketAddr (V4 9) 443) (obfs_of ?cfg) None = Some w"
    using hop_socket_new_total [of lab_rng "()" _ "obfs_of ?cfg" None] by fast
  then obtain ep where ep: "build_endpoint (env_quinn ?env) lab_rng crypto (controls ?cfg ?cs) (quic ?cfg) (obfs_of ?cfg) None
      (SocketAddr (V4 9) 443) 7 = Some (7, Inr ep)"
    using tc by (simp add: build_endpoint_def act_bind_def act_call_def act_run_def lab_env_def lab_quinn_def Let_def)
  have au: "\<exists>au. read_auth_response (lab_response rx) = Inr au"
    by (simp add: read_auth_response_def lab_response_def STATUS_AUTH_OK_def split_beta)
  have n: "ep_connect ?env ep a name n = (n, Inr 0)" "connecting ?env k n = (n + 1, Inr n)" for ep a name n k
    by (simp_all add: lab_env_def)
  show ?thesis
    using cr ep au c(1,2) unfolding connect_def Let_def ob
    by (auto simp: act_bind_def on_net_def act_call_def lab_resolve lab_auth lab_host_def parse_pin_def new_cells_def
        controls_def Let_def n)
qed

lemmas lab_connect = lab_connect_obfs [of "[]", unfolded lab_obfs_none, simplified]

section \<open>Properties\<close>

text \<open>
  C21. Resolving a server never panics, and where it succeeds the address to dial and the hop
  set agree: the dialled port is the smallest port of the specification, which is \<open>hop_ports\<close>
  when that is set, all addresses have the dialled IP, there is a hop set exactly when there are
  two or more ports, and its interval is well-formed and not below five seconds.
\<close>

theorem resolve_endpoint_result:
  "resolve_endpoint env cfg n \<noteq> None \<and>
   (\<forall>n' canon hop. resolve_endpoint env cfg n = Some (n', Inr (canon, hop)) \<longrightarrow>
     (\<exists>spec ports. port_spec cfg = Inr spec \<and> (hop_ports cfg \<noteq> [] \<longrightarrow> spec = hop_ports cfg) \<and>
       parse_ports spec = Some ports \<and> addr_port canon \<in> set ports \<and> (\<forall>p\<in>set ports. addr_port canon \<le> p) \<and>
       (case hop of
          None \<Rightarrow> ports = [addr_port canon]
        | Some c \<Rightarrow> 2 \<le> length ports \<and> hc_addrs c = map (SocketAddr (addr_ip canon)) ports \<and>
            distinct (hc_addrs c) \<and> 5000000000 \<le> interval_min c \<and> interval_min c \<le> interval_max c)))"
proof (intro conjI allI impI resolve_endpoint_total)
  fix n' canon hop
  assume "resolve_endpoint env cfg n = Some (n', Inr (canon, hop))"
  then obtain spec ports where r: "port_spec cfg = Inr spec" "parse_ports spec = Some ports" "addr_port canon = hd ports"
    "hop = hop_of cfg (addr_ip canon) ports" by (rule resolve_endpoint_Inr)
  obtain p ps where ps: "ports = p # ps" "sorted_wrt (<) ports" using parse_ports_strict [OF r(2)] by (cases ports) auto
  have "distinct ports" using ps(2) by (simp add: strict_sorted_iff)
  then have d: "distinct (map (SocketAddr (addr_ip canon)) ports)" by (simp add: distinct_map inj_on_def)
  have i: "5000000000 \<le> from_secs (fst (hop_interval cfg))" "from_secs (fst (hop_interval cfg)) \<le> from_secs (snd (hop_interval cfg))"
    using hop_interval_bounds [of cfg] by (simp_all add: from_secs_def)
  have "case hop of None \<Rightarrow> ports = [addr_port canon]
      | Some c \<Rightarrow> 2 \<le> length ports \<and> hc_addrs c = map (SocketAddr (addr_ip canon)) ports \<and>
          distinct (hc_addrs c) \<and> 5000000000 \<le> interval_min c \<and> interval_min c \<le> interval_max c"
    using r(3,4) ps d i by (cases ps) (auto simp: hop_of_def)
  moreover have "hop_ports cfg \<noteq> [] \<longrightarrow> spec = hop_ports cfg" using r(1) by (auto simp: port_spec_def)
  moreover have "addr_port canon \<in> set ports \<and> (\<forall>p\<in>set ports. addr_port canon \<le> p)" using r(3) ps by auto
  ultimately show "\<exists>spec ports. port_spec cfg = Inr spec \<and> (hop_ports cfg \<noteq> [] \<longrightarrow> spec = hop_ports cfg) \<and>
       parse_ports spec = Some ports \<and> addr_port canon \<in> set ports \<and> (\<forall>p\<in>set ports. addr_port canon \<le> p) \<and>
       (case hop of
          None \<Rightarrow> ports = [addr_port canon]
        | Some c \<Rightarrow> 2 \<le> length ports \<and> hc_addrs c = map (SocketAddr (addr_ip canon)) ports \<and>
            distinct (hc_addrs c) \<and> 5000000000 \<le> interval_min c \<and> interval_min c \<le> interval_max c)"
    using r(1,2) by blast
qed

theorem resolve_endpoint_result_witness:
  "\<exists>spec. port_spec lab_config = Inr spec \<and> parse_ports spec = Some [443]"
proof -
  have "\<exists>spec ports. port_spec lab_config = Inr spec \<and> parse_ports spec = Some ports \<and> ports = [443]"
    using resolve_endpoint_result [of "lab_env (lab_response [])" lab_config 0] lab_resolve [of "lab_response []" "[]" 0, unfolded lab_obfs_none] by fastforce
  then show ?thesis by blast
qed

text \<open>The wildcard specifications start at port 0, so that port 0 is the one dialled.\<close>

lemma wildcard_dials_port_zero:
  assumes "hop_ports cfg = str ''*'' \<or> hop_ports cfg = str ''all''"
    and "resolve_endpoint env cfg n = Some (n', Inr (canon, hop))"
  shows "addr_port canon = 0"
proof -
  from assms(2) obtain spec ports where r: "port_spec cfg = Inr spec" "parse_ports spec = Some ports" "addr_port canon = hd ports"
    by (rule resolve_endpoint_Inr)
  then have "ports = port_range 0 65535" using assms(1) by (auto simp: port_spec_def parse_ports_def)
  then show ?thesis using r(3) port_range_all(2) by simp
qed

text \<open>
  C17. The upload rate agreed with the server, in its answer to the authentication request on this
  client's connection. After a successful \<open>connect\<close> with an upload cap,
  the endpoint's controller factory reads two cells that no earlier connection has: the flag is
  set exactly when the server answered \<open>auto\<close>, and the rate is the smaller of the cap and the
  server's rate when it gave one, and the cap itself otherwise. Cells of other connections are
  unchanged. Without a cap the controller is BBR, and the cells are left alone.
\<close>

theorem connect_agrees_rate:
  assumes "connect env rng1 rng2 cfg h = Some (h', Inr cl)"
  shows "\<exists>resp au. answered env cfg (hy_conn cl) (net_of h') resp \<and> read_auth_response resp = Inr au \<and>
    hy_server_rx cl = server_rx au \<and>
    (hy_udp_sm cl \<noteq> None \<longleftrightarrow> udp_enabled au) \<and> hy_fast_open cl = fast_open cfg \<and>
    (if tx_bps cfg = 0 then controller_factory (ep_transport (hy_endpoint cl)) = BbrCC \<and> cells_of h' = cells_of h
     else \<exists>a. a = next_cell (cells_of h) \<and>
       controller_factory (ep_transport (hy_endpoint cl)) = SwitchableCC \<lparr>sf_rate = a, sf_use_bbr = a\<rparr> \<and>
       flag_at (cells_of h') a = rx_auto au \<and>
       rate_at (cells_of h') a =
         (if \<not> rx_auto au \<and> 0 < server_rx au then min (tx_bps cfg) (server_rx au) else tx_bps cfg) \<and>
       (\<forall>b. b \<noteq> a \<longrightarrow> rate_at (cells_of h') b = rate_at (cells_of h) b \<and> flag_at (cells_of h') b = flag_at (cells_of h) b))"
  by (rule connect_cells [OF assms])

theorem connect_agrees_rate_witness:
  "\<exists>h' (cl :: (unit, bytes list, queue_chan) hysteria_client).
     connect (lab_env (lab_response (str ''600''))) lab_rng lab_rng lab_config lab_host = Some (h', Inr cl) \<and>
     hy_server_rx cl = 600 \<and> rate_at (cells_of h') 5 = 600 \<and> \<not> flag_at (cells_of h') 5"
proof -
  define R where "R = lab_response (str ''600'')"
  obtain h' and cl :: "(unit, bytes list, queue_chan) hysteria_client"
    where c: "connect (lab_env R) lab_rng lab_rng lab_config lab_host = Some (h', Inr cl)"
    unfolding R_def using lab_connect by blast
  have "str ''600'' = dec_string (unat (600 :: u64))" by (simp add: dec_string.simps byte_def)
  then have p: "parse_u64 (str ''600'') = Some 600" by (simp only: parse_u64_dec)
  have au: "read_auth_response R = Inr \<lparr>udp_enabled = True, server_rx = 600, rx_auto = False\<rparr>"
    using p by (simp add: R_def read_auth_response_def lab_response_def STATUS_AUTH_OK_def)
  have "tx_bps lab_config = 1000" "next_cell (cells_of lab_host) = 5"
    by (simp_all add: lab_config_def config_default_def lab_host_def)
  then have "hy_server_rx cl = 600 \<and> rate_at (cells_of h') 5 = 600 \<and> \<not> flag_at (cells_of h') 5"
    using connect_agrees_rate [OF c] by (auto simp: au min_def dest!: lab_answered)
  then show ?thesis using c unfolding R_def by blast
qed

text \<open>
  C23. What both sides of the handshake mean by a rate. The request carries the client's rate so
  that the server's decimal reader gets it back, with the configured secret and between 256 and
  2047 bytes of padding; a response with a decimal rate is read back as that rate, \<open>auto\<close> as
  the request to use BBR, and any status but 233 is the authentication error with that status.
\<close>

theorem auth_exchange:
  assumes "rng_ok rng"
  shows "\<exists>pad. auth_request_padding rng = Some pad \<and> 256 \<le> length pad \<and> length pad < 2048 \<and>
    set pad \<subseteq> set PADDING_CHARS \<and>
    map_of (req_headers (auth_request cfg pad)) (str ''Hysteria-Auth'') = Some (auth cfg) \<and>
    Option.bind (map_of (req_headers (auth_request cfg pad)) (str ''Hysteria-CC-RX'')) parse_u64 = Some (rx_bps cfg) \<and>
    map_of (req_headers (auth_request cfg pad)) (str ''Hysteria-Padding'') = Some pad \<and>
    (\<forall>resp rx. resp_status resp = 233 \<and> resp_header resp (str ''Hysteria-CC-RX'') = Some (dec_string (unat rx)) \<longrightarrow>
       (\<exists>au. read_auth_response resp = Inr au \<and> server_rx au = rx \<and> \<not> rx_auto au)) \<and>
    (\<forall>resp. resp_status resp = 233 \<and> resp_header resp (str ''Hysteria-CC-RX'') = Some (str ''auto'') \<longrightarrow>
       (\<exists>au. read_auth_response resp = Inr au \<and> server_rx au = 0 \<and> rx_auto au)) \<and>
    (\<forall>resp. resp_status resp \<noteq> 233 \<longrightarrow> read_auth_response resp = Inl (AuthFailed (resp_status resp)))"
proof -
  obtain pad where pad: "auth_request_padding rng = Some pad" "set pad \<subseteq> set PADDING_CHARS" "256 \<le> length pad" "length pad < 2048"
    using random_padding_range [OF assms, of 256 2048] by (auto simp: auth_request_padding_def)
  have "dec_string n \<noteq> str ''auto''" for n
    using dec_string_digits [of "of_char CHR ''u''" n] by (auto simp: is_digit_def)
  then have rx: "\<exists>au. read_auth_response resp = Inr au \<and> server_rx au = rx \<and> \<not> rx_auto au"
    if "resp_status resp = 233" "resp_header resp (str ''Hysteria-CC-RX'') = Some (dec_string (unat rx))" for resp rx
    using that by (simp add: read_auth_response_def STATUS_AUTH_OK_def Let_def)
  have auto: "\<exists>au. read_auth_response resp = Inr au \<and> server_rx au = 0 \<and> rx_auto au"
    if "resp_status resp = 233" "resp_header resp (str ''Hysteria-CC-RX'') = Some (str ''auto'')" for resp
    using that by (simp add: read_auth_response_def STATUS_AUTH_OK_def Let_def)
  show ?thesis
    using pad rx auto by (intro exI [of _ pad]) (simp add: auth_request_def read_auth_response_def STATUS_AUTH_OK_def)
qed

theorem auth_exchange_witness:
  "\<exists>pad. auth_request_padding lab_rng = Some pad \<and> 256 \<le> length pad \<and>
     (\<exists>au. read_auth_response (lab_response (dec_string (unat (600 :: u64)))) = Inr au \<and> server_rx au = 600)"
proof -
  have "resp_status (lab_response r) = 233 \<and> resp_header (lab_response r) (str ''Hysteria-CC-RX'') = Some r" for r
    by (simp add: lab_response_def)
  then show ?thesis using auth_exchange [OF lab_rng_ok, of lab_config] by blast
qed

text \<open>
  C22. Connecting does not panic, whatever the network answers, as long as the configured pin is
  ASCII and the idle timeout is below \<open>2 ^ 62\<close> milliseconds: every failure of name resolution,
  of the configuration, of TLS, of QUIC, of HTTP/3 and of authentication is returned as an error.
\<close>

theorem connect_returns:
  fixes env :: "('n, 'k, 'w) net_env"
  assumes "quinn_ok (env_quinn env)" and "rng_ok rng2" and "is_ascii (pin_sha256 cfg)"
    and "max_idle_timeout (quic cfg) div 1000000 < 2 ^ 62"
  shows "\<exists>h' (r :: ('k, 'w, 'c) hysteria_client rs_result). connect env rng1 rng2 cfg h = Some (h', r)"
proof -
  have "act_total (connect env rng1 rng2 cfg :: ('n host, ('k, 'w, 'c) hysteria_client) act)"
    by (rule connect_total [OF assms])
  then show ?thesis by (auto simp: act_total_def)
qed

theorem connect_returns_witness:
  "\<exists>h' (r :: (unit, bytes list, queue_chan) hysteria_client rs_result).
     connect (lab_env (lab_response [])) lab_rng lab_rng (lab_config\<lparr>pin_sha256 := str ''0a''\<rparr>) lab_host = Some (h', r)"
proof -
  have q: "quinn_ok (env_quinn (lab_env (lab_response [])))"
    using lab_quinn_ok by (simp add: lab_env_def)
  have "is_ascii (pin_sha256 (lab_config\<lparr>pin_sha256 := str ''0a''\<rparr>))" by (simp add: is_ascii_def)
  moreover have "max_idle_timeout (quic (lab_config\<lparr>pin_sha256 := str ''0a''\<rparr>)) div 1000000 < 2 ^ 62"
    by (simp add: lab_config_def config_default_def quic_params_default_def from_secs_def)
  ultimately show ?thesis by (rule connect_returns [OF q lab_rng_ok])
qed

end
