(* ===== verification/Hysteria_Client.thy ===== *)
theory Hysteria_Client
  imports Connect_Auth Duplex_Stream Reconnect
begin

text \<open>
  The client handle, \<^verbatim>\<open>src/src/client.rs\<close>, and its use behind the reconnecting wrapper.

  \<open>quic_ops\<close> are quinn's operations of a connection and of the sending half of a stream: \<open>'n\<close> is
  the state of the network, \<open>'s\<close> and \<open>'r\<close> the two halves of a stream. Reading is the reader \<open>rd\<close>
  of theory \<open>Duplex_Stream\<close>.
\<close>

section \<open>The code\<close>

record ('n, 's, 'r) quic_ops =
  open_bi :: "nat \<Rightarrow> 'n \<Rightarrow> 'n \<times> (bytes + 's \<times> 'r)"
  write_all :: "'s \<Rightarrow> bytes \<Rightarrow> 'n \<Rightarrow> 'n \<times> (bytes + 's)"
  flush :: "'s \<Rightarrow> 'n \<Rightarrow> 'n \<times> (bytes + 's)"
  close_reason :: "nat \<Rightarrow> 'n \<Rightarrow> bytes option"
  quic_close :: "nat \<Rightarrow> u32 \<Rightarrow> bytes \<Rightarrow> 'n \<Rightarrow> 'n"

text \<open>\<open>None\<close>: the response is never complete and \<open>establish\<close> waits forever.\<close>

definition client_tcp_connect ::
    "('n, 's, 'r) quic_ops \<Rightarrow> 'r reader \<Rightarrow> rng \<Rightarrow> ('k, 'w, 'c) hysteria_client \<Rightarrow> bytes \<Rightarrow>
     ('n, ('s, 'r) duplex_stream) act" where
  "client_tcp_connect q rd rng self address =
     act_bind (act_call Connection (open_bi q (hy_conn self))) (\<lambda>(send, recv).
     act_bind (act_run (map_option Inr (encode_tcp_request rng address))) (\<lambda>req.
     act_bind (act_call (\<lambda>e. Io (io_error_new Other e)) (write_all q send req)) (\<lambda>send.
     act_bind (act_call (\<lambda>e. Io (io_error_new Other e)) (flush q send)) (\<lambda>send.
     let stream = duplex_new send recv in
     if \<not> hy_fast_open self then
       act_run (map_option (\<lambda>(stream, r). and_then (map_err Io r) (\<lambda>_. Inr stream)) (establish rd stream))
     else act_of (Inr stream)))))"

definition client_udp ::
    "'c chan_ops \<Rightarrow> ('k, 'w, 'c) hysteria_client \<Rightarrow> ('k, 'w, 'c) hysteria_client \<times> udp_session rs_result" where
  "client_udp ops self =
     (case hy_udp_sm self of
        Some sm \<Rightarrow> (case new_session ops sm of (sm, s) \<Rightarrow> (self\<lparr>hy_udp_sm := Some sm\<rparr>, Inr s))
      | None \<Rightarrow> (self, Inl (Protocol (str ''UDP relay not enabled by server''))))"

definition client_udp_enabled :: "('k, 'w, 'c) hysteria_client \<Rightarrow> bool" where
  "client_udp_enabled self \<longleftrightarrow> hy_udp_sm self \<noteq> None"

definition client_server_rx :: "('k, 'w, 'c) hysteria_client \<Rightarrow> u64" where
  "client_server_rx self = hy_server_rx self"

definition client_connection :: "('k, 'w, 'c) hysteria_client \<Rightarrow> nat" where
  "client_connection self = hy_conn self"

definition client_drop :: "('n, 's, 'r) quic_ops \<Rightarrow> ('k, 'w, 'c) hysteria_client \<Rightarrow> 'n \<Rightarrow> 'n" where
  "client_drop q self = quic_close q (hy_conn self) 0x100 []"

section \<open>Clients behind the wrapper\<close>

text \<open>
  What the wrapper's operations (theory \<open>Reconnect\<close>) are: the clients that exist, by number, the
  state of the program and the network, and the number of random sources used up. A call that
  panics or waits forever is reported as \<open>stuck\<close>, an answer no call gives otherwise.
\<close>

record ('n, 'k, 'w, 'c) fleet =
  fl_host :: "'n host"
  fl_clients :: "nat \<rightharpoonup> ('k, 'w, 'c) hysteria_client"
  fl_next :: nat
  fl_draws :: nat

record ('n, 'k, 'w, 'c, 's, 'r) setting =
  se_env :: "('n, 'k, 'w) net_env"
  se_quic :: "('n, 's, 'r) quic_ops"
  se_read :: "'r reader"
  se_chan :: "'c chan_ops"
  se_rng :: "nat \<Rightarrow> rng"
  se_config :: config

definition stuck :: error where
  "stuck = Protocol []"

definition live_dial ::
    "('n, 'k, 'w, 'c, 's, 'r) setting \<Rightarrow> ('n, 'k, 'w, 'c) fleet \<Rightarrow> ('n, 'k, 'w, 'c) fleet \<times> nat rs_result" where
  "live_dial se f =
     (let i = fl_draws f; f = f\<lparr>fl_draws := i + 2\<rparr> in
      case connect (se_env se) (se_rng se i) (se_rng se (i + 1)) (se_config se) (fl_host f) of
        None \<Rightarrow> (f, Inl stuck)
      | Some (h, Inl e) \<Rightarrow> (f\<lparr>fl_host := h\<rparr>, Inl e)
      | Some (h, Inr cl) \<Rightarrow>
          (f\<lparr>fl_host := h, fl_clients := (fl_clients f)(fl_next f \<mapsto> cl), fl_next := fl_next f + 1\<rparr>, Inr (fl_next f)))"

definition live_tcp ::
    "('n, 'k, 'w, 'c, 's, 'r) setting \<Rightarrow> ('n, 'k, 'w, 'c) fleet \<Rightarrow> nat \<Rightarrow> bytes \<Rightarrow>
     ('n, 'k, 'w, 'c) fleet \<times> ('s, 'r) duplex_stream rs_result" where
  "live_tcp se f c address =
     (let i = fl_draws f; f = f\<lparr>fl_draws := i + 1\<rparr> in
      case fl_clients f c of
        None \<Rightarrow> (f, Inl stuck)
      | Some cl \<Rightarrow>
          (case on_net (client_tcp_connect (se_quic se) (se_read se) (se_rng se i) cl address) (fl_host f) of
             None \<Rightarrow> (f, Inl stuck)
           | Some (h, r) \<Rightarrow> (f\<lparr>fl_host := h\<rparr>, r)))"

definition live_udp ::
    "('n, 'k, 'w, 'c, 's, 'r) setting \<Rightarrow> ('n, 'k, 'w, 'c) fleet \<Rightarrow> nat \<Rightarrow>
     ('n, 'k, 'w, 'c) fleet \<times> udp_session rs_result" where
  "live_udp se f c =
     (case fl_clients f c of
        None \<Rightarrow> (f, Inl stuck)
      | Some cl \<Rightarrow>
          (case client_udp (se_chan se) cl of (cl, r) \<Rightarrow> (f\<lparr>fl_clients := (fl_clients f)(c \<mapsto> cl)\<rparr>, r)))"

definition live_closed :: "('n, 'k, 'w, 'c, 's, 'r) setting \<Rightarrow> ('n, 'k, 'w, 'c) fleet \<Rightarrow> nat \<Rightarrow> bool" where
  "live_closed se f c =
     (case fl_clients f c of
        None \<Rightarrow> True
      | Some cl \<Rightarrow> close_reason (se_quic se) (client_connection cl) (net_of (fl_host f)) \<noteq> None)"

definition live_close :: "('n, 'k, 'w, 'c, 's, 'r) setting \<Rightarrow> ('n, 'k, 'w, 'c) fleet \<Rightarrow> nat \<Rightarrow> ('n, 'k, 'w, 'c) fleet" where
  "live_close se f c =
     (case fl_clients f c of
        None \<Rightarrow> f
      | Some cl \<Rightarrow>
          f\<lparr>fl_host := (fl_host f)\<lparr>net_of := client_drop (se_quic se) cl (net_of (fl_host f))\<rparr>,
            fl_clients := (fl_clients f)(c := None)\<rparr>)"

definition live_ops ::
    "('n, 'k, 'w, 'c, 's, 'r) setting \<Rightarrow> (('n, 'k, 'w, 'c) fleet, ('s, 'r) duplex_stream, udp_session) rc_ops" where
  "live_ops se =
     \<lparr>dial = live_dial se, is_closed = live_closed se, open_tcp = live_tcp se, open_udp = live_udp se,
      close_conn = live_close se\<rparr>"

text \<open>
  What changes by itself: the network, the cells and the contents of the clients (their receive
  loops run), but not which clients there are.
\<close>

definition live_ext :: "('n, 'k, 'w, 'c) fleet \<Rightarrow> ('n, 'k, 'w, 'c) fleet \<Rightarrow> bool" where
  "live_ext f f' \<longleftrightarrow> dom (fl_clients f') = dom (fl_clients f) \<and> fl_next f' = fl_next f \<and> fl_draws f \<le> fl_draws f'"

interpretation fleet: client_store "live_ops se" fl_next live_ext "\<lambda>f. dom (fl_clients f)"
  by unfold_locales
    (auto simp: live_ops_def live_dial_def live_tcp_def live_udp_def live_close_def live_ext_def Let_def
      split: option.splits prod.splits sum.splits if_splits)

section \<open>Streams of a client\<close>

text \<open>The sending half, as quinn documents it: \<open>sent s\<close> are the bytes it has accepted.\<close>

definition quic_ok :: "('n, 's, 'r) quic_ops \<Rightarrow> ('s \<Rightarrow> bytes) \<Rightarrow> bool" where
  "quic_ok q sent \<longleftrightarrow>
     (\<forall>s buf n n' s'. write_all q s buf n = (n', Inr s') \<longrightarrow> sent s' = sent s @ buf) \<and>
     (\<forall>s n n' s'. flush q s n = (n', Inr s') \<longrightarrow> sent s' = sent s)"

text \<open>The request as it is on the wire.\<close>

definition carries_request :: "bytes \<Rightarrow> bytes \<Rightarrow> bool" where
  "carries_request address frame \<longleftrightarrow>
     (\<exists>pad. \<forall>more. read_tcp_request (frame @ more) = Some (0x401, address, pad, more))"

lemma encode_carries:
  assumes "rng_ok rng" and "length address < 2 ^ 32"
  shows "\<exists>frame. encode_tcp_request rng address = Some frame \<and> carries_request address frame"
proof -
  obtain pad where pad: "tcp_request_padding rng = Some pad" "length pad < 512"
    using random_padding_range [OF assms(1), of 64 512] by (auto simp: tcp_request_padding_def)
  show ?thesis
    using pad assms(2) read_tcp_request_wire [of "0x401" address pad]
    by (auto simp: carries_request_def encode_tcp_request_def FRAME_TYPE_TCP_REQUEST_def varint_ok_def
        put_varint_append [of "put_varint _ _"] put_varint_append [of "_ @ _"])
qed

text \<open>A stream from which the application reads \<open>app\<close>, whatever its reads are.\<close>

definition delivers :: "'r reader \<Rightarrow> ('r \<Rightarrow> bytes) \<Rightarrow> ('s, 'r) duplex_stream \<Rightarrow> bytes \<Rightarrow> bool" where
  "delivers rd rest st app \<longleftrightarrow>
     (\<forall>caps. \<exists>st' ps. run_steps (poll_read rd) st caps = Some (st', ps) \<and>
        app = delivered ps @ app_left rest st' \<and>
        ((\<exists>k < length caps. 0 < caps ! k \<and> ps ! k = Ready (Inr [])) \<longrightarrow> delivered ps = app))"

text \<open>How an opened stream goes on: the request cannot be written, or it is on the wire.\<close>

lemma tcp_connect_opened:
  fixes cl :: "('k, 'w, 'c) hysteria_client"
  assumes "rng_ok rng" and "length address < 2 ^ 32" and "quic_ok q sent"
    and "open_bi q (hy_conn cl) n = (n1, Inr (s, r))"
  obtains (failed) n' t where "client_tcp_connect q rd rng cl address n = Some (n', Inl (Io (io_error_new Other t)))"
  | (written) n' s' frame where "carries_request address frame" "sent s' = sent s @ frame"
    "client_tcp_connect q rd rng cl address n =
       (if hy_fast_open cl then Some (n', Inr (duplex_new s' r))
        else map_option (\<lambda>(me, res). (n', and_then (map_err Io res) (\<lambda>_. Inr me))) (establish rd (duplex_new s' r)))"
proof -
  obtain frame where f: "encode_tcp_request rng address = Some frame" "carries_request address frame"
    using encode_carries [OF assms(1,2)] by blast
  obtain n2 w where w: "write_all q s frame n1 = (n2, w)" by fastforce
  note eq = client_tcp_connect_def act_bind_def act_call_def assms(4) f(1) w
  show ?thesis
  proof (cases w)
    case (Inl t)
    then show ?thesis by (intro failed [of n2 t]) (simp add: eq)
  next
    case (Inr s1)
    obtain n3 fl where fl: "flush q s1 n2 = (n3, fl)" by fastforce
    show ?thesis
    proof (cases fl)
      case (Inl t)
      then show ?thesis using Inr fl by (intro failed [of n3 t]) (simp add: eq)
    next
      case Inr': (Inr s2)
      have "sent s2 = sent s @ frame"
        using assms(3) w Inr fl Inr' unfolding quic_ok_def by (metis (no_types))
      moreover have "client_tcp_connect q rd rng cl address n =
          (if hy_fast_open cl then Some (n3, Inr (duplex_new s2 r))
           else map_option (\<lambda>(me, res). (n3, and_then (map_err Io res) (\<lambda>_. Inr me))) (establish rd (duplex_new s2 r)))"
        using Inr fl Inr' by (auto simp: eq Let_def act_run_def split: option.splits prod.splits)
      ultimately show ?thesis using written [of frame s2 n3] f(2) by blast
    qed
  qed
qed

text \<open>A new stream over an accepting response, and the stream that \<open>establish\<close> returns for it.\<close>

context recv_stream
begin

lemma delivers_owed: "ds_ok rest st \<Longrightarrow> delivers rd rest st (app_left rest st)"
  unfolding delivers_def using duplex_reads by blast

lemma new_stream_ok:
  assumes "parse_tcp_response (rest r) = Done True h"
  shows "ds_ok rest (duplex_new s r)" and "app_left rest (duplex_new s r) = drop h (rest r)"
  using assms by (simp_all add: ds_ok_def app_left_def duplex_new_def whole_def)

lemma established_ok:
  assumes "eventually_ready rd \<mu>" and "parse_tcp_response (rest r) = Done True h"
  obtains me where "establish rd (duplex_new s r) = Some (me, Inr ())" "send me = s"
    "ds_ok rest me" "app_left rest me = drop h (rest r)"
  | me e where "establish rd (duplex_new s r) = Some (me, Inl e)" "fails_with rd r e"
proof -
  have w: "whole rest (duplex_new s r) = rest r" "\<not> response_done (duplex_new s r)"
    "leftover_pos (duplex_new s r) = 0" "recv (duplex_new s r) = r" "send (duplex_new s r) = s"
    by (simp_all add: whole_def duplex_new_def)
  from establish_ends_returns [OF assms(1) w(2)] obtain me res where
    e: "establish rd (duplex_new s r) = Some (me, res)" "establish_ends rd rest (duplex_new s r) me (Ready res)" by blast
  show ?thesis
  proof (cases res)
    case (Inl x)
    then show ?thesis using e assms(2) by (intro that(2) [of me x]) (auto simp: establish_ends_def w)
  next
    case (Inr u)
    then have "ds_ok rest me" "app_left rest me = drop h (rest r)"
      using e assms(2) by (auto simp: establish_ends_def w ds_ok_def app_left_def)
    then show ?thesis using e Inr by (intro that(1) [of me]) (auto simp: establish_ends_def w)
  qed
qed

lemma refused:
  assumes "eventually_ready rd \<mu>" and "header_error (parse_tcp_response (rest r)) = Some e"
  shows "\<exists>me x. establish rd (duplex_new s r) = Some (me, Inl x) \<and> (x = e \<or> fails_with rd r x)"
proof -
  have w: "whole rest (duplex_new s r) = rest r" "\<not> response_done (duplex_new s r)" "recv (duplex_new s r) = r"
    by (simp_all add: whole_def duplex_new_def)
  from establish_ends_returns [OF assms(1) w(2)] obtain me res where
    "establish rd (duplex_new s r) = Some (me, res)" "establish_ends rd rest (duplex_new s r) me (Ready res)" by blast
  then show ?thesis using establish_ends_failed [of "duplex_new s r" me "Ready res" e] assms(2) by (auto simp: w)
qed

end

text \<open>
  What \<open>tcp_connect\<close> returns on a stream whose peer accepts: an error of the transport, or a
  stream with the request written and the application data still to be read.
\<close>

lemma tcp_connect_accepted:
  fixes cl :: "('k, 'w, 'c) hysteria_client"
  assumes "rng_ok rng" and "length address < 2 ^ 32" and "quic_ok q sent"
    and "recv_stream rd rest" and "eventually_ready rd \<mu>"
    and "open_bi q (hy_conn cl) n = (n1, Inr (s, r))"
    and "rest r = tcp_response_wire 0 msg pad @ app" and "length msg \<le> 2048" and "length pad \<le> 4096"
  obtains (failed) n' x where "client_tcp_connect q rd rng cl address n = Some (n', Inl (Io x))"
    "io_kind x = Other \<or> \<not> hy_fast_open cl \<and> fails_with rd r x"
  | (stream) n' st frame where "client_tcp_connect q rd rng cl address n = Some (n', Inr st)"
    "sent (send st) = sent s @ frame" "carries_request address frame" "ds_ok rest st" "app_left rest st = app"
proof -
  define h where "h = length (tcp_response_wire 0 msg pad)"
  have p: "parse_tcp_response (rest r) = Done True h" "drop h (rest r) = app"
    using parse_tcp_response_wire [of msg pad 0 app] assms(7-9) by (simp_all add: h_def)
  show ?thesis
  proof (rule tcp_connect_opened [OF assms(1-3,6), of rd], goal_cases)
    case (1 n' t)
    then show ?case using failed by simp
  next
    case (2 n' s' frame)
    show ?case
    proof (cases "hy_fast_open cl")
      case True
      have "send (duplex_new s' r) = s'" by (simp add: duplex_new_def)
      then show ?thesis
        using 2 True recv_stream.new_stream_ok [OF assms(4) p(1), of s'] p(2) by (intro stream) simp_all
    next
      case False
      show ?thesis
      proof (rule recv_stream.established_ok [OF assms(4,5) p(1), of s'], goal_cases)
        case (1 me)
        then show ?case using 2 False p(2) by (intro stream [of n' me frame]) simp_all
      next
        case (2 me e)
        then show ?case
          using \<open>client_tcp_connect q rd rng cl address n = _\<close> False by (intro failed [of n' e]) simp_all
      qed
    qed
  qed
qed

section \<open>A concrete connection\<close>

text \<open>Streams that log what is written and follow a script of arrivals.\<close>

definition lab_quic :: "recv_event list \<Rightarrow> (nat, bytes, recv_event list) quic_ops" where
  "lab_quic es =
     \<lparr>open_bi = (\<lambda>c n. (n, Inr ([], es))), write_all = (\<lambda>s buf n. (n, Inr (s @ buf))), flush = (\<lambda>s n. (n, Inr s)),
      close_reason = (\<lambda>c n. None), quic_close = (\<lambda>c code reason n. n)\<rparr>"

lemma lab_quic_ok: "quic_ok (lab_quic es) id"
  by (simp add: quic_ok_def lab_quic_def)

definition lab_client :: "bool \<Rightarrow> (unit, unit, queue_chan) hysteria_client" where
  "lab_client fast = client_new 3 \<lparr>ep_id = 0, ep_socket = Inr (), ep_crypto = \<lparr>cert_verifier = NoVerify, alpn_protocols = []\<rparr>,
     ep_transport = transport_default (lab_quinn :: (nat, unit, unit) quinn_env)\<rparr> fast True 0"

lemma lab_client_simps [simp]: "hy_conn (lab_client fast) = 3" "hy_fast_open (lab_client fast) = fast"
  by (simp_all add: lab_client_def client_new_def)

section \<open>Properties\<close>

text \<open>
  C5. A proxied connection end to end, with fast open and without. On a stream whose peer
  accepts and then sends the data \<open>app\<close>, \<open>tcp_connect\<close> returns, and unless the transport fails
  it returns a stream on which exactly one request frame for the address has been written, and
  every sequence of reads on that stream delivers a prefix of \<open>app\<close> in order, keeps the rest,
  and reports the end of the stream only after all of it. The errors are those of writing the
  request and, without fast open, of reading.
\<close>

theorem tcp_connect_end_to_end:
  fixes cl :: "('k, 'w, 'c) hysteria_client"
  assumes "rng_ok rng" and "length address < 2 ^ 32" and "quic_ok q sent"
    and "recv_stream rd rest" and "eventually_ready rd \<mu>"
    and "open_bi q (hy_conn cl) n = (n1, Inr (s, r))"
    and "rest r = tcp_response_wire 0 msg pad @ app" and "length msg \<le> 2048" and "length pad \<le> 4096"
  shows "\<exists>n' res. client_tcp_connect q rd rng cl address n = Some (n', res) \<and>
    (case res of
       Inl e \<Rightarrow> \<exists>x. e = Io x \<and> (io_kind x = Other \<or> \<not> hy_fast_open cl \<and> fails_with rd r x)
     | Inr st \<Rightarrow>
         (\<exists>frame. sent (send st) = sent s @ frame \<and> carries_request address frame) \<and>
         delivers rd rest st app)"
  by (rule tcp_connect_accepted [OF assms]) (use recv_stream.delivers_owed [OF assms(4)] in force)+

theorem tcp_connect_end_to_end_witness:
  "\<exists>n' st st' ps. client_tcp_connect (lab_quic [Arrive [0, 0, 0], Arrive (str ''hi'')]) script_read lab_rng
       (lab_client True) (str ''a:1'') 7 = Some (n', Inr st) \<and>
     run_steps (poll_read script_read) st [8, 8] = Some (st', ps) \<and> delivered ps @ app_left script_rest st' = str ''hi''"
proof -
  let ?es = "[Arrive [0, 0, 0], Arrive (str ''hi'')]" and ?a = "str ''a:1''" and ?cl = "lab_client True"
  have o: "open_bi (lab_quic ?es) (hy_conn ?cl) 7 = (7, Inr ([], ?es))" by (simp add: lab_quic_def)
  have w: "script_rest ?es = tcp_response_wire 0 [] [] @ str ''hi''" by code_simp
  have l: "length ?a < 2 ^ 32" "length ([] :: bytes) \<le> 2048" "length ([] :: bytes) \<le> 4096" by simp_all
  note f = tcp_connect_end_to_end [OF lab_rng_ok l(1) lab_quic_ok script.recv_stream_axioms script_eventually_ready o w l(2,3)]
  obtain frame where "encode_tcp_request lab_rng ?a = Some frame" using encode_carries [OF lab_rng_ok l(1)] by blast
  then have "\<exists>st. client_tcp_connect (lab_quic ?es) script_read lab_rng ?cl ?a 7 = Some (7, Inr st)"
    by (simp add: client_tcp_connect_def act_bind_def act_call_def lab_quic_def Let_def del: list.map)
  then obtain st where c: "client_tcp_connect (lab_quic ?es) script_read lab_rng ?cl ?a 7 = Some (7, Inr st)" by blast
  with f have "delivers script_read script_rest st (str ''hi'')" by auto
  then obtain st' ps where "run_steps (poll_read script_read) st [8, 8] = Some (st', ps)"
    "str ''hi'' = delivered ps @ app_left script_rest st'" unfolding delivers_def by blast
  with c show ?thesis by metis
qed

text \<open>
  C24. A refusal is never mistaken for data. On a stream whose response refuses, is malformed or
  is cut off, \<open>tcp_connect\<close> without fast open returns that very error, or one of the transport.
  With fast open the stream is returned, but no read of it ever yields a byte or an end of
  stream: each one waits, or reports that error or the transport's.
\<close>

theorem tcp_connect_refused:
  fixes cl :: "('k, 'w, 'c) hysteria_client"
  assumes "rng_ok rng" and "length address < 2 ^ 32" and "quic_ok q sent"
    and "recv_stream rd rest" and "eventually_ready rd \<mu>"
    and "open_bi q (hy_conn cl) n = (n1, Inr (s, r))"
    and "header_error (parse_tcp_response (rest r)) = Some e"
  shows "\<exists>n' res. client_tcp_connect q rd rng cl address n = Some (n', res) \<and>
    (case res of
       Inl x \<Rightarrow> \<exists>i. x = Io i \<and> (io_kind i = Other \<or> \<not> hy_fast_open cl \<and> (i = e \<or> fails_with rd r i))
     | Inr st \<Rightarrow> hy_fast_open cl \<and>
         (\<forall>caps. \<exists>st' ps. run_steps (poll_read rd) st caps = Some (st', ps) \<and> length ps = length caps \<and>
            (\<forall>p\<in>set ps. p = Pending \<or> p = Ready (Inl e) \<or> (\<exists>i. p = Ready (Inl i) \<and> fails_with rd r i))))"
proof (rule tcp_connect_opened [OF assms(1-3,6), of rd], goal_cases)
  case (1 n' t)
  then show ?case by simp
next
  case (2 n' s' frame)
  show ?case
  proof (cases "hy_fast_open cl")
    case True
    have "\<not> response_done (duplex_new s' r)" "whole rest (duplex_new s' r) = rest r" "recv (duplex_new s' r) = r"
      by (simp_all add: whole_def duplex_new_def)
    then show ?thesis using 2 True recv_stream.run_failed [OF assms(4), of "duplex_new s' r" e] assms(7) by simp
  next
    case False
    then show ?thesis using 2 recv_stream.refused [OF assms(4,5,7), of s'] by auto
  qed
qed

theorem tcp_connect_refused_witness:
  "\<exists>n'. client_tcp_connect (lab_quic [Arrive [1, 0, 0]]) script_read lab_rng (lab_client False) (str ''a:1'') 7 =
     Some (n', Inl (Io err_rejected))"
proof -
  let ?es = "[Arrive [1, 0, 0]]" and ?a = "str ''a:1''" and ?cl = "lab_client False"
  have o: "open_bi (lab_quic ?es) (hy_conn ?cl) 7 = (7, Inr ([], ?es))" by (simp add: lab_quic_def)
  have w: "header_error (parse_tcp_response (script_rest ?es)) = Some err_rejected" by code_simp
  have l: "length ?a < 2 ^ 32" by simp
  note f = tcp_connect_refused [OF lab_rng_ok l lab_quic_ok script.recv_stream_axioms script_eventually_ready o w]
  obtain frame where "encode_tcp_request lab_rng ?a = Some frame" using encode_carries [OF lab_rng_ok l] by blast
  moreover have "establish script_read (duplex_new frame ?es) =
      Some ((duplex_new frame ?es)\<lparr>recv := [Arrive []], scratch := [1, 0, 0]\<rparr>, Inl err_rejected)"
    by (subst establish.simps, subst poll_establish.simps, subst poll_establish.simps) code_simp
  ultimately have "\<exists>i. client_tcp_connect (lab_quic ?es) script_read lab_rng ?cl ?a 7 = Some (7, Inl (Io i)) \<and> i = err_rejected"
    by (simp add: client_tcp_connect_def act_bind_def act_call_def lab_quic_def Let_def del: list.map)
  with f show ?thesis by blast
qed

text \<open>
  C25. UDP works exactly when the server said so. A client returned by \<open>connect\<close> has a relay if
  and only if the answer of the server to its authentication request, with status 233, carried \<open>Hysteria-UDP: true\<close>: then
  \<open>udp\<close> opens sessions, numbered from 1, and otherwise it fails with its error and changes nothing.
\<close>

theorem client_udp_follows_server:
  assumes "connect env rng1 rng2 cfg h = Some (h', Inr cl)"
  shows "\<exists>resp. answered env cfg (hy_conn cl) (net_of h') resp \<and> resp_status resp = 233 \<and>
    (if resp_header resp (str ''Hysteria-UDP'') = Some (str ''true'')
     then client_udp_enabled cl \<and>
       (\<exists>cl1 s1 cl2 s2. client_udp ops cl = (cl1, Inr s1) \<and> client_udp ops cl1 = (cl2, Inr s2) \<and>
          us_id s1 = 1 \<and> us_id s2 = 2 \<and> us_rx s1 \<noteq> us_rx s2 \<and> client_connection cl2 = client_connection cl)
     else \<not> client_udp_enabled cl \<and>
       client_udp ops cl = (cl, Inl (Protocol (str ''UDP relay not enabled by server''))))"
  using assms
proof (rule connect_Inr)
  fix n canon hop pin conn au n1 n2
  assume au: "authenticate env rng2 conn cfg n1 = Some (n2, Inr au)"
    and cl: "cl = client_new conn (hy_endpoint cl) (fast_open cfg) (udp_enabled au) (server_rx au)" and n2: "net_of h' = n2"
  obtain resp where resp: "answered env cfg conn n2 resp" "read_auth_response resp = Inr au"
    using au by (rule authenticate_Inr)
  have "hy_conn cl = conn" by (subst cl) (simp add: client_new_def)
  then have ans: "answered env cfg (hy_conn cl) (net_of h') resp" using resp(1) n2 by simp
  have u: "resp_status resp = 233" "udp_enabled au \<longleftrightarrow> resp_header resp (str ''Hysteria-UDP'') = Some (str ''true'')"
    using resp(2) by (auto simp: read_auth_response_def STATUS_AUTH_OK_def Let_def split_beta split: if_splits)
  have sm: "hy_udp_sm cl = (if udp_enabled au then Some manager_new else None)"
    by (subst cl) (simp add: client_new_def)
  then have "if udp_enabled au then client_udp_enabled cl \<and>
       (\<exists>cl1 s1 cl2 s2. client_udp ops cl = (cl1, Inr s1) \<and> client_udp ops cl1 = (cl2, Inr s2) \<and>
          us_id s1 = 1 \<and> us_id s2 = 2 \<and> us_rx s1 \<noteq> us_rx s2 \<and> client_connection cl2 = client_connection cl)
     else \<not> client_udp_enabled cl \<and>
       client_udp ops cl = (cl, Inl (Protocol (str ''UDP relay not enabled by server'')))"
    by (simp add: client_udp_def client_udp_enabled_def client_connection_def new_session_def manager_new_def Let_def)
  then show ?thesis using ans u unfolding u(2) by blast
qed

theorem client_udp_follows_server_witness:
  "\<exists>h' (cl :: (unit, bytes list, queue_chan) hysteria_client) cl' s.
     connect (lab_env (lab_response [])) lab_rng lab_rng lab_config lab_host = Some (h', Inr cl) \<and>
     client_udp queue_chan_ops cl = (cl', Inr s) \<and> us_id s = 1"
proof -
  obtain h' and cl :: "(unit, bytes list, queue_chan) hysteria_client"
    where c: "connect (lab_env (lab_response [])) lab_rng lab_rng lab_config lab_host = Some (h', Inr cl)"
    using lab_connect by blast
  have "resp_header (lab_response []) (str ''Hysteria-UDP'') = Some (str ''true'')"
    by (simp add: lab_response_def)
  then have "\<exists>cl' s. client_udp queue_chan_ops cl = (cl', Inr s) \<and> us_id s = 1"
    using client_udp_follows_server [OF c, of queue_chan_ops] by (auto dest!: lab_answered)
  then show ?thesis using c by blast
qed

text \<open>
  Clients live as long as they are owned. Whatever tasks share the reconnecting client and
  however their calls, explicit invalidations and closings and changes of the network interleave,
  the clients that exist are exactly those held by the shared state or by a task between its
  \<open>current\<close> and its return. So no task ever uses a client that has been dropped, and a client that
  nobody holds any more has been dropped, which closes its connection.
\<close>

lemma clients_exist_while_owned:
  assumes "\<forall>h. arcs w h = 0" and "fl_clients (net w) = Map.empty"
    and "(task_step (live_ops se) live_ext)\<^sup>*\<^sup>* ((rc_new, w), []) ((st, w'), tks)"
  shows "dom (fl_clients (net w')) = {h. 0 < owners st tks h}"
proof -
  have "fleet.stored w" using assms(1,2) by (simp add: fleet.stored_def)
  then have "rc_inv fl_next (st, w') tks \<and> fleet.stored w'"
    using fleet.stored_steps [OF assms(3)] inv_new [OF assms(1), of fl_next] by simp
  then show ?thesis by (simp add: fleet.stored_def rc_inv_def)
qed

end
