(* ===== verification/Udp_Service.thy ===== *)
theory Udp_Service
  imports Udp_Relay
begin

text \<open>
  The UDP relay end to end: what \<open>recv\<close> makes of a queue, what the receive loop makes of the
  datagrams of a connection, and how sessions end (\<^verbatim>\<open>src/src/udp.rs\<close>).

  \<open>manager_drop\<close> is what happens to a \<open>UdpSessionManager\<close> when its last owner, the client, is
  dropped: its table goes, and with it the sending end of every registered channel.
\<close>

section \<open>Definitions\<close>

definition udp_session_id :: "udp_session \<Rightarrow> u32" where
  "udp_session_id self = us_id self"

definition manager_drop :: "'c chan_ops \<Rightarrow> 'c manager \<Rightarrow> 'c manager" where
  "manager_drop ops m = m\<lparr>sessions := Map.empty,
     chans := (\<lambda>a. if a \<in> ran (sessions m) then map_option (ch_drop_tx ops) (chans m a) else chans m a)\<rparr>"

text \<open>Polls of \<open>recv\<close> one after the other, with what each reported.\<close>

definition recv_poll ::
    "bool \<Rightarrow> 'c chan_ops \<Rightarrow> 'c \<times> udp_session \<Rightarrow> unit \<Rightarrow> (('c \<times> udp_session) \<times> (bytes \<times> bytes) rs_result poll) option" where
  "recv_poll ovf ops = (\<lambda>(c, s) _.
     case session_recv ovf ops c s of Some (Some (c, s, p)) \<Rightarrow> Some ((c, s), p) | _ \<Rightarrow> None)"

abbreviation polls ::
    "bool \<Rightarrow> 'c chan_ops \<Rightarrow> 'c \<times> udp_session \<Rightarrow> nat \<Rightarrow> (('c \<times> udp_session) \<times> (bytes \<times> bytes) rs_result poll list) option" where
  "polls ovf ops cs n \<equiv> run_steps (recv_poll ovf ops) cs (replicate n ())"

text \<open>The payloads that a run of the defragger delivers.\<close>

definition payloads :: "udp_message option list \<Rightarrow> (bytes \<times> bytes) list" where
  "payloads rs = List.map_filter (map_option (\<lambda>m. (data m, addr m))) rs"

lemma payloads_simps [simp]:
  "payloads [] = []" "payloads (None # rs) = payloads rs" "payloads (Some m # rs) = (data m, addr m) # payloads rs"
  by (simp_all add: payloads_def List.map_filter_def)

lemma payloads_append [simp]: "payloads (rs @ rs') = payloads rs @ payloads rs'"
  by (simp add: payloads_def List.map_filter_def)

lemma payloads_none [simp]: "payloads (replicate n None) = []"
  by (induction n) simp_all

lemma payloads_length: "length (payloads rs) \<le> length rs"
  by (simp add: payloads_def List.map_filter_def)

text \<open>
  tokio's bound, as documented: \<open>room c\<close> messages more are accepted as long as the receiver
  exists.
\<close>

definition room_ok :: "'c chan_ops \<Rightarrow> ('c \<Rightarrow> nat) \<Rightarrow> bool" where
  "room_ok ops room \<longleftrightarrow> (\<forall>n. room (ch_new ops n) = n) \<and>
     (\<forall>c m. 0 < room c \<longrightarrow> (\<exists>c'. ch_try_send ops c m = (c', True) \<and> room c' = room c - 1))"

definition addressed :: "u32 \<Rightarrow> bytes \<Rightarrow> bool" where
  "addressed i d \<longleftrightarrow> (case parse d of Some m \<Rightarrow> session_id m = i | None \<Rightarrow> False)"

section \<open>What recv makes of a queue\<close>

text \<open>
  \<open>recv\<close> implements the defragger over the queue: polled often enough it reports, in order, what
  the defragger delivers for the queued messages, and then that the queue is empty.
\<close>

lemma polls_drain:
  assumes "chan_ok ops queue tx" and "feed_all ovf (us_defrag s) (queue c) = Some (d, rs)"
  shows "\<exists>c'. polls ovf ops (c, s) (Suc (length (payloads rs))) =
      Some ((c', s\<lparr>us_defrag := d\<rparr>),
        map (Ready \<circ> Inr) (payloads rs) @ [if tx c then Pending else Ready (Inl err_session_closed)]) \<and>
    queue c' = [] \<and> tx c' = tx c"
  using assms(2)
proof (induction "queue c" arbitrary: c s rs)
  case Nil
  then have "d = us_defrag s" "rs = []" by auto
  then show ?case using recv_empty [OF assms(1), of c ovf s] Nil by (simp add: recv_poll_def)
next
  case (Cons m q)
  obtain c1 where c1: "queue c1 = q" "tx c1 = tx c" "session_recv ovf ops c s =
      (case feed ovf (us_defrag s) m of None \<Rightarrow> Some None
       | Some (d, Some full) \<Rightarrow> Some (Some (c1, s\<lparr>us_defrag := d\<rparr>, Ready (Inr (data full, addr full))))
       | Some (d, None) \<Rightarrow> session_recv ovf ops c1 (s\<lparr>us_defrag := d\<rparr>))"
    by (rule recv_next [OF assms(1) Cons.hyps(2) [symmetric]])
  obtain d1 r rs' where f: "feed ovf (us_defrag s) m = Some (d1, r)" "feed_all ovf d1 q = Some (d, rs')" "rs = r # rs'"
    using Cons.prems Cons.hyps(2) [symmetric] by (auto split: Option.bind_splits)
  note IH = Cons.hyps(1) [of c1 "s\<lparr>us_defrag := d1\<rparr>" rs']
  have eq: "recv_poll ovf ops (c, s) u = (case r of
      None \<Rightarrow> recv_poll ovf ops (c1, s\<lparr>us_defrag := d1\<rparr>) u
    | Some full \<Rightarrow> Some ((c1, s\<lparr>us_defrag := d1\<rparr>), Ready (Inr (data full, addr full))))" for u
    using c1(3) f(1) by (simp add: recv_poll_def split: option.splits)
  define n where "n = Suc (length (payloads rs'))"
  obtain c' where c': "polls ovf ops (c1, s\<lparr>us_defrag := d1\<rparr>) n =
      Some ((c', s\<lparr>us_defrag := d\<rparr>),
        map (Ready \<circ> Inr) (payloads rs') @ [if tx c then Pending else Ready (Inl err_session_closed)])"
    "queue c' = []" "tx c' = tx c"
    using IH c1(1,2) f(2) by (auto simp: n_def)
  show ?case
  proof (cases r)
    case None
    then have "polls ovf ops (c, s) n = polls ovf ops (c1, s\<lparr>us_defrag := d1\<rparr>) n" by (simp add: n_def eq)
    then show ?thesis using c' f(3) None unfolding n_def by auto
  next
    case (Some full)
    then have "polls ovf ops (c, s) (Suc n) = Some ((c', s\<lparr>us_defrag := d\<rparr>), Ready (Inr (data full, addr full)) #
        map (Ready \<circ> Inr) (payloads rs') @ [if tx c then Pending else Ready (Inl err_session_closed)])"
      using c'(1) by (simp add: eq)
    then show ?thesis using c'(2,3) f(3) Some unfolding n_def by auto
  qed
qed

lemma recv_last:
  assumes "chan_ok ops queue tx" and "feed_all ovf (us_defrag s) (queue c) = Some (d, replicate n None @ [Some out])"
  shows "\<exists>c'. session_recv ovf ops c s = Some (Some (c', s\<lparr>us_defrag := d\<rparr>, Ready (Inr (data out, addr out)))) \<and> queue c' = []"
  using assms(2)
proof (induction n arbitrary: c s)
  case 0
  then obtain m where m: "queue c = [m]" "feed ovf (us_defrag s) m = Some (d, Some out)"
    by (cases "queue c" rule: remdups_adj.cases) (auto split: Option.bind_splits)
  show ?case by (rule recv_next [OF assms(1) m(1), of ovf s]) (auto simp: m(2))
next
  case (Suc n)
  then obtain m q d1 where m: "queue c = m # q" "feed ovf (us_defrag s) m = Some (d1, None)"
    "feed_all ovf d1 q = Some (d, replicate n None @ [Some out])"
    by (cases "queue c") (auto split: Option.bind_splits)
  show ?case
    by (rule recv_next [OF assms(1) m(1), of ovf s]) (use Suc.IH [of "s\<lparr>us_defrag := d1\<rparr>"] m(2,3) in auto)
qed

lemma polls_before:
  assumes "polls ovf ops cs (Suc n) = Some (st, ps @ [p])"
  shows "\<exists>st'. polls ovf ops cs n = Some (st', ps)"
proof -
  have "replicate (Suc n) () = replicate n () @ [()]" by (simp add: replicate_append_same)
  with assms obtain st1 ps1 q where "polls ovf ops cs n = Some (st1, ps1)" "ps1 @ [q] = ps @ [p]"
    by (auto simp only: run_steps_append run_steps.simps split: Option.bind_splits)
  then show ?thesis by simp
qed

lemma polls_closed:
  assumes "chan_ok ops queue tx" and "queue c = []" and "\<not> tx c"
  shows "polls ovf ops (c, s) n = Some ((c, s), replicate n (Ready (Inl err_session_closed)))"
  using recv_empty [OF assms(1,2), of ovf s] assms(3) by (induction n) (simp_all add: recv_poll_def)

text \<open>A channel without senders: what the defragger delivers for the queue, and then the error.\<close>

lemma polls_after_close:
  assumes "chan_ok ops queue tx" and rs: "feed_all ovf (us_defrag s) (queue c) = Some (d, rs)" and "\<not> tx c"
  shows "\<exists>st. polls ovf ops (c, s) (length (payloads rs) + n) =
    Some (st, map (Ready \<circ> Inr) (payloads rs) @ replicate n (Ready (Inl err_session_closed)))"
proof -
  from polls_drain [OF assms(1) rs] assms(3) obtain c' where c': "queue c' = []" "\<not> tx c'"
    "polls ovf ops (c, s) (Suc (length (payloads rs))) =
       Some ((c', s\<lparr>us_defrag := d\<rparr>), map (Ready \<circ> Inr) (payloads rs) @ [Ready (Inl err_session_closed)])" by auto
  show ?thesis
  proof (cases n)
    case 0
    then show ?thesis using polls_before [OF c'(3)] by simp
  next
    case (Suc k)
    have "replicate (length (payloads rs) + n) () = replicate (Suc (length (payloads rs))) () @ replicate k ()"
      by (simp add: Suc replicate_add [symmetric])
    then show ?thesis
      using c'(3) polls_closed [OF assms(1) c'(1,2), of ovf "s\<lparr>us_defrag := d\<rparr>" k]
      by (simp only: run_steps_append) (simp add: Suc)
  qed
qed

section \<open>What the receive loop makes of datagrams\<close>

lemma dispatch_sessions [simp]: "sessions (dispatch ops m msg) = sessions m"
  by (simp add: dispatch_def split: option.splits)

lemma dispatch_other:
  assumes "sessions m (session_id msg) \<noteq> Some a"
  shows "chans (dispatch ops m msg) a = chans m a"
  using assms by (auto simp: dispatch_def on_chan_chans split: option.splits)

lemma dispatch_accepted:
  assumes "chan_ok ops queue tx" and "room_ok ops room" and "sessions m (session_id msg) = Some a"
    and "chans m a = Some c" and "0 < room c"
  shows "\<exists>c'. chans (dispatch ops m msg) a = Some c' \<and> queue c' = queue c @ [msg] \<and> tx c' = tx c \<and> room c' = room c - 1"
proof -
  obtain c' where c': "ch_try_send ops c msg = (c', True)" "room c' = room c - 1"
    using assms(2,5) unfolding room_ok_def by blast
  moreover have "queue c' = queue c @ [msg] \<and> tx c' = tx c" using assms(1) c'(1) unfolding chan_ok_def by auto
  ultimately show ?thesis using assms(3,4) by (simp add: dispatch_def on_chan_chans)
qed

lemma receive_loop_queue:
  assumes "chan_ok ops queue tx" and "room_ok ops room" and "\<forall>i'. sessions m i' = Some a \<longleftrightarrow> i' = i"
    and "chans m a = Some c" and "length (filter (addressed i) es) \<le> room c"
  shows "\<exists>m' c'. receive_loop ops (map Inr es) (replicate (length es) True) m = (m', False) \<and>
    chans m' a = Some c' \<and> queue c' = queue c @ map (the \<circ> parse) (filter (addressed i) es) \<and> tx c' = tx c"
  using assms(3-5)
proof (induction es arbitrary: m c)
  case (Cons e es)
  show ?case
  proof (cases "parse e")
    case None
    then show ?thesis using Cons by (simp add: addressed_def)
  next
    case (Some msg)
    let ?m = "dispatch ops m msg"
    have s: "\<forall>i'. sessions ?m i' = Some a \<longleftrightarrow> i' = i" using Cons.prems(1) by simp
    show ?thesis
    proof (cases "session_id msg = i")
      case True
      then obtain c1 where c1: "chans ?m a = Some c1" "queue c1 = queue c @ [msg]" "tx c1 = tx c" "room c1 = room c - 1"
        using dispatch_accepted [OF assms(1,2), of m msg a c] Cons.prems Some by (auto simp: addressed_def)
      then show ?thesis using Cons.IH [OF s c1(1)] Cons.prems(3) Some True by (auto simp: addressed_def)
    next
      case False
      then have "chans ?m a = Some c" using dispatch_other [of m msg a ops] Cons.prems(1,2) by simp
      then show ?thesis using Cons.IH [OF s] Cons.prems(3) Some False by (simp add: addressed_def)
    qed
  qed
qed simp

section \<open>How sessions end\<close>

text \<open>A sending end exists only in the table: nothing else keeps a session from ending.\<close>

definition senders_ok :: "('c \<Rightarrow> bool) \<Rightarrow> 'c manager \<Rightarrow> bool" where
  "senders_ok tx m \<longleftrightarrow> (\<forall>a c. chans m a = Some c \<longrightarrow> tx c \<longrightarrow> a \<in> ran (sessions m))"

lemma senders_on_chan:
  assumes "senders_ok tx m" and "\<And>c. tx (f c) \<Longrightarrow> tx c"
  shows "senders_ok tx (on_chan f a m)"
  using assms by (auto simp: senders_ok_def on_chan_chans split: if_splits)

lemma chan_ok_tx:
  assumes "chan_ok ops queue tx"
  shows "\<not> tx (ch_drop_tx ops c)" "tx (ch_drop_rx ops c) = tx c" "tx (fst (ch_try_send ops c m)) = tx c"
  using assms unfolding chan_ok_def by (simp, simp, metis prod.collapse)

lemma senders_dispatch: "chan_ok ops queue tx \<Longrightarrow> senders_ok tx m \<Longrightarrow> senders_ok tx (dispatch ops m msg)"
  by (auto simp: dispatch_def chan_ok_tx intro: senders_on_chan split: option.splits)

lemma senders_unlist:
  assumes "chan_ok ops queue tx" and "senders_ok tx m" and "sessions m i = Some b"
    and "sessions m' = (sessions m)(i := x)" and "chans m' = chans (on_chan (ch_drop_tx ops) b m)"
  shows "senders_ok tx m'"
proof -
  have "a \<in> ran (sessions m')" if a: "chans m' a = Some c" "tx c" for a c
  proof -
    have "a \<noteq> b" "chans m a = Some c"
      using a assms(5) chan_ok_tx(1) [OF assms(1)] by (auto simp: on_chan_chans split: if_splits)
    then obtain k where "sessions m k = Some a" using assms(2) a(2) by (auto simp: senders_ok_def ran_def)
    then have "sessions m' k = Some a" using \<open>a \<noteq> b\<close> assms(3,4) by auto
    then show ?thesis by (auto simp: ran_def)
  qed
  then show ?thesis by (simp add: senders_ok_def)
qed

lemma senders_remove:
  assumes "chan_ok ops queue tx" and "senders_ok tx m"
  shows "senders_ok tx (remove_session ops m i)"
proof (cases "sessions m i")
  case (Some b)
  then show ?thesis
    by (intro senders_unlist [OF assms Some, of _ None]) (simp_all add: remove_session_def on_chan_chans fun_eq_iff)
qed (simp add: remove_session_def assms(2))

lemma senders_new:
  assumes "chan_ok ops queue tx" and "senders_ok tx m" and "new_session ops m = (m', s)"
  shows "senders_ok tx m'"
proof -
  let ?i = "next_id m" and ?n = "next_chan m"
  have m': "sessions m' = (sessions m)(?i \<mapsto> ?n)"
    "chans m' a = (if sessions m ?i = Some a then map_option (ch_drop_tx ops) (((chans m)(?n \<mapsto> ch_new ops SESSION_CHAN_SIZE)) a)
      else ((chans m)(?n \<mapsto> ch_new ops SESSION_CHAN_SIZE)) a)" for a
    using assms(3) by (auto simp: new_session_def Let_def on_chan_chans split: option.splits)
  have "a \<in> ran (sessions m')" if a: "chans m' a = Some c" "tx c" for a c
  proof (cases "a = ?n")
    case True
    then show ?thesis using m'(1) by (auto simp: ran_def)
  next
    case False
    then have "sessions m ?i \<noteq> Some a" "chans m a = Some c"
      using a m'(2) [of a] chan_ok_tx(1) [OF assms(1)] by (auto split: if_splits)
    then obtain k where k: "sessions m k = Some a" using assms(2) a(2) by (auto simp: senders_ok_def ran_def)
    then have "sessions m' k = Some a" using \<open>sessions m ?i \<noteq> Some a\<close> m'(1) by auto
    then show ?thesis by (auto simp: ran_def)
  qed
  then show ?thesis by (simp add: senders_ok_def)
qed

lemma senders_step:
  assumes "chan_ok ops queue tx" and "relay_step ovf ops w w'" and "relay_inv queue w" and "senders_ok tx (mgr w)"
  shows "senders_ok tx (mgr w')"
  using assms(2)
proof cases
  case (open_session m s)
  then show ?thesis using senders_new [OF assms(1,4)] by simp
next
  case (datagram d)
  then show ?thesis using senders_dispatch [OF assms(1,4)] assms(4) by (simp add: receive_one split: option.splits)
next
  case (receive k c c' s' p)
  let ?s = "live w ! k"
  obtain own where "owned queue own (mgr w)" "session_ok own (mgr w) ?s"
    using assms(3) receive(2) by (auto simp: relay_inv_def)
  then have "carries (us_id ?s) (us_defrag ?s)" "\<forall>x\<in>set (queue c). session_id x = us_id ?s"
    using owned_queue [OF _ receive(3)] by (auto simp: session_ok_def)
  then have "tx c' = tx c" using session_recv_result [OF assms(1) _ _ receive(4)] by blast
  then show ?thesis using assms(4) receive(1,3) by (auto simp: senders_ok_def)
next
  case (close_session k)
  then show ?thesis
    using senders_remove [OF assms(1,4)] chan_ok_tx(2) [OF assms(1)]
    by (auto simp: session_drop_def intro: senders_on_chan)
qed

lemma relay_reachable_senders:
  assumes "chan_ok ops queue tx" and "rtranclp (relay_step ovf ops) relay_new w"
  shows "relay_inv queue w \<and> senders_ok tx (mgr w)"
  using assms(2)
proof induction
  case base
  then show ?case using relay_new_inv by (simp add: senders_ok_def relay_new_def manager_new_def)
next
  case (step v w)
  then show ?case using relay_step_inv [OF assms(1)] senders_step [OF assms(1)] by blast
qed

section \<open>Properties\<close>

lemma live_channel:
  assumes "owned queue own m" and "session_ok own m s"
  shows "\<exists>c. chans m (us_rx s) = Some c"
  using assms unfolding owned_def session_ok_def by (metis not_Some_eq)

lemma queue_room_ok: "room_ok queue_chan_ops (\<lambda>c. if qc_rx c then qc_cap c - length (qc_queue c) else 0)"
  by (auto simp: room_ok_def queue_chan_ops_def)

text \<open>
  C19. Dropping the client ends every session, and loses nothing that had arrived. In any state
  that the relay can be in when its manager goes with the client, let \<open>c\<close> be the channel of a
  live session. The drop leaves its queue as it is. The defragger of the session, fed with that
  queue, delivers the messages \<open>rs\<close>; polls of \<open>recv\<close> then return exactly their payloads and
  addresses, in that order, and after them, for good, the error that the session is closed. No
  poll waits. Without overflow checks the defragger does not panic; with them, this is for queues
  on which it does not.
\<close>

theorem dropped_client_ends_sessions:
  assumes "chan_ok ops queue tx" and "rtranclp (relay_step ovf ops) relay_new w" and "s \<in> set (live w)"
  shows "\<exists>c c'. chans (mgr w) (us_rx s) = Some c \<and>
    chans (manager_drop ops (mgr w)) (us_rx s) = Some c' \<and> queue c' = queue c \<and>
    (\<not> ovf \<longrightarrow> feed_all ovf (us_defrag s) (queue c) \<noteq> None) \<and>
    (\<forall>d rs n. feed_all ovf (us_defrag s) (queue c) = Some (d, rs) \<longrightarrow>
       (\<exists>st. polls ovf ops (c', s) (length (payloads rs) + n) =
          Some (st, map (Ready \<circ> Inr) (payloads rs) @ replicate n (Ready (Inl err_session_closed)))))"
proof -
  obtain own where o: "owned queue own (mgr w)" "session_ok own (mgr w) s" and tx: "senders_ok tx (mgr w)"
    using relay_reachable_senders [OF assms(1,2)] assms(3) by (auto simp: relay_inv_def)
  obtain c where c: "chans (mgr w) (us_rx s) = Some c" using live_channel [OF o] by blast
  define c' where "c' = (if us_rx s \<in> ran (sessions (mgr w)) then ch_drop_tx ops c else c)"
  have c': "chans (manager_drop ops (mgr w)) (us_rx s) = Some c'" using c by (simp add: manager_drop_def c'_def)
  have q: "queue c' = queue c" using assms(1) by (simp add: c'_def chan_ok_def)
  have ntx: "\<not> tx c'" using tx c chan_ok_tx(1) [OF assms(1)] by (auto simp: c'_def senders_ok_def)
  obtain H where "df_ok H (us_defrag s)" using o(2) by (auto simp: session_ok_def elim: carries_history)
  from df_release.run_total [OF this, of "queue c"] have total: "\<not> ovf \<longrightarrow> feed_all ovf (us_defrag s) (queue c) \<noteq> None"
    by (cases ovf) auto
  have "\<exists>st. polls ovf ops (c', s) (length (payloads rs) + n) =
      Some (st, map (Ready \<circ> Inr) (payloads rs) @ replicate n (Ready (Inl err_session_closed)))"
    if rs: "feed_all ovf (us_defrag s) (queue c) = Some (d, rs)" for d rs n
    by (rule polls_after_close [OF assms(1) _ ntx]) (use rs q in simp)
  then show ?thesis using c c' q total by blast
qed

theorem dropped_client_ends_sessions_witness:
  "\<exists>w s c st. rtranclp (relay_step True queue_chan_ops) relay_new w \<and> s \<in> set (live w) \<and>
     chans (manager_drop queue_chan_ops (mgr w)) (us_rx s) = Some c \<and>
     polls True queue_chan_ops (c, s) 3 =
       Some (st, [Ready (Inr ([98], [97])), Ready (Inl err_session_closed), Ready (Inl err_session_closed)])"
proof -
  let ?n = "relay_new :: queue_chan relay" and ?d = "[0, 0, 0, 1, 0, 2, 0, 1, 1, 97, 98 :: u8]"
  let ?s = "\<lparr>us_id = 1, us_rx = 0, us_defrag = defragger_default\<rparr>"
  let ?m = "\<lparr>session_id = 1, packet_id = 2, frag_id = 0, frag_count = 1, addr = [97], data = [98]\<rparr>"
  obtain m where n: "new_session queue_chan_ops (mgr ?n) = (m, ?s)"
    "sessions m 1 = Some 0" "chans m 0 = Some (ch_new queue_chan_ops 1024)"
    by (simp add: new_session_def relay_new_def manager_new_def Let_def SESSION_CHAN_SIZE_def)
  let ?w = "\<lparr>mgr = m, live = live ?n @ [?s]\<rparr>"
  let ?w2 = "?w\<lparr>mgr := fst (receive_loop queue_chan_ops [Inr ?d] [True] (mgr ?w))\<rparr>"
  have "relay_step True queue_chan_ops relay_new ?w" by (rule relay_step.open_session [OF n(1)])
  then have r: "rtranclp (relay_step True queue_chan_ops) relay_new ?w2"
    using relay_step.datagram [of True queue_chan_ops ?w ?d] by (meson r_into_rtranclp rtranclp.rtrancl_into_rtrancl)
  have l: "?s \<in> set (live ?w2)" by simp
  have "parse ?d = Some ?m" by code_simp
  then have "mgr ?w2 = dispatch queue_chan_ops m ?m" by (simp only: relay.simps receive_one option.case)
  then have one: "map_option qc_queue (chans (mgr ?w2) 0) = Some [?m]"
    using n(2,3) by (simp add: dispatch_def on_chan_chans queue_chan_ops_def)
  from dropped_client_ends_sessions [OF queue_chan_ok r l] obtain c c' where
    c: "chans (mgr ?w2) (us_rx ?s) = Some c" "chans (manager_drop queue_chan_ops (mgr ?w2)) (us_rx ?s) = Some c'"
    and p: "\<And>d rs n. feed_all True (us_defrag ?s) (qc_queue c) = Some (d, rs) \<Longrightarrow>
       \<exists>st. polls True queue_chan_ops (c', ?s) (length (payloads rs) + n) =
          Some (st, map (Ready \<circ> Inr) (payloads rs) @ replicate n (Ready (Inl err_session_closed)))" by blast
  have "qc_queue c = [?m]" using one c(1) by simp
  then have "feed_all True (us_defrag ?s) (qc_queue c) = Some (defragger_default, [Some ?m])" by (simp add: feed_def)
  from p [OF this, of 2] have "\<exists>st. polls True queue_chan_ops (c', ?s) 3 =
       Some (st, [Ready (Inr ([98], [97])), Ready (Inl err_session_closed), Ready (Inl err_session_closed)])"
    by (simp add: numeral_2_eq_2 numeral_3_eq_3)
  then show ?thesis using r l c(2) by blast
qed

text \<open>
  C3. UDP end to end. A session sends a payload, and the datagrams that leave come back to the
  client, in any order, with repetitions, and among any other traffic: malformed datagrams and
  messages for other sessions. If the session's channel has room for them, then after the
  receive loop has taken the last missing one, \<open>recv\<close> returns exactly the payload and the
  address. This covers fragmentation, the wire format, routing and reassembly together.
\<close>

theorem udp_echo:
  assumes "chan_ok ops queue tx" and "room_ok ops room" and "conn_ok conn sent"
    and "rtranclp (relay_step ovf ops) relay_new w" and "s \<in> set (live w)"
    and "sessions (mgr w) (us_id s) = Some (us_rx s)" and "chans (mgr w) (us_rx s) = Some c" and "queue c = []"
    and "utf8_valid address" and "0 < length address" and "length address \<le> 2048" and "payload \<noteq> []"
    and "\<forall>q. header_size (session_msg s payload address) < datagram_limit conn q \<and>
      div_ceil (length payload) (datagram_limit conn q - header_size (session_msg s payload address)) \<le> 255"
    and "pkt_id (us_defrag s) \<noteq> pid \<or> frags (us_defrag s) = []"
    and "session_send ovf conn pid s payload address q = Some (q', Inr ())" and "sent q' = sent q @ ds"
    and "set js \<subset> {..<length ds}" and "insert j (set js) = {..<length ds}" and "length js < room c"
    and "filter (addressed (us_id s)) es = map (nth ds) (js @ [j])"
  shows "\<exists>m' c1 c2 s'. receive_loop ops (map Inr es) (replicate (length es) True) (mgr w) = (m', False) \<and>
    chans m' (us_rx s) = Some c1 \<and>
    session_recv ovf ops c1 s = Some (Some (c2, s', Ready (Inr (payload, address)))) \<and> queue c2 = []"
proof -
  obtain own where o: "owned queue own (mgr w)" "session_ok own (mgr w) s"
    using relay_reachable_inv [OF assms(1,4)] assms(5) by (auto simp: relay_inv_def)
  have u: "\<forall>i. sessions (mgr w) i = Some (us_rx s) \<longleftrightarrow> i = us_id s"
    using o assms(6) unfolding owned_def session_ok_def by metis
  obtain ms m where ms: "ds = map udp_wire ms" "reassembles ovf pid ms m"
    and m: "session_id m = us_id s" "addr m = address" "data m = payload"
    using session_sends [OF assms(3,9-13,15)] assms(16) by auto
  have room: "length (filter (addressed (us_id s)) es) \<le> room c" using assms(19,20) by simp
  from receive_loop_queue [OF assms(1,2) u assms(7) room] obtain m' c1 where
    loop: "receive_loop ops (map Inr es) (replicate (length es) True) (mgr w) = (m', False)"
    and c1: "chans m' (us_rx s) = Some c1" "queue c1 = map (the \<circ> parse) (map (nth ds) (js @ [j]))"
    unfolding assms(8,20) by auto
  have js: "set (js @ [j]) \<subseteq> {..<length ms}" using assms(17,18) ms(1) by auto
  have "the (parse (ds ! k)) = ms ! k" if "k < length ms" for k
    using arg_cong [OF ms(2) [unfolded reassembles_def, THEN conjunct2, THEN conjunct1], of "\<lambda>xs. xs ! k"] that ms(1) by simp
  then have q: "queue c1 = map (nth ms) (js @ [j])"
    unfolding c1(2) map_map using js by (intro map_cong) auto
  obtain d where "feed_all ovf (us_defrag s) (queue c1) = Some (d, replicate (length js) None @ [Some (m\<lparr>frag_id := 0, frag_count := 1\<rparr>)])"
    using ms assms(14,17,18) unfolding q reassembles_def by (metis length_map)
  from recv_last [OF assms(1) this] m loop c1(1) show ?thesis by auto
qed

theorem udp_echo_witness:
  "\<exists>w s q' m' c1 c2 s'. rtranclp (relay_step True queue_chan_ops) relay_new w \<and> s \<in> set (live w) \<and>
     session_send True (log_conn_ops 14) 9 s [1, 2, 3, 4, 5] (str ''a:1'') [] = Some (q', Inr ()) \<and> length q' = 3 \<and>
     receive_loop queue_chan_ops (map Inr [q' ! 2, [], q' ! 0, q' ! 2, q' ! 1]) (replicate 5 True) (mgr w) = (m', False) \<and>
     chans m' (us_rx s) = Some c1 \<and>
     session_recv True queue_chan_ops c1 s = Some (Some (c2, s', Ready (Inr ([1, 2, 3, 4, 5], str ''a:1''))))"
proof -
  let ?n = "relay_new :: queue_chan relay" and ?a = "str ''a:1''" and ?p = "[1, 2, 3, 4, 5 :: u8]"
  let ?s = "\<lparr>us_id = 1, us_rx = 0, us_defrag = defragger_default\<rparr>"
  obtain m where n: "new_session queue_chan_ops (mgr ?n) = (m, ?s)"
    "sessions m 1 = Some 0" "chans m 0 = Some (ch_new queue_chan_ops 1024)"
    by (simp add: new_session_def relay_new_def manager_new_def Let_def SESSION_CHAN_SIZE_def)
  let ?w = "\<lparr>mgr = m, live = live ?n @ [?s]\<rparr>"
  have r: "rtranclp (relay_step True queue_chan_ops) relay_new ?w"
    by (rule r_into_rtranclp, rule relay_step.open_session [OF n(1)])
  have u: "utf8_valid ?a" by (rule utf8_valid_ascii) code_simp
  have hs: "header_size (session_msg ?s ?p ?a) = 12" by code_simp
  have lim: "datagram_limit (log_conn_ops 14) q = 14" for q by (simp add: datagram_limit_def log_conn_ops_def)
  have l: "\<forall>q. header_size (session_msg ?s ?p ?a) < datagram_limit (log_conn_ops 14) q \<and>
      div_ceil (length ?p) (datagram_limit (log_conn_ops 14) q - header_size (session_msg ?s ?p ?a)) \<le> 255"
    unfolding lim hs by (simp add: div_ceil_def)
  have "map_option (\<lambda>(q, r). (map (addressed 1) q, r)) (session_send True (log_conn_ops 14) 9 ?s ?p ?a [])
      = Some ([True, True, True], Inr ())" unfolding session_send_eq by code_simp
  then obtain q' where q': "session_send True (log_conn_ops 14) 9 ?s ?p ?a [] = Some (q', Inr ())"
    "map (addressed 1) q' = [True, True, True]" by auto
  have q3: "length q' = 3" using arg_cong [OF q'(2), of length] by simp
  have "addressed 1 (q' ! k)" if "k < 3" for k
    using arg_cong [OF q'(2), of "\<lambda>xs. xs ! k"] that q3 by (auto simp: less_Suc_eq numeral_3_eq_3)
  moreover have "\<not> addressed 1 []" by code_simp
  ultimately have f: "filter (addressed (us_id ?s)) [q' ! 2, [], q' ! 0, q' ! 2, q' ! 1] = map (nth q') ([2, 0, 2] @ [1])"
    by simp
  have three: "{..<length q'} = {0, 1, 2}" using q3 by (auto simp: less_Suc_eq numeral_3_eq_3)
  have j: "set [2, 0, 2] \<subset> {..<length q'}" "insert 1 (set [2, 0, 2]) = {..<length q'}"
    unfolding three by auto
  have s: "?s \<in> set (live ?w)" "sessions (mgr ?w) (us_id ?s) = Some (us_rx ?s)"
    "chans (mgr ?w) (us_rx ?s) = Some (ch_new queue_chan_ops 1024)" using n by simp_all
  have c: "qc_queue (ch_new queue_chan_ops 1024) = []" "length [2, 0, 2 :: nat] < (let c = ch_new queue_chan_ops 1024 in
      if qc_rx c then qc_cap c - length (qc_queue c) else 0)" by (simp_all add: queue_chan_ops_def)
  have d: "pkt_id (us_defrag ?s) \<noteq> 9 \<or> frags (us_defrag ?s) = []" by (simp add: defragger_default_def)
  have a: "0 < length ?a" "length ?a \<le> 2048" "?p \<noteq> []" by simp_all
  have five: "length [q' ! 2, [], q' ! 0, q' ! 2, q' ! 1] = 5" by simp
  have e: "q' = [] @ q'" by simp
  note udp_echo [OF queue_chan_ok queue_room_ok log_conn_ok r s c(1) u a l d q'(1) e j c(2) [unfolded Let_def] f, unfolded five]
  then show ?thesis using r s(1) q'(1) q3 by blast
qed

end
