(* ===== verification/Full_Duplex.thy ===== *)
theory Full_Duplex
  imports Hysteria_Client
begin

text \<open>
  A proxied connection in both directions at once: the operations of \<open>AsyncRead\<close> and
  \<open>AsyncWrite\<close> of \<^verbatim>\<open>src/src/stream.rs\<close>, called in any order on a stream that
  \<open>tcp_connect\<close> returned. \<open>stream_poll\<close> is one call; a run is \<open>run_steps\<close> of theory
  \<open>Step_Machine\<close>. The reading half is \<open>recv_stream\<close>; the sending half is quinn's, and
  \<open>send_ok\<close> says what is relied on.
\<close>

record 's send_ops =
  q_write :: "'s \<Rightarrow> bytes \<Rightarrow> 's \<times> (bytes + nat) poll"
  q_flush :: "'s \<Rightarrow> 's \<times> unit io_result poll"
  q_finish :: "'s \<Rightarrow> 's \<times> unit io_result poll"

datatype stream_op = Read nat | Write bytes | Flush | Shutdown

datatype stream_out =
    DidRead nat "bytes io_result poll"
  | DidWrite bytes "nat io_result poll"
  | DidFlush "unit io_result poll"

fun stream_poll ::
    "'r reader \<Rightarrow> 's send_ops \<Rightarrow> ('s, 'r) duplex_stream \<Rightarrow> stream_op \<Rightarrow> (('s, 'r) duplex_stream \<times> stream_out) run" where
  "stream_poll rd so me (Read cap) = map_option (\<lambda>(me, p). (me, DidRead cap p)) (poll_read rd me cap)"
| "stream_poll rd so me (Write buf) = (case poll_write (q_write so) me buf of (me, p) \<Rightarrow> Some (me, DidWrite buf p))"
| "stream_poll rd so me Flush = (case poll_flush (q_flush so) me of (me, p) \<Rightarrow> Some (me, DidFlush p))"
| "stream_poll rd so me Shutdown = (case poll_shutdown (q_finish so) me of (me, p) \<Rightarrow> Some (me, DidFlush p))"

text \<open>What the application read, and what the stream took from it.\<close>

fun got :: "stream_out \<Rightarrow> bytes" where
  "got (DidRead cap p) = read_bytes p"
| "got _ = []"

fun taken :: "stream_out \<Rightarrow> bytes" where
  "taken (DidWrite buf (Ready (Inr n))) = take n buf"
| "taken _ = []"

fun saw_end :: "stream_out \<Rightarrow> bool" where
  "saw_end (DidRead cap p) \<longleftrightarrow> 0 < cap \<and> p = Ready (Inr [])"
| "saw_end _ \<longleftrightarrow> False"

text \<open>
  The sending half, as quinn documents it: a write takes as many bytes as it reports, from the
  front of the buffer; one that waits or fails takes none, and flushing and finishing add none.
\<close>

definition send_ok :: "'s send_ops \<Rightarrow> ('s \<Rightarrow> bytes) \<Rightarrow> bool" where
  "send_ok so sent \<longleftrightarrow>
     (\<forall>s buf s' n. q_write so s buf = (s', Ready (Inr n)) \<longrightarrow> n \<le> length buf \<and> sent s' = sent s @ take n buf) \<and>
     (\<forall>s buf s' e. q_write so s buf = (s', Ready (Inl e)) \<longrightarrow> sent s' = sent s) \<and>
     (\<forall>s buf s'. q_write so s buf = (s', Pending) \<longrightarrow> sent s' = sent s) \<and>
     (\<forall>s. sent (fst (q_flush so s)) = sent s) \<and> (\<forall>s. sent (fst (q_finish so s)) = sent s)"

lemma ds_ok_send [simp]: "ds_ok rest (me\<lparr>send := s\<rparr>) = ds_ok rest me"
  by (simp add: ds_ok_def whole_def)

lemma app_left_send [simp]: "app_left rest (me\<lparr>send := s\<rparr>) = app_left rest me"
proof -
  have "whole rest (me\<lparr>send := s\<rparr>) = whole rest me" by (simp add: whole_def)
  then show ?thesis by (cases "parse_tcp_response (whole rest me)") (simp_all add: app_left_def)
qed

lemma poll_result_cases:
  obtains "p = Pending" | e where "p = Ready (Inl e)" | x where "p = Ready (Inr x)"
  by (metis poll.exhaust sum.exhaust)

lemma write_taken:
  assumes "send_ok so sent" and "stream_poll rd so me op = Some (me', out)" and "\<forall>cap. op \<noteq> Read cap"
  shows "me' = me\<lparr>send := send me'\<rparr>" and "sent (send me') = sent (send me) @ taken out" and "got out = []" and "\<not> saw_end out"
proof -
  obtain s where s: "me' = me\<lparr>send := s\<rparr>" "sent s = sent (send me) @ taken out" "got out = []" "\<not> saw_end out"
  proof (cases op)
    case (Write buf)
    obtain s p where w: "q_write so (send me) buf = (s, p)" by fastforce
    then have o: "me' = me\<lparr>send := s\<rparr>" "out = DidWrite buf (poll_map_err (io_error_new Other) p)"
      using assms(2) Write by (simp_all add: poll_write_def)
    show ?thesis
    proof (rule that [OF o(1)])
      show "sent s = sent (send me) @ taken out"
        using assms(1) w unfolding o send_ok_def
        by (cases p rule: poll_result_cases) (simp_all, blast+)
    qed (simp_all add: o)
  next
    case Flush
    then show ?thesis
      using assms(1,2) that [of "fst (q_flush so (send me))"] by (auto simp: send_ok_def poll_flush_def split: prod.splits)
  next
    case Shutdown
    then show ?thesis
      using assms(1,2) that [of "fst (q_finish so (send me))"] by (auto simp: send_ok_def poll_shutdown_def split: prod.splits)
  qed (use assms(3) in simp)
  then show "me' = me\<lparr>send := send me'\<rparr>" "sent (send me') = sent (send me) @ taken out" "got out = []" "\<not> saw_end out"
    by simp_all
qed

context recv_stream
begin

lemma poll_read_send: "poll_read rd me cap = Some (me', p) \<Longrightarrow> send me' = send me"
proof (cases "response_done me")
  case False
  from poll_establish_ends [OF this] obtain me1 q where
    "poll_establish rd me = Some (me1, q)" "establish_ends rd rest me me1 q" by blast
  then show "poll_read rd me cap = Some (me', p) \<Longrightarrow> send me' = send me" using False
    by (auto simp: poll_read_def establish_ends_def Let_def split: poll.splits sum.splits if_splits prod.splits Option.bind_splits)
qed (auto simp: poll_read_def Let_def split: if_splits prod.splits Option.bind_splits)

lemma read_taken:
  assumes "ds_ok rest me"
  shows "\<exists>me' p. stream_poll rd so me (Read cap) = Some (me', DidRead cap p) \<and> ds_ok rest me' \<and> send me' = send me \<and>
    app_left rest me = read_bytes p @ app_left rest me' \<and> (saw_end (DidRead cap p) \<longrightarrow> app_left rest me = [])"
proof -
  from poll_read_contract [OF assms, of cap] obtain me' p where
    p: "poll_read rd me cap = Some (me', p)" "ds_ok rest me'" "app_left rest me = read_bytes p @ app_left rest me'"
      "p = Ready (Inr []) \<longrightarrow> 0 < cap \<longrightarrow> app_left rest me = []" by blast
  then show ?thesis using poll_read_send [OF p(1)] by (intro exI [of _ me'] exI [of _ p]) auto
qed

text \<open>One call, in either direction: the bytes that are owed and the bytes that are sent.\<close>

lemma stream_call:
  assumes "send_ok so sent" and "ds_ok rest me"
  obtains me' out where "stream_poll rd so me op = Some (me', out)" "ds_ok rest me'"
    "app_left rest me = got out @ app_left rest me'" "sent (send me') = sent (send me) @ taken out"
    "saw_end out \<longrightarrow> app_left rest me = []"
proof (cases "\<exists>cap. op = Read cap")
  case True
  then obtain cap where "op = Read cap" by blast
  with read_taken [OF assms(2), of so cap] that show ?thesis by fastforce
next
  case False
  then have "stream_poll rd so me op \<noteq> None" by (cases op) (auto split: prod.splits)
  then obtain me' out where o: "stream_poll rd so me op = Some (me', out)" by fastforce
  from write_taken [OF assms(1) o] False have
    w: "me' = me\<lparr>send := send me'\<rparr>" "sent (send me') = sent (send me) @ taken out" "got out = []" "\<not> saw_end out" by auto
  then have "ds_ok rest me'" "app_left rest me' = app_left rest me"
    using assms(2) by (metis ds_ok_send, metis app_left_send)
  then show ?thesis using o w that by simp
qed

lemma stream_calls:
  assumes "send_ok so sent" and "ds_ok rest me"
  shows "\<exists>me' outs. run_steps (stream_poll rd so) me ops = Some (me', outs) \<and>
    app_left rest me = concat (map got outs) @ app_left rest me' \<and>
    sent (send me') = sent (send me) @ concat (map taken outs) \<and>
    ((\<exists>out\<in>set outs. saw_end out) \<longrightarrow> app_left rest me' = [])"
  using assms(2)
proof (induction ops arbitrary: me)
  case (Cons op ops)
  obtain me1 out where o: "stream_poll rd so me op = Some (me1, out)" "ds_ok rest me1"
    "app_left rest me = got out @ app_left rest me1" "sent (send me1) = sent (send me) @ taken out"
    "saw_end out \<longrightarrow> app_left rest me = []"
    using stream_call [OF assms(1) Cons.prems, of op] by blast
  from Cons.IH [OF o(2)] o show ?case by auto
qed simp

end

text \<open>A sending half that takes two bytes at a time, and the reading script, for the witness.\<close>

definition slow_send :: "bytes send_ops" where
  "slow_send = \<lparr>q_write = (\<lambda>s buf. (s @ take 2 buf, Ready (Inr (min 2 (length buf))))),
     q_flush = (\<lambda>s. (s, Ready (Inr ()))), q_finish = (\<lambda>s. (s, Ready (Inr ())))\<rparr>"

lemma slow_send_ok: "send_ok slow_send id"
  by (auto simp: send_ok_def slow_send_def min_def)

section \<open>The property\<close>

text \<open>
  C2. A proxied connection carries both directions. On a stream that \<open>tcp_connect\<close> returned, with
  fast open or without, let the application read, write, flush and shut down in any order. What
  the peer gets, it reads as one request for the address followed by exactly the bytes that the
  writes reported as taken, in order; what the application gets is a prefix of what the peer sent
  after its response, in order, and all of it once a read reports the end. No order of the calls
  lets one direction disturb the other, and data written before the response has arrived is not
  lost.
\<close>

theorem tcp_full_duplex:
  fixes cl :: "('k, 'w, 'c) hysteria_client"
  assumes "rng_ok rng" and "length address < 2 ^ 32" and "quic_ok q sent" and "send_ok so sent"
    and "recv_stream rd rest" and "eventually_ready rd \<mu>"
    and "open_bi q (hy_conn cl) n = (n1, Inr (s, r))" and "sent s = []"
    and "rest r = tcp_response_wire 0 msg pad @ app" and "length msg \<le> 2048" and "length pad \<le> 4096"
    and "client_tcp_connect q rd rng cl address n = Some (n', Inr st)"
  shows "\<exists>st' outs pad' left. run_steps (stream_poll rd so) st ops = Some (st', outs) \<and>
    read_tcp_request (sent (send st')) = Some (0x401, address, pad', concat (map taken outs)) \<and>
    app = concat (map got outs) @ left \<and> ((\<exists>out\<in>set outs. saw_end out) \<longrightarrow> left = [])"
proof (rule tcp_connect_accepted [OF assms(1-3,5-7,9-11)], goal_cases)
  case (1 n' x)
  then show ?case using assms(12) by simp
next
  case (2 m st0 frame)
  then have st: "sent (send st) = frame" "carries_request address frame" "ds_ok rest st" "app_left rest st = app"
    using assms(8,12) by simp_all
  from recv_stream.stream_calls [OF assms(5,4) st(3), of ops] st show ?case
    unfolding carries_request_def by (metis (no_types, lifting))
qed

theorem tcp_full_duplex_witness:
  "\<exists>n' st st' outs pad left. client_tcp_connect (lab_quic [Arrive [0, 0], Stall, Arrive [0, 104, 105]]) script_read lab_rng
       (lab_client True) (str ''a:1'') 7 = Some (n', Inr st) \<and>
     run_steps (stream_poll script_read slow_send) st [Write [1, 2, 3], Read 9, Write [3], Read 9] = Some (st', outs) \<and>
     read_tcp_request (send st') = Some (0x401, str ''a:1'', pad, concat (map taken outs)) \<and>
     [104, 105] = concat (map got outs) @ left"
proof -
  let ?es = "[Arrive [0, 0], Stall, Arrive [0, 104, 105]]" and ?a = "str ''a:1''" and ?cl = "lab_client True"
  have o: "open_bi (lab_quic ?es) (hy_conn ?cl) 7 = (7, Inr ([], ?es))" by (simp add: lab_quic_def)
  have w: "script_rest ?es = tcp_response_wire 0 [] [] @ [104, 105]" by code_simp
  have l: "length ?a < 2 ^ 32" "length ([] :: bytes) \<le> 2048" "length ([] :: bytes) \<le> 4096" "id [] = []" by simp_all
  obtain frame where "encode_tcp_request lab_rng ?a = Some frame" using encode_carries [OF lab_rng_ok l(1)] by blast
  then have "\<exists>st. client_tcp_connect (lab_quic ?es) script_read lab_rng ?cl ?a 7 = Some (7, Inr st)"
    by (simp add: client_tcp_connect_def act_bind_def act_call_def lab_quic_def Let_def del: list.map)
  then obtain st where c: "client_tcp_connect (lab_quic ?es) script_read lab_rng ?cl ?a 7 = Some (7, Inr st)" by blast
  note f = tcp_full_duplex [OF lab_rng_ok l(1) lab_quic_ok slow_send_ok script.recv_stream_axioms script_eventually_ready
      o l(4) w l(2,3) c, of "[Write [1, 2, 3], Read 9, Write [3], Read 9]", unfolded id_apply]
  with c show ?thesis by blast
qed

end
