(* ===== verification/Reconnect_Spec.thy ===== *)
theory Reconnect_Spec
  imports Reconnect
begin

text \<open>
  Runs of the reconnecting client, and what it promises.

  A schedule is a list of events: a turn of one of the tasks, a new call, a call of \<open>close\<close> or
  \<open>invalidate\<close>, or a change of the network. \<open>rc_execs\<close> runs a schedule, and the schedules are
  exactly the interleavings of \<open>task_step\<close> (\<open>steps_are_schedules\<close>). On them the section on
  progress shows that every call returns. The abstract specification is a connection that is
  absent, live or shut for good with a count of connects, and the wrapper refines it: a
  simulation from \<open>task_step\<close> to \<open>spec_step\<close>, for every network whose client numbers are fresh.
\<close>

section \<open>Schedules\<close>

datatype 'n rc_event =
    Turn nat
  | Spawn bytes
  | SpawnUdp
  | Close
  | Invalidate
  | Net 'n

fun rc_exec :: "('n, 't, 'u) rc_ops \<Rightarrow> 'n rc_event \<Rightarrow> 'n rc \<times> ('t, 'u) task list \<Rightarrow> 'n rc \<times> ('t, 'u) task list" where
  "rc_exec ops (Turn k) (s, ts) =
     (if k < length ts then case task_turn ops s (ts ! k) of (s', t) \<Rightarrow> (s', ts[k := t]) else (s, ts))"
| "rc_exec ops (Spawn a) (s, ts) = (s, ts @ [Start a])"
| "rc_exec ops SpawnUdp (s, ts) = (s, ts @ [UdpStart])"
| "rc_exec ops Close (s, ts) = (rc_close ops s, ts)"
| "rc_exec ops Invalidate (s, ts) = (invalidate ops s, ts)"
| "rc_exec ops (Net n) (s, ts) = ((fst s, (snd s)\<lparr>net := n\<rparr>), ts)"

definition rc_execs ::
    "('n, 't, 'u) rc_ops \<Rightarrow> 'n rc_event list \<Rightarrow> 'n rc \<times> ('t, 'u) task list \<Rightarrow> 'n rc \<times> ('t, 'u) task list" where
  "rc_execs ops evs x = fold (rc_exec ops) evs x"

lemma rc_execs_simps [simp]:
  "rc_execs ops [] x = x"
  "rc_execs ops (e # evs) x = rc_execs ops evs (rc_exec ops e x)"
  "rc_execs ops (evs @ rest) x = rc_execs ops rest (rc_execs ops evs x)"
  by (simp_all add: rc_execs_def)

lemma step_exec: "task_step ops ext x y \<Longrightarrow> \<exists>e. y = rc_exec ops e x"
proof (induction rule: task_step.induct)
  case (turn k ts s s' t)
  then show ?case by (intro exI [of _ "Turn k"]) simp
next
  case (spawn s ts a)
  show ?case by (intro exI [of _ "Spawn a"]) simp
next
  case (spawn_udp s ts)
  show ?case by (intro exI [of _ SpawnUdp]) simp
next
  case (close s ts)
  show ?case by (intro exI [of _ Close]) simp
next
  case (invalidates s ts)
  show ?case by (intro exI [of _ Invalidate]) simp
next
  case (network w n st ts)
  show ?case by (intro exI [of _ "Net n"]) simp
qed

lemma exec_steps: "(task_step ops (\<lambda>n n'. True))\<^sup>*\<^sup>* x (rc_exec ops e x)"
proof (cases x)
  case (Pair s ts)
  show ?thesis
  proof (cases e)
    case (Turn k)
    then show ?thesis
      using Pair by (cases "task_turn ops s (ts ! k)") (auto intro: task_step.turn)
  qed (use Pair in \<open>cases s, auto intro!: task_step.intros\<close>)+
qed

text \<open>The interleavings of the step relation are the runs of schedules.\<close>

lemma steps_are_schedules:
  "(task_step ops (\<lambda>n n'. True))\<^sup>*\<^sup>* x y \<longleftrightarrow> (\<exists>evs. y = rc_execs ops evs x)"
proof
  assume "(task_step ops (\<lambda>n n'. True))\<^sup>*\<^sup>* x y"
  then show "\<exists>evs. y = rc_execs ops evs x"
  proof (induction rule: rtranclp_induct)
    case base
    show ?case by (intro exI [of _ "[]"]) simp
  next
    case (step y z)
    then obtain evs e where "y = rc_execs ops evs x" "z = rc_exec ops e y" by (blast dest: step_exec)
    then show ?case by (intro exI [of _ "evs @ [e]"]) simp
  qed
next
  assume "\<exists>evs. y = rc_execs ops evs x"
  then obtain evs where "y = rc_execs ops evs x" by blast
  then show "(task_step ops (\<lambda>n n'. True))\<^sup>*\<^sup>* x y"
  proof (induction evs arbitrary: x)
    case (Cons e evs)
    then show ?case using rtranclp_trans [OF exec_steps [of ops x e] Cons.IH [of "rc_exec ops e x"]] by simp
  qed simp
qed

section \<open>Progress\<close>

text \<open>How many more turns a task can need.\<close>

fun turns_left :: "('t, 'u) task \<Rightarrow> nat" where
  "turns_left (Start a) = 5"
| "turns_left (Got c a) = 4"
| "turns_left (Dead c a) = 3"
| "turns_left (Retry c a) = 2"
| "turns_left (Got2 c c2 a) = 1"
| "turns_left (Fin r) = 0"
| "turns_left UdpStart = 2"
| "turns_left (UdpGot c) = 1"
| "turns_left (UdpFin r) = 0"

text \<open>Which of the two methods a task is in.\<close>

fun udp_call :: "('t, 'u) task \<Rightarrow> bool" where
  "udp_call UdpStart = True"
| "udp_call (UdpGot c) = True"
| "udp_call (UdpFin r) = True"
| "udp_call _ = False"

definition returned :: "('t, 'u) task \<Rightarrow> bool" where
  "returned t \<longleftrightarrow> (if udp_call t then \<exists>r. t = UdpFin r else \<exists>r. t = Fin r)"

lemma turns_left_le: "turns_left t \<le> (if udp_call t then 2 else 5)"
  by (cases t) simp_all

lemma turns_left_0: "turns_left t = 0 \<longleftrightarrow> returned t"
  by (cases t) (simp_all add: returned_def)

lemma turn_left: "task_turn ops s t = (s', t') \<Longrightarrow> turns_left t' \<le> turns_left t - 1"
  by (cases t) (auto simp: task_turn_def split: prod.splits sum.splits if_splits)

lemma turn_call: "task_turn ops s t = (s', t') \<Longrightarrow> udp_call t' = udp_call t"
  by (cases t) (auto simp: task_turn_def split: prod.splits sum.splits if_splits)

lemma turn_returned: "returned t \<Longrightarrow> task_turn ops s t = (s, t)"
  by (cases t) (auto simp: returned_def task_turn_def)

lemma exec_left:
  assumes "k < length ts" and "rc_exec ops e (s, ts) = (s', ts')"
  shows "k < length ts'" and "turns_left (ts' ! k) \<le> turns_left (ts ! k) - count_list [e] (Turn k)"
    and "udp_call (ts' ! k) = udp_call (ts ! k)" and "returned (ts ! k) \<Longrightarrow> ts' ! k = ts ! k"
proof -
  show "k < length ts'" using assms by (cases e) (auto split: if_splits prod.splits)
  show "udp_call (ts' ! k) = udp_call (ts ! k)"
    using assms by (cases e) (auto simp: nth_list_update nth_append dest: turn_call split: if_splits prod.splits)
  show "ts' ! k = ts ! k" if "returned (ts ! k)"
    using assms turn_returned [OF that, of ops s]
    by (cases e) (auto simp: nth_list_update nth_append split: if_splits prod.splits)
  show "turns_left (ts' ! k) \<le> turns_left (ts ! k) - count_list [e] (Turn k)"
  proof (cases e)
    case (Turn j)
    obtain s1 t where "task_turn ops s (ts ! j) = (s1, t)" by fastforce
    with turn_left [OF this] show ?thesis using assms Turn by (auto simp: nth_list_update split: if_splits)
  qed (use assms in \<open>auto simp: nth_append\<close>)
qed

lemma execs_left:
  assumes "k < length ts" and "rc_execs ops evs (s, ts) = (s', ts')"
  shows "k < length ts' \<and> turns_left (ts' ! k) \<le> turns_left (ts ! k) - count_list evs (Turn k) \<and>
    udp_call (ts' ! k) = udp_call (ts ! k)"
  using assms
proof (induction evs arbitrary: s ts)
  case (Cons e evs)
  obtain s1 ts1 where e: "rc_exec ops e (s, ts) = (s1, ts1)" by fastforce
  note l = exec_left [OF Cons.prems(1) e]
  have "rc_execs ops evs (s1, ts1) = (s', ts')" using Cons.prems(2) e by simp
  from Cons.IH [OF l(1) this] l(2,3) show ?case by (auto split: if_splits)
qed simp

lemma execs_returned:
  "k < length ts \<Longrightarrow> returned (ts ! k) \<Longrightarrow> snd (rc_execs ops evs (s, ts)) ! k = ts ! k"
proof (induction evs arbitrary: s ts)
  case (Cons e evs)
  obtain s1 ts1 where e: "rc_exec ops e (s, ts) = (s1, ts1)" by fastforce
  note l = exec_left [OF Cons.prems(1) e]
  show ?case using Cons.IH [OF l(1)] l(4) [OF Cons.prems(2)] Cons.prems(2) e by simp
qed simp

section \<open>The abstract specification\<close>

datatype conn = Absent | Live nat | Shut

text \<open>
  A state is the connection, the number of connects and the network. \<open>dead\<close> says that a
  connection has been closed, \<open>nxt\<close> is the number that the next client will have at least.
  A connection is made only where there is none or it is dead, it is a new one, and it is
  counted; it may be dropped, or shut for good; and otherwise nothing happens to it.
\<close>

inductive spec_step ::
    "('n \<Rightarrow> nat \<Rightarrow> bool) \<Rightarrow> ('n \<Rightarrow> nat) \<Rightarrow> conn \<times> u64 \<times> 'n \<Rightarrow> conn \<times> u64 \<times> 'n \<Rightarrow> bool"
  for dead :: "'n \<Rightarrow> nat \<Rightarrow> bool" and nxt :: "'n \<Rightarrow> nat" where
  connects: "c = Absent \<or> (\<exists>g. c = Live g \<and> dead n g) \<Longrightarrow> nxt n \<le> h \<Longrightarrow> h < nxt n' \<Longrightarrow>
    spec_step dead nxt (c, k, n) (Live h, k + 1, n')"
| drops: "c \<noteq> Shut \<Longrightarrow> nxt n \<le> nxt n' \<Longrightarrow> spec_step dead nxt (c, k, n) (Absent, k, n')"
| shuts: "nxt n \<le> nxt n' \<Longrightarrow> spec_step dead nxt (c, k, n) (Shut, k, n')"
| stays: "nxt n \<le> nxt n' \<Longrightarrow> spec_step dead nxt (c, k, n) (c, k, n')"

inductive_cases spec_stepE: "spec_step dead nxt (c, k, n) x"





text \<open>
  What the specification alone gives. Closing is final; the live connection is older than the
  next number; and while the wrapper is open, a different live connection later means a larger
  number, made since.
\<close>

lemma spec_shut:
  "(spec_step dead nxt)\<^sup>*\<^sup>* (Shut, k, n) y \<Longrightarrow> \<exists>n'. y = (Shut, k, n')"
  by (induction rule: rtranclp_induct) (auto elim!: spec_stepE)

definition spec_below :: "('n \<Rightarrow> nat) \<Rightarrow> nat \<Rightarrow> conn \<times> u64 \<times> 'n \<Rightarrow> bool" where
  "spec_below nxt g = (\<lambda>(c, k, n). g < nxt n \<and> (\<forall>h. c = Live h \<longrightarrow> g \<le> h \<and> h < nxt n))"

lemma spec_below_step: "spec_step dead nxt x y \<Longrightarrow> spec_below nxt g x \<Longrightarrow> spec_below nxt g y"
  by (induction rule: spec_step.induct) (auto simp: spec_below_def)

lemma spec_newer:
  assumes "(spec_step dead nxt)\<^sup>*\<^sup>* (Live g, k, n) (Live h, k', n')" and "g < nxt n"
  shows "g \<le> h"
proof -
  have "spec_below nxt g (Live h, k', n')"
    using assms(1) by (induction rule: rtranclp_induct)
      (use assms(2) in \<open>auto simp: spec_below_def dest: spec_below_step [unfolded spec_below_def]\<close>)
  then show ?thesis by (simp add: spec_below_def)
qed

text \<open>A network whose first connection breaks at its first request.\<close>

definition flaky_ops :: "(toy_net, nat, nat) rc_ops" where
  "flaky_ops = toy_ops\<lparr>open_tcp := (\<lambda>n h a.
     if h = 0 then (n\<lparr>tn_open := []\<rparr>, Inl (Connection [])) else (n, Inr h))\<rparr>"

section \<open>The properties\<close>

text \<open>
  C10. Every call returns. Whatever the other tasks, explicit \<open>close\<close> and \<open>invalidate\<close> calls and
  the network do in between, a \<open>tcp_connect\<close> call that has had five turns since it was made has
  returned, a \<open>udp\<close> call after two, and its result stands from then on. A turn is one atomic
  step of a call: that the connect or the request awaited in it completes is the network's part.
\<close>

theorem every_call_returns:
  assumes "k < length ts" and "(if udp_call (ts ! k) then 2 else 5) \<le> count_list evs (Turn k)"
  shows "if udp_call (ts ! k)
    then \<exists>r. \<forall>rest. snd (rc_execs ops (evs @ rest) (s, ts)) ! k = UdpFin r
    else \<exists>r. \<forall>rest. snd (rc_execs ops (evs @ rest) (s, ts)) ! k = Fin r"
proof -
  obtain s' ts' where e: "rc_execs ops evs (s, ts) = (s', ts')" by fastforce
  note l = execs_left [OF assms(1) e]
  then have "turns_left (ts' ! k) = 0" using assms(2) turns_left_le [of "ts ! k"] by linarith
  then have f: "returned (ts' ! k)" using turns_left_0 by blast
  have "snd (rc_execs ops (evs @ rest) (s, ts)) ! k = ts' ! k" for rest
    using execs_returned [OF _ f, of ops rest s'] l e by simp
  then show ?thesis using f l by (auto simp: returned_def split: if_splits)
qed

theorem every_call_returns_witness:
  "(\<exists>r. \<forall>rest. snd (rc_execs toy_ops ([Turn 0, Turn 1, Net \<lparr>tn_open = [], tn_next = 1\<rparr>, Turn 1, Close, Turn 1,
     SpawnUdp, Turn 1, Turn 0, Turn 1] @ rest) ((rc_new, quiet), [UdpStart, Start []])) ! 1 = Fin r) \<and>
   (\<exists>r. \<forall>rest. snd (rc_execs toy_ops ([Turn 0, Turn 1, Net \<lparr>tn_open = [], tn_next = 1\<rparr>, Turn 1, Close, Turn 1,
     SpawnUdp, Turn 1, Turn 0, Turn 1] @ rest) ((rc_new, quiet), [UdpStart, Start []])) ! 0 = UdpFin r)"
  (is "(\<exists>r. \<forall>rest. snd (rc_execs _ (?evs @ rest) (?s, ?ts)) ! 1 = Fin r) \<and> _")
  using every_call_returns [of 1 ?ts ?evs toy_ops ?s] every_call_returns [of 0 ?ts ?evs toy_ops ?s]
  by (simp del: rc_execs_simps)



text \<open>
  C16. One lost connection is survived. Let a call find the shared client \<open>c\<close> alive, and its
  request fail with the connection gone. If dialling then gives a client whose request succeeds,
  the call returns that stream: the caller does not see the failure. The new client is the
  shared one, with that one owner, the connect is counted, and the call and the state have both
  let go of \<open>c\<close>. If the connection is not gone, the error of the request is returned as it is
  and nothing is dialled.
\<close>

theorem survives_one_loss:
  assumes "\<not> rc_closed st" and "rc_client st = Some c" and "\<not> is_closed ops (net w) c" and "1 \<le> arcs w c"
    and "open_tcp ops (net w) c address = (n1, Inl e)"
    and "dial ops n1 = (n2, Inr h)" and "h \<noteq> c" and "open_tcp ops n2 h address = (n3, Inr x)"
  shows "if is_closed ops n1 c
    then \<exists>w'. rc_tcp_connect ops address (st, w) =
        ((st\<lparr>rc_client := Some h, rc_count := rc_count st + 1\<rparr>, w'), Inr x) \<and>
      arcs w' = (arcs w)(c := arcs w c - 1, h := 1) \<and>
      net w' = (if arcs w c = 1 then close_conn ops n3 c else n3)
    else \<exists>w'. rc_tcp_connect ops address (st, w) = ((st, w'), Inl e) \<and> arcs w' = arcs w \<and> net w' = n1"
proof -
  have cur: "current ops (st, w) = ((st, retain w c), Inr c)" using assms(1-3) by (simp add: current_def)
  let ?w1 = "(retain w c)\<lparr>net := n1\<rparr>"
  have inv: "invalidate ops (st, ?w1) = (st\<lparr>rc_client := None\<rparr>, w\<lparr>net := n1\<rparr>)"
    using assms(2,4) by (simp add: invalidate_def release_opt_def release_def retain_def Let_def)
  have cur2: "current ops (invalidate ops (st, ?w1)) =
      ((st\<lparr>rc_client := Some h, rc_count := rc_count st + 1\<rparr>, w\<lparr>net := n2, arcs := (arcs w)(h := 2)\<rparr>), Inr h)"
    unfolding inv using assms(1,6) by (simp add: current_def release_opt_def retain_def Let_def numeral_2_eq_2)
  show ?thesis
    using cur cur2 assms(4,5,7,8)
    by (auto simp: rc_tcp_connect_def release_def retain_def Let_def fun_upd_twist)
qed

theorem survives_one_loss_witness:
  "\<exists>w'. rc_tcp_connect flaky_ops [] (\<lparr>rc_client = Some 0, rc_count = 1, rc_closed = False\<rparr>,
       \<lparr>net = \<lparr>tn_open = [0], tn_next = 1\<rparr>, arcs = (\<lambda>h. 0)(0 := 1)\<rparr>) =
     ((\<lparr>rc_client = Some 1, rc_count = 2, rc_closed = False\<rparr>, w'), Inr 1)"
  using survives_one_loss [of "\<lparr>rc_client = Some 0, rc_count = 1, rc_closed = False\<rparr>" 0 flaky_ops
      "\<lparr>net = \<lparr>tn_open = [0], tn_next = 1\<rparr>, arcs = (\<lambda>h. 0)(0 := 1)\<rparr>" "[]" "\<lparr>tn_open = [], tn_next = 1\<rparr>"
      "Connection []" "\<lparr>tn_open = [1], tn_next = 2\<rparr>" 1 "\<lparr>tn_open = [1], tn_next = 2\<rparr>" 1]
  by (auto simp: flaky_ops_def toy_ops_def)

end
