(* ===== verification/Crate_Tests.thy ===== *)
theory Crate_Tests
  imports Udp_Frag Salamander_Obfs Client_Config
begin

text \<open>
  The unit tests of the crate, the test modules of \<^verbatim>\<open>src/src/protocol.rs\<close>,
  \<^verbatim>\<open>src/src/transport/obfs.rs\<close> and \<^verbatim>\<open>src/src/config.rs\<close>, run on the model. A
  test is a computation that panics (\<open>None\<close>) where an assertion or an \<open>unwrap\<close> fails. Every
  test passes, in builds with overflow checks and without. The test of the
  obfuscation also asserts that the ciphertext differs from the plaintext, which the hash and the
  salt decide: it passes exactly when the keystream is not zero.
\<close>

definition assert_that :: "bool \<Rightarrow> unit run" where
  "assert_that b = (if b then Some () else None)"

lemma assert_that_simps [simp]: "assert_that True = Some ()" "assert_that False = None"
  by (simp_all add: assert_that_def)

section \<open>protocol.rs\<close>

definition test_msg :: "bytes \<Rightarrow> u8 \<Rightarrow> u8 \<Rightarrow> u16 \<Rightarrow> udp_message" where
  "test_msg d fid cnt pid =
     \<lparr>session_id = 0xDEADBEEF, packet_id = pid, frag_id = fid, frag_count = cnt,
      addr = str ''example.com:53'', data = d\<rparr>"

definition test_udp_message_roundtrip :: "unit run" where
  "test_udp_message_roundtrip = do {
     let m = test_msg (str ''hello world'') 0 1 0;
     (buf, r) \<leftarrow> serialize m (replicate (msg_size m) 0);
     n \<leftarrow> r;
     assert_that (n = msg_size m);
     part \<leftarrow> subslice buf 0 n;
     parsed \<leftarrow> parse part;
     assert_that (session_id parsed = session_id m);
     assert_that (addr parsed = addr m);
     assert_that (data parsed = data m) }"

definition test_udp_message_rejects_truncated_and_empty_data :: "unit run" where
  "test_udp_message_rejects_truncated_and_empty_data = do {
     let m = test_msg [] 0 1 0;
     (buf, r) \<leftarrow> serialize m (replicate (msg_size m + 1) 0);
     n \<leftarrow> r;
     part \<leftarrow> subslice buf 0 n;
     assert_that (parse part = None);
     assert_that (parse (replicate 4 0) = None) }"

text \<open>The loop that feeds fragments and keeps the last message that came out.\<close>

fun feed_loop ::
    "bool \<Rightarrow> defragger \<Rightarrow> udp_message list \<Rightarrow> udp_message option \<Rightarrow> udp_message option run" where
  "feed_loop ovf d [] out = Some out"
| "feed_loop ovf d (f # fs) out = do {
     (d, r) \<leftarrow> feed ovf d f;
     feed_loop ovf d fs (case r of Some full \<Rightarrow> Some full | None \<Rightarrow> out) }"

definition test_frag_then_defrag_reassembles :: "bool \<Rightarrow> unit run" where
  "test_frag_then_defrag_reassembles ovf = do {
     let payload = map of_nat [0..<1000];
     let m = test_msg payload 0 1 7;
     fs \<leftarrow> frag_udp_message ovf m (header_size m + 100);
     assert_that (1 < length fs);
     assert_that (list_all (\<lambda>f. unat (frag_count f) = length fs) fs);
     out \<leftarrow> feed_loop ovf defragger_default fs None;
     full \<leftarrow> out;
     assert_that (data full = payload);
     assert_that (frag_count full = 1) }"

definition test_defrag_passes_through_unfragmented :: "bool \<Rightarrow> unit run" where
  "test_defrag_passes_through_unfragmented ovf = do {
     (d, r) \<leftarrow> feed ovf defragger_default (test_msg (str ''single'') 0 1 0);
     out \<leftarrow> r;
     assert_that (data out = str ''single'') }"

definition test_defrag_new_packet_id_resets_state :: "bool \<Rightarrow> unit run" where
  "test_defrag_new_packet_id_resets_state ovf = do {
     let m1 = test_msg (replicate 300 1) 0 2 1;
     let p2 = replicate 200 2;
     f2 \<leftarrow> frag_udp_message ovf (test_msg p2 0 1 2) (header_size (test_msg p2 0 1 2) + 50);
     (d, r) \<leftarrow> feed ovf defragger_default m1;
     assert_that (r = None);
     out \<leftarrow> feed_loop ovf d f2 None;
     full \<leftarrow> out;
     assert_that (data full = p2) }"

section \<open>obfs.rs\<close>

definition test_obfs_roundtrip :: "(bytes \<Rightarrow> bytes) \<Rightarrow> (nat \<Rightarrow> bytes) \<Rightarrow> unit run" where
  "test_obfs_roundtrip blake fill = do {
     s \<leftarrow> salamander_new (str ''my-secret-key'');
     let plain = str ''the quick brown fox jumps over the lazy dog'';
     (obf, n) \<leftarrow> obfuscate blake fill s plain (replicate (length plain + 8) 0);
     assert_that (n = length plain + 8);
     tail \<leftarrow> subslice obf 8 (length obf);
     assert_that (tail \<noteq> plain);
     inp \<leftarrow> subslice obf 0 n;
     (out, k) \<leftarrow> deobfuscate blake s inp (replicate (length plain) 0);
     assert_that (k = length plain);
     got \<leftarrow> subslice out 0 k;
     assert_that (got = plain) }"

definition test_rejects_short_psk :: "unit run" where
  "test_rejects_short_psk = do {
     assert_that (salamander_new (str ''abc'') = None);
     assert_that (salamander_new (str ''abcd'') \<noteq> None) }"

definition test_deobfuscate_rejects_runt :: "(bytes \<Rightarrow> bytes) \<Rightarrow> unit run" where
  "test_deobfuscate_rejects_runt blake = do {
     s \<leftarrow> salamander_new (str ''key1'');
     (out, n) \<leftarrow> deobfuscate blake s (replicate 8 0) (replicate 16 0);
     assert_that (n = 0);
     (out, n) \<leftarrow> deobfuscate blake s [] out;
     assert_that (n = 0) }"

section \<open>config.rs\<close>

definition test_parse_ports_single_range_list :: "unit run" where
  "test_parse_ports_single_range_list = do {
     assert_that (parse_ports (str ''443'') = Some [443]);
     assert_that (parse_ports (str ''443,445'') = Some [443, 445]);
     assert_that (parse_ports (str ''100-103'') = Some [100, 101, 102, 103]);
     assert_that (parse_ports (str ''103-100,101'') = Some [100, 101, 102, 103]);
     every \<leftarrow> parse_ports (str ''*'');
     assert_that (length every = 65536);
     assert_that (parse_ports (str ''nope'') = None);
     assert_that (parse_ports [] = None) }"

definition test_host_part_strips_port :: "unit run" where
  "test_host_part_strips_port = do {
     let c = config_default\<lparr>server_addr := str ''example.com:20000-50000''\<rparr>;
     assert_that (host_part c = str ''example.com'');
     assert_that (resolved_server_name c = str ''example.com'') }"

section \<open>The tests pass\<close>

lemma test_udp_message_roundtrip_passes: "test_udp_message_roundtrip = Some ()"
  by code_simp

lemma test_udp_message_rejects_passes: "test_udp_message_rejects_truncated_and_empty_data = Some ()"
  by code_simp

lemma test_defrag_passes_through_passes: "test_defrag_passes_through_unfragmented ovf = Some ()"
  by (simp add: test_defrag_passes_through_unfragmented_def feed_def test_msg_def)

lemma test_rejects_short_psk_passes: "test_rejects_short_psk = Some ()"
  by code_simp

lemma test_deobfuscate_rejects_runt_passes: "test_deobfuscate_rejects_runt blake = Some ()"
  by (simp add: test_deobfuscate_rejects_runt_def salamander_new_def deobfuscate_def)

lemma test_host_part_strips_port_passes: "test_host_part_strips_port = Some ()"
proof -
  have "rsplit_once (of_char CHR '':'') (str ''example.com:20000-50000'') =
      Some (str ''example.com'', str ''20000-50000'')" by code_simp
  then show ?thesis
    by (simp add: test_host_part_strips_port_def host_part_def resolved_server_name_def config_default_def del: list.map)
qed

lemma feed_loop_all:
  assumes "feed_all ovf d fs = Some (d', rs @ [Some m])"
  shows "feed_loop ovf d fs out = Some (Some m)"
  using assms
proof (induction fs arbitrary: d out rs)
  case (Cons f fs)
  then obtain d1 r qs where f: "feed ovf d f = Some (d1, r)" "feed_all ovf d1 fs = Some (d', qs)"
    and rs: "r # qs = rs @ [Some m]" by (auto split: Option.bind_splits)
  show ?case
  proof (cases rs)
    case Nil
    then have "fs = []" using rs run_steps_length [OF f(2)] by simp
    then show ?thesis using f rs Nil by simp
  next
    case (Cons x xs)
    then have "feed_all ovf d1 fs = Some (d', xs @ [Some m])" using f(2) rs by simp
    then show ?thesis using f(1) Cons.IH by simp
  qed
qed simp

text \<open>All fragments of a message, in order, into a defragger that holds no fragment of its id.\<close>

lemma feed_loop_fragments:
  assumes "header_size m < limit" and "limit < msg_size m" and "frag_udp_message ovf m limit = Some fs"
    and "length fs \<le> 255" and "pkt_id d \<noteq> packet_id m"
  shows "feed_loop ovf d fs out = Some (Some (m\<lparr>frag_id := 0, frag_count := 1\<rparr>))"
proof -
  have "fs \<noteq> []"
    using frag_udp_message_eq [OF assms(2,1), of ovf] assms(1-3) div_ceil_gt_iff [of "limit - header_size m" 0 "length (data m)"]
    by (auto simp: msg_size_def split: if_splits)
  then obtain n where n: "length fs = Suc n" by (cases fs) auto
  have all: "map (nth fs) ([0..<n] @ [n]) = fs" using map_nth [of fs] n by simp
  have "set [0..<n] \<subset> {..<length fs}" "insert n (set [0..<n]) = {..<length fs}"
    unfolding n set_upt lessThan_Suc by auto
  with fragments_any_order [OF assms(1-4), of d "[0..<n]" n] assms(5) obtain d' where
    "feed_all ovf d fs = Some (d', replicate (length [0..<n]) None @ [Some (m\<lparr>frag_id := 0, frag_count := 1\<rparr>)])"
    unfolding all by blast
  then show ?thesis by (rule feed_loop_all)
qed

lemma test_frag_then_defrag_passes: "test_frag_then_defrag_reassembles ovf = Some ()"
proof -
  define m where "m = test_msg (map of_nat [0..<1000]) 0 1 7"
  have d: "length (data m) = 1000" "packet_id m = 7" "data m = map of_nat [0..<1000]" by (simp_all add: m_def test_msg_def)
  have s: "header_size m < header_size m + 100" "header_size m + 100 < msg_size m" using d by (simp_all add: msg_size_def)
  have fs: "frag_udp_message ovf m (header_size m + 100) = Some (map (fragment m 100 10) [0..<10])"
    using frag_udp_message_eq [OF s(2,1), of ovf] d by (simp add: div_ceil_def)
  have "feed_loop ovf defragger_default (map (fragment m 100 10) [0..<10]) None = Some (Some (m\<lparr>frag_id := 0, frag_count := 1\<rparr>))"
    by (rule feed_loop_fragments [OF s fs]) (simp_all add: d defragger_default_def)
  moreover have "list_all (\<lambda>f. unat (frag_count f) = 10) (map (fragment m 100 10) [0..<10])"
    by (simp add: list_all_iff fragment_def)
  ultimately show ?thesis
    unfolding test_frag_then_defrag_reassembles_def Let_def m_def [symmetric] fs by (simp add: d del: upt.simps)
qed

lemma test_defrag_new_packet_id_passes: "test_defrag_new_packet_id_resets_state ovf = Some ()"
proof -
  define m1 m2 where "m1 = test_msg (replicate 300 1) 0 2 1" and "m2 = test_msg (replicate 200 2) 0 1 2"
  have d: "length (data m2) = 200" "packet_id m2 = 2" "data m2 = replicate 200 2" by (simp_all add: m2_def test_msg_def)
  have s: "header_size m2 < header_size m2 + 50" "header_size m2 + 50 < msg_size m2" using d by (simp_all add: msg_size_def)
  have fs: "frag_udp_message ovf m2 (header_size m2 + 50) = Some (map (fragment m2 50 4) [0..<4])"
    using frag_udp_message_eq [OF s(2,1), of ovf] d by (simp add: div_ceil_def)
  have "\<not> frag_count m1 \<le> 1" "\<not> frag_count m1 \<le> frag_id m1" "packet_id m1 = 1" "frag_id m1 = 0" "frag_count m1 = 2"
    by (simp_all add: m1_def test_msg_def word_le_nat_alt)
  then obtain d1 where f: "feed ovf defragger_default m1 = Some (d1, None)" "pkt_id d1 = 1"
    by (simp add: feed_def defragger_default_def write_at_def)
  have "feed_loop ovf d1 (map (fragment m2 50 4) [0..<4]) None = Some (Some (m2\<lparr>frag_id := 0, frag_count := 1\<rparr>))"
    by (rule feed_loop_fragments [OF s fs]) (simp_all add: d f)
  then show ?thesis
    unfolding test_defrag_new_packet_id_resets_state_def Let_def m1_def [symmetric] m2_def [symmetric] fs f(1)
    by (simp add: f d del: upt.simps)
qed

text \<open>The masked text is the text exactly where the key is zero.\<close>

lemma xor_mask_id: "xor_mask key i cs = cs \<longleftrightarrow> (\<forall>j < length cs. key ! ((i + j) mod 32) = 0)"
proof (induction cs arbitrary: i)
  case (Cons c cs)
  have "c XOR k = c \<longleftrightarrow> k = 0" for k
    using xor.assoc [of c c k] by (cases "c XOR k = c") auto
  then show ?case using Cons.IH [of "Suc i"] by (auto simp: All_less_Suc2)
qed simp

lemma test_obfs_roundtrip_passes:
  assumes "blake_ok blake" and "fill_ok fill"
  shows "test_obfs_roundtrip blake fill = Some () \<longleftrightarrow>
    blake (str ''my-secret-key'' @ fill 8) \<noteq> replicate 32 0"
proof -
  define k plain where "k = str ''my-secret-key''" and "plain = str ''the quick brown fox jumps over the lazy dog''"
  have l: "length k = 13" "length plain = 43" by (simp_all add: k_def plain_def)
  then have ne: "plain \<noteq> []" by auto
  have f: "length (fill 8) = 8" "length (blake (k @ fill 8)) = 32" using assms by (simp_all add: blake_ok_def fill_ok_def)
  let ?w = "salamander_packet blake k (fill 8) plain"
  have w: "length ?w = 51" "drop 8 ?w = xor_mask (blake (k @ fill 8)) 0 plain" using f l by (simp_all add: salamander_packet_def)
  have "drop 8 ?w = plain \<longleftrightarrow> (\<forall>j < 43. blake (k @ fill 8) ! (j mod 32) = 0)" unfolding w(2) xor_mask_id l by simp
  also have "\<dots> \<longleftrightarrow> blake (k @ fill 8) = replicate 32 0"
  proof
    assume z: "\<forall>j < 43. blake (k @ fill 8) ! (j mod 32) = 0"
    show "blake (k @ fill 8) = replicate 32 0"
    proof (rule nth_equalityI)
      fix i assume "i < length (blake (k @ fill 8))"
      then have "i < 32" using f by simp
      then show "blake (k @ fill 8) ! i = replicate 32 0 ! i" using z [rule_format, of i] by simp
    qed (simp add: f)
  qed simp
  finally show ?thesis
    unfolding test_obfs_roundtrip_def Let_def k_def [symmetric] plain_def [symmetric]
    using l f w ne assms open_salamander_packet [OF f(1), of blake k plain]
    by (simp add: salamander_new_def obfuscate_eq deobfuscate_eq subslice_def assert_that_def)
qed

lemma test_parse_ports_passes: "test_parse_ports_single_range_list = Some ()"
proof -
  have r: "{100..103 :: u16} = {100, 101, 102, 103}"
    using port_range_set [of 100 103] by (simp add: port_range_def upt_rec [of _ "_ :: nat"])
  have "parse_ports (str ''443'') = Some [443]"
    using parse_printed_sorted [of "[Single 443]" "[443]"] by (simp add: dec_string.simps byte_def)
  moreover have "parse_ports (str ''443,445'') = Some [443, 445]"
    using parse_printed_sorted [of "[Single 443, Single 445]" "[443, 445]"]
    by (simp add: dec_string.simps byte_def word_less_nat_alt insert_commute)
  moreover have "parse_ports (str ''100-103'') = Some [100, 101, 102, 103]"
    using parse_printed_sorted [of "[Range 100 103]" "[100, 101, 102, 103]"]
    by (simp add: dec_string.simps byte_def word_less_nat_alt min_def max_def word_le_nat_alt r)
  moreover have "parse_ports (str ''103-100,101'') = Some [100, 101, 102, 103]"
    using parse_printed_sorted [of "[Range 103 100, Single 101]" "[100, 101, 102, 103]"]
    by (simp add: dec_string.simps byte_def word_less_nat_alt min_def max_def word_le_nat_alt r insert_commute)
  moreover have "parse_ports (str ''*'') = Some (port_range 0 65535)" unfolding parse_ports_def by (rule if_P) simp
  moreover have "length (port_range 0 65535) = 65536" unfolding port_range_def length_map length_upt by simp
  moreover have "trim (str ''nope'') = str ''nope''" by (rule trim_ascii) (simp add: is_whitespace_def)
  then have "parse_ports (str ''nope'') = None"
    by (simp add: parse_ports_def part_ports_def parse_u16_def from_str_radix_def to_digit_def)
  moreover have "parse_ports [] = None"
    using trim_ascii [of "[]"] by (simp add: parse_ports_def part_ports_def parse_u16_def from_str_radix_def)
  ultimately show ?thesis unfolding test_parse_ports_single_range_list_def by (simp only: simp_thms assert_that_simps bind.bind_lunit)
qed

end
