(* ===== verification/Spec2Isabelle.thy ===== *)
theory Spec2Isabelle
  imports Udp_Frag Tcp_Frame Udp_Message Varint Duplex_Stream Hop_Socket Pin_Tls Client_Config Udp_Relay Reconnect
    Brutal_CC Quic_Transport Connect_Auth Hysteria_Client Udp_Service Full_Duplex Reconnect_Spec Crate_Tests
begin

text \<open>
  Verification of the Hysteria2 client \<^verbatim>\<open>rsteria2\<close>, a Rust library under \<^verbatim>\<open>src/src\<close>.

  \<^bold>\<open>The program and its theories.\<close> A program configures the library (\<^verbatim>\<open>config.rs\<close>) and calls
  \<open>connect\<close> (\<^verbatim>\<open>connect.rs\<close>), which resolves the server, builds a QUIC endpoint over a UDP socket
  that may obfuscate and hop ports (\<^verbatim>\<open>transport/\<close>), authenticates by an HTTP/3 request and returns
  a \<open>HysteriaClient\<close> (\<^verbatim>\<open>client.rs\<close>). The client opens proxied TCP streams (\<^verbatim>\<open>stream.rs\<close>) and UDP
  sessions (\<^verbatim>\<open>udp.rs\<close>), framed by \<^verbatim>\<open>protocol.rs\<close>; \<^verbatim>\<open>congestion.rs\<close> paces the upload, and
  \<^verbatim>\<open>reconnect.rs\<close> wraps a client that is redialled when its connection has died.

  \<^item> \<open>Rs_Prelude\<close>, \<open>Rs_Str\<close>, \<open>Rs_Io\<close>, \<open>Rs_Float\<close>: what the sources use of Rust. Slices and checked
    indexing, machine integers, UTF-8 strings and their parsers, polls, \<open>io::Error\<close>, the crate's
    \<open>Error\<close> (\<^verbatim>\<open>error.rs\<close>), asynchronous functions as actions on the state of the world, and the
    rounding arithmetic of \<open>f64\<close>.
  \<^item> \<open>Field_Codec\<close>, \<open>Step_Machine\<close>: the interfaces of length-counted fields and of machines that run
    step by step with an invariant, as locales.
  \<^item> \<open>Varint\<close>, \<open>Tcp_Frame\<close>, \<open>Udp_Message\<close>, \<open>Udp_Frag\<close> (\<^verbatim>\<open>protocol.rs\<close>): varints, the TCP request and the
    incremental parser of the response, UDP messages, fragmentation and reassembly.
  \<^item> \<open>Duplex_Stream\<close> (\<^verbatim>\<open>stream.rs\<close>): a proxied stream whose response header is read on first use.
  \<^item> \<open>Client_Config\<close> (\<^verbatim>\<open>config.rs\<close>): the configuration, its defaults and the port specifications.
  \<^item> \<open>Salamander_Obfs\<close>, \<open>Hop_Socket\<close>, \<open>Pin_Tls\<close>, \<open>Quic_Transport\<close> (\<^verbatim>\<open>transport/obfs.rs\<close>, \<^verbatim>\<open>socket.rs\<close>,
    \<^verbatim>\<open>tls.rs\<close>, \<^verbatim>\<open>mod.rs\<close>): the packet mask, the wrapping socket with its hop task, certificate pins and
    verifiers, and the set-up of the endpoint.
  \<^item> \<open>Brutal_CC\<close> (\<^verbatim>\<open>congestion.rs\<close>): the Brutal controller and the switch between it and BBR.
  \<^item> \<open>Udp_Relay\<close> (\<^verbatim>\<open>udp.rs\<close>): the session manager, its receive loop, and sessions; \<open>Udp_Service\<close>: a
    session seen from outside, through the receive loop, and after its client has gone.
  \<^item> \<open>Connect_Auth\<close> (\<^verbatim>\<open>connect.rs\<close>), \<open>Hysteria_Client\<close> (\<^verbatim>\<open>client.rs\<close>) and \<open>Reconnect\<close>
    (\<^verbatim>\<open>reconnect.rs\<close>): connecting and authenticating, the client handle, and the wrapper with the
    interleaving of concurrent \<open>tcp_connect\<close> and \<open>udp\<close> calls. \<open>Hysteria_Client\<close> puts the wrapper on top of real clients.
  \<^item> \<open>Full_Duplex\<close>: a stream of a client used in both directions. \<open>Reconnect_Spec\<close>: schedules of the
    wrapper's calls, their progress, and the abstract connection that the wrapper refines.
  \<^item> \<open>Crate_Tests\<close>: the unit tests of \<^verbatim>\<open>protocol.rs\<close>, \<^verbatim>\<open>obfs.rs\<close> and \<^verbatim>\<open>config.rs\<close>, run on the model.
  \<^item> This theory: properties of a connected client that span the whole chain.

  \<^bold>\<open>Conventions.\<close> Definitions keep the names of the source, with a prefix where HOL or another
  module has the name already (\<open>rc_\<close> for the wrapper, \<open>client_\<close>, \<open>session_\<close>). \<open>'a run\<close> is an option
  whose \<open>None\<close> is a panic; arithmetic that differs between debug and release builds takes a flag
  \<open>ovf\<close>, and a theorem that does not fix the flag holds for both. \<open>Result\<close> is a sum with the error on
  the left. A loop that may not return is a \<open>partial_function\<close>, and where the code relies on its
  return this is proved (\<open>establish_decides\<close>, \<open>relay_isolation\<close>, \<open>obfuscated_recv_delivers\<close>);
  \<open>poll_establish\<close> terminates because the parser refuses headers over 6161 bytes. \<open>task_run\<close> takes the
  number of turns: five are enough for a \<open>tcp_connect\<close> call and two for a \<open>udp\<close> call, alone
  (\<open>tcp_connect_is_its_task\<close>, \<open>udp_is_its_task\<close>) and under any schedule (\<open>every_call_returns\<close>).
  No other definition has fuel.
  \<open>Arc\<close>s that matter are explicit: channels and the shared atomics of the congestion control are
  addressed cells, and the owners of a client are counted.

  \<^bold>\<open>Code of other crates\<close> is a parameter: a record of its operations, with what the source relies on
  as a predicate or a locale, taken from the documentation of that crate: \<open>rng_ok\<close>, \<open>fill_ok\<close> (rand),
  \<open>blake_ok\<close> (blake2), \<open>recv_stream\<close>, \<open>eventually_ready\<close>, \<open>quic_ok\<close>, \<open>send_ok\<close>, \<open>conn_ok\<close>,
  \<open>quinn_ok\<close>, \<open>inner_recv_ok\<close>, \<open>drains\<close> (quinn), \<open>chan_ok\<close>, \<open>room_ok\<close> (tokio), \<open>empty_defaults\<close> (the \<open>Controller\<close> trait). Name
  resolution, TLS, QUIC handshake and HTTP/3 (\<open>tls_env\<close>, \<open>quinn_env\<close>, \<open>net_env\<close>) may answer anything.

  \<^bold>\<open>Interfaces.\<close> The locale of length-counted fields is interpreted on the varint codec. \<open>step_machine\<close>
  and \<open>total_machine\<close> are interpreted on the defragger and on stream reads, \<open>byte_stream\<close> on the stream
  over any \<open>recv_stream\<close>, \<open>rounding\<close> on binary64. \<open>client_handles\<close>, what the reconnecting wrapper
  relies on of its clients, and its extension \<open>client_store\<close> are interpreted on the operations of
  \<open>HysteriaClient\<close> and \<open>connect\<close> (\<open>live_ops\<close>).

  \<^bold>\<open>What is shown.\<close> Wire formats: round trips, exactness of the incremental parser, bounds, refinement
  of the in-place writers. Reassembly: any order and repetition of fragments gives the message
  back, no input makes it mix packets, and none makes it panic in a build without overflow checks.
  Streams: reads deliver exactly the application
  bytes, with and without fast open and whatever is written in between, what is written reaches
  the peer behind one request, and a refusal never yields data. Sockets: what is sent and
  delivered, obfuscated or not, and that hopping stays in range under any interleaving. TLS: what
  acceptance of a certificate implies, and whom a connected client trusts. Congestion control: the slot ring refines a sliding window,
  and the window keeps to the configured rate. Connecting: what the returned client was given, no
  panic, and the rate agreed in the server's answer. UDP: routing by session id as an invariant, a
  payload that is echoed comes back through fragmentation, routing and reassembly, and sessions
  return what was queued for them and end when their client does. Wrapper: under any interleaving
  of \<open>tcp_connect\<close>, \<open>udp\<close>, \<open>close\<close>, \<open>invalidate\<close> and network changes it refines the abstract
  connection, every call returns, one lost connection is survived, and closing is permanent;
  behind these stands the invariant that the owner counts of clients are exact. The unit tests pass. Some properties state defects of the code, such as the packet id that a completed
  packet blocks, or the retry that closes a live connection.

  \<^bold>\<open>Not modelled.\<close> The inside of quinn, rustls, h3, tokio, blake2 and BBR; the timing of the runtime
  (the hop task and the receive loop are steps taken at any time; a connect or a request awaited in
  a call of the wrapper is one step that completes, and one that panics or waits forever is an
  error there, \<open>stuck\<close>); memory orderings of the relaxed
  atomics; logging; \<open>Debug\<close> output, \<open>create_io_poller\<close>, \<open>into_any\<close>, which only forward to other
  crates; and \<^verbatim>\<open>lib.rs\<close>, which declares and re-exports modules.
\<close>

section \<open>A connected client, end to end\<close>






text \<open>
  C32. Whom a connected client trusts. The verifier of its endpoint accepts a certificate exactly
  when the configured pin, if there is one, is the certificate's SHA-256 digest and, unless the
  configuration is insecure, the WebPKI verifier over the built-in roots and the configured PEM
  certificates accepts the chain. Handshake signatures are checked by that WebPKI verifier, but
  with \<open>insecure\<close> every signature is accepted, also where a pin is configured: whoever presents the
  pinned certificate, which is public, is then trusted without holding its key.
\<close>

theorem connected_client_trusts:
  assumes "connect env rng1 rng2 cfg h = Some (h', Inr cl)"
  shows "\<exists>tls v pin roots w. tls = env_tls env \<and> v = cert_verifier (ep_crypto (hy_endpoint cl)) \<and>
    parse_pin (pin_sha256 cfg) = Some (Inr pin) \<and> (pin = None \<longleftrightarrow> pin_sha256 cfg = []) \<and>
    roots_extended tls (tls_server_roots tls) (if ca_pem cfg = [] then [] else pemfile_certs tls (ca_pem cfg)) roots \<and>
    (w = root_verifier tls roots \<or> webpki_build tls roots = Inr w) \<and>
    (\<forall>cert chain name ocsp now. verify_server_cert tls v cert chain name ocsp now = Inr () \<longleftrightarrow>
      (\<forall>p. pin = Some p \<longrightarrow> sha256 tls cert = p) \<and>
      (insecure cfg \<or> webpki_cert tls w cert chain name ocsp now = Inr ())) \<and>
    (\<forall>message cert dss.
      verify_tls12_signature tls v message cert dss = (if insecure cfg then Inr () else webpki_tls12 tls w message cert dss) \<and>
      verify_tls13_signature tls v message cert dss = (if insecure cfg then Inr () else webpki_tls13 tls w message cert dss))"
  using assms
proof (rule connect_Inr)
  fix pin
  assume pin: "parse_pin (pin_sha256 cfg) = Some (Inr pin)"
    and b: "build_client_config (env_tls env) (insecure cfg) pin (ca_pem cfg) = Inr (ep_crypto (hy_endpoint cl))"
  show ?thesis
  proof (rule verifier_accepts [OF b], goal_cases)
    case (1 roots w)
    show ?case
      by (rule exI [of _ "env_tls env"], rule exI [of _ "cert_verifier (ep_crypto (hy_endpoint cl))"],
          rule exI [of _ pin], rule exI [of _ roots], rule exI [of _ w])
        (use 1 parse_pin_None [OF pin] pin in simp)
  qed
qed

theorem connected_client_trusts_witness:
  "\<exists>h' (cl :: (unit, bytes list, queue_chan) hysteria_client) v.
     connect (lab_env (lab_response [])) lab_rng lab_rng lab_config lab_host = Some (h', Inr cl) \<and>
     v = cert_verifier (ep_crypto (hy_endpoint cl)) \<and>
     verify_server_cert (env_tls (lab_env (lab_response []))) v [1, 2] [] [] [] 0 = Inr ()"
proof -
  obtain h' and cl :: "(unit, bytes list, queue_chan) hysteria_client"
    where c: "connect (lab_env (lab_response [])) lab_rng lab_rng lab_config lab_host = Some (h', Inr cl)"
    using lab_connect by blast
  let ?v = "cert_verifier (ep_crypto (hy_endpoint cl))" and ?tls = "env_tls (lab_env (lab_response []))"
  have "pin_sha256 lab_config = []" by (simp add: lab_config_def config_default_def)
  moreover have "webpki_cert ?tls w cert chain name ocsp now = Inr ()" for w cert chain name ocsp now
    by (simp add: lab_env_def sample_env_def)
  ultimately have "verify_server_cert ?tls ?v [1, 2] [] [] [] 0 = Inr ()"
    using connected_client_trusts [OF c] by (metis option.distinct(1))
  then show ?thesis using c by blast
qed

text \<open>
  C11. The agreed upload rate is the one that is enforced. Let a client be connected with an
  upload cap, let its endpoint's factory build the congestion controller of a connection, and
  let any events drive that controller without a panic. While the flag of this connection says
  Brutal, the server did not answer \<open>auto\<close>, and with a round-trip time known the window is the
  truncation of a number between the agreed rate times the round-trip time and five quarters of
  that, up to the rounding of five floating-point operations, and never below 10240 bytes or two
  packets. The agreed rate is the smaller of the cap and the server's rate, or the cap where the
  server gave none.
\<close>

theorem upload_rate_enforced:
  assumes "connect env rng1 rng2 cfg h = Some (h', Inr cl)" and "0 < tx_bps cfg"
    and "controller_factory (ep_transport (hy_endpoint cl)) = SwitchableCC fac"
    and "empty_defaults dflt"
    and "cc_run (switchable_ops cs (brutal_ops rtt_get True cs dflt) bb) (switchable_build bbr_build clock fac now m) es = Some c"
    and "\<not> flag_at (cells_of h') (sf_use_bbr fac)"
    and "srtt (sw_brutal c) \<noteq> 0" and "srtt (sw_brutal c) div 1000000000 < 2 ^ 64"
  shows "\<exists>resp au agreed x. answered env cfg (hy_conn cl) (net_of h') resp \<and> read_auth_response resp = Inr au \<and>
    \<not> rx_auto au \<and> agreed = (if 0 < server_rx au then min (tx_bps cfg) (server_rx au) else tx_bps cfg) \<and>
    unat (c_window (switchable_ops (cells_of h') (brutal_ops rtt_get True (cells_of h') dflt) bb) c) =
      max (min (nat \<lfloor>x :: rat\<rfloor>) (2 ^ 64 - 1)) (max (2 * unat (mtu (sw_brutal c))) 10240) \<and>
    (1 - 1 / 2 ^ 53) ^ 5 * (of_nat (unat agreed) * (of_nat (srtt (sw_brutal c)) / 1000000000)) \<le> x \<and>
    x \<le> (1 + 1 / 2 ^ 53) ^ 5 * (5 / 4 * (of_nat (unat agreed) * (of_nat (srtt (sw_brutal c)) / 1000000000)))"
proof -
  have nz: "tx_bps cfg \<noteq> 0" using assms(2) by auto
  define a where "a = next_cell (cells_of h)"
  obtain resp au where au: "answered env cfg (hy_conn cl) (net_of h') resp" "read_auth_response resp = Inr au"
    and fac: "fac = \<lparr>sf_rate = a, sf_use_bbr = a\<rparr>" and flag: "flag_at (cells_of h') a = rx_auto au"
    and rate: "rate_at (cells_of h') a =
         (if \<not> rx_auto au \<and> 0 < server_rx au then min (tx_bps cfg) (server_rx au) else tx_bps cfg)"
    using connect_cells [OF assms(1)] assms(3) unfolding if_not_P [OF nz] by (auto simp: a_def)
  have run: "cc_run (brutal_ops rtt_get True cs dflt) (brutal_new clock a m) es = Some (sw_brutal c)" "sw_use_bbr c = a"
    using assms(5) unfolding switchable_run by (auto simp: switchable_build_def fac split: Option.bind_splits)
  have "c_window (switchable_ops (cells_of h') (brutal_ops rtt_get True (cells_of h') dflt) bb) c = window (cells_of h') (sw_brutal c)"
    using assms(6) run(2) by (simp add: switchable_window fac brutal_ops_def)
  moreover obtain x :: rat where "unat (window (cells_of h') (sw_brutal c)) =
      max (min (nat \<lfloor>x\<rfloor>) (2 ^ 64 - 1)) (max (2 * unat (mtu (sw_brutal c))) 10240)"
    "(1 - 1 / 2 ^ 53) ^ 5 * (of_nat (unat (rate_at (cells_of h') a)) * (of_nat (srtt (sw_brutal c)) / 1000000000)) \<le> x"
    "x \<le> (1 + 1 / 2 ^ 53) ^ 5 * (5 / 4 * (of_nat (unat (rate_at (cells_of h') a)) * (of_nat (srtt (sw_brutal c)) / 1000000000)))"
    using window_near_rate [OF assms(4) run(1) assms(7,8) refl, of "cells_of h'"] by blast
  moreover have "\<not> rx_auto au" using assms(6) fac flag by simp
  ultimately show ?thesis using au rate by (metis (no_types, lifting))
qed

definition idle_bbr :: "(unit, duration) controller_ops" where
  "idle_bbr =
     \<lparr>c_on_sent = (\<lambda>c now bs pn. Some c), c_on_ack = (\<lambda>c now sent bs app rtt. Some c),
      c_on_end_acks = (\<lambda>c now inflight app largest. Some c),
      c_on_congestion_event = (\<lambda>c now sent pers lst. Some c), c_on_mtu_update = (\<lambda>c m. Some c),
      c_window = (\<lambda>c. 14720), c_initial_window = (\<lambda>c. 14720), c_clone_box = (\<lambda>c. c)\<rparr>"

theorem upload_rate_enforced_witness:
  "\<exists>h' (cl :: (unit, bytes list, queue_chan) hysteria_client) fac c (x :: rat).
     connect (lab_env (lab_response [])) lab_rng lab_rng lab_config lab_host = Some (h', Inr cl) \<and>
     controller_factory (ep_transport (hy_endpoint cl)) = SwitchableCC fac \<and>
     cc_run (switchable_ops (one_cell 1000) (brutal_ops (\<lambda>d. d) True (one_cell 1000) plain_defaults) idle_bbr)
       (switchable_build (\<lambda>now m. ()) 0 fac 0 1200) one_ack = Some c \<and>
     unat (c_window (switchable_ops (cells_of h') (brutal_ops (\<lambda>d. d) True (cells_of h') plain_defaults) idle_bbr) c) =
       max (min (nat \<lfloor>x\<rfloor>) (2 ^ 64 - 1)) (max (2 * unat (mtu (sw_brutal c))) 10240) \<and>
     x \<le> (1 + 1 / 2 ^ 53) ^ 5 * (5 / 4 * (1000 * (50000000 / 1000000000)))"
proof -
  define R where "R = lab_response []"
  obtain h' and cl :: "(unit, bytes list, queue_chan) hysteria_client"
    where c: "connect (lab_env R) lab_rng lab_rng lab_config lab_host = Some (h', Inr cl)"
    unfolding R_def using lab_connect by blast
  have au: "read_auth_response R = Inr \<lparr>udp_enabled = True, server_rx = 0, rx_auto = False\<rparr>"
    by (simp add: R_def read_auth_response_def lab_response_def STATUS_AUTH_OK_def parse_u64_def from_str_radix_def)
  have cfg: "tx_bps lab_config = 1000" by (simp add: lab_config_def config_default_def)
  obtain a where fac: "controller_factory (ep_transport (hy_endpoint cl)) = SwitchableCC \<lparr>sf_rate = a, sf_use_bbr = a\<rparr>"
    and flag: "\<not> flag_at (cells_of h') (sf_use_bbr \<lparr>sf_rate = a, sf_use_bbr = a\<rparr>)"
    using connect_cells [OF c] by (auto simp: au cfg dest!: lab_answered)
  obtain b where b: "cc_run (brutal_ops (\<lambda>d. d) True (one_cell 1000) plain_defaults) (brutal_new 0 a 1200) one_ack = Some b"
    "srtt b = 50000000" using one_ack_run by blast
  let ?c = "\<lparr>sw_brutal = b, sw_bbr = (), sw_use_bbr = a\<rparr>"
  have run: "cc_run (switchable_ops (one_cell 1000) (brutal_ops (\<lambda>d. d) True (one_cell 1000) plain_defaults) idle_bbr)
       (switchable_build (\<lambda>now m. ()) 0 \<lparr>sf_rate = a, sf_use_bbr = a\<rparr> 0 1200) one_ack = Some ?c"
    unfolding switchable_run using b(1) by (simp add: switchable_build_def one_ack_def idle_bbr_def)
  have r: "srtt (sw_brutal ?c) \<noteq> 0" "srtt (sw_brutal ?c) div 1000000000 < 2 ^ 64" "0 < tx_bps lab_config"
    using b(2) cfg by simp_all
  from upload_rate_enforced [OF c r(3) fac plain_defaults_empty run flag r(1,2)] obtain x :: rat where
    "unat (c_window (switchable_ops (cells_of h') (brutal_ops (\<lambda>d. d) True (cells_of h') plain_defaults) idle_bbr) ?c) =
       max (min (nat \<lfloor>x\<rfloor>) (2 ^ 64 - 1)) (max (2 * unat (mtu (sw_brutal ?c))) 10240)"
    "x \<le> (1 + 1 / 2 ^ 53) ^ 5 * (5 / 4 * (of_nat (unat (1000 :: u64)) * (of_nat 50000000 / 1000000000)))"
    by (auto dest!: lab_answered simp only: au cfg b(2) switchable.simps prod.inject sum.inject auth_response.simps if_False
        less_irrefl simp_thms)
  then show ?thesis using c fac run unfolding R_def by (intro exI conjI) (assumption | simp)+
qed

end
